(* ===== verification/Silk_Prelude.thy ===== *)
theory Silk_Prelude
  imports Main "HOL-Library.Word" "HOL-Library.AList" "HOL-Library.Multiset"
    "HOL-Library.Char_ord" "HOL-Library.List_Lexorder" "HOL-Library.Product_Lexorder"
begin

text \<open>
  Shared vocabulary of the development: the Rust types and collections the components use, and
  the lemmas about them that the component proofs rest on.

  \<^item> \<open>u64\<close>, \<open>u32\<close>, \<open>u8\<close> are words of the width of the source; a \<^verbatim>\<open>[u8; 32]\<close> content hash is a
    256-bit word, the big-endian reading of its 32 bytes, so that its \<open>\<le>\<close> is the array's
    lexicographic \<^verbatim>\<open>Ord\<close>. A Rust \<^verbatim>\<open>String\<close> is a \<open>string\<close> holding its UTF-8 bytes; its \<open>\<le>\<close> is the
    bytewise lexicographic order of \<^verbatim>\<open>str::cmp\<close>.
  \<^item> A \<^verbatim>\<open>HashMap\<close> is an association list with distinct keys whose order is one possible iteration
    order; a \<^verbatim>\<open>HashSet\<close> is a distinct list. Nothing fixes that order, and the theorems that claim
    determinism quantify over it. A \<^verbatim>\<open>BTreeMap\<close> is an association list sorted by key, its
    iteration order. The locale \<open>finite_map\<close> states what the clients rely on for both.
  \<^item> A panic is the value \<open>None\<close>; a \<^verbatim>\<open>Result\<close> is a sum with the error on the left.
  \<^item> The locales \<open>worklist_pop\<close> and \<open>worklist_push\<close> state the two shapes of the code's worklist
    traversals and prove once that they compute a reflexive transitive closure.
\<close>

section \<open>Types\<close>

type_synonym u8 = "8 word"
type_synonym u32 = "32 word"
type_synonym u64 = "64 word"
type_synonym i64 = "64 word" \<comment> \<open>read with \<open>sint\<close>\<close>
type_synonym f64 = "64 word" \<comment> \<open>the IEEE 754 bit pattern\<close>
type_synonym hash = "256 word"
type_synonym ('k, 'v) hash_map = "('k \<times> 'v) list"
type_synonym 'k hash_set = "'k list"
type_synonym ('k, 'v) btree_map = "('k \<times> 'v) list"
type_synonym ('e, 'a) result = "'e + 'a"

named_theorems map_simps \<open>lookups after updates of the collections\<close>
named_theorems inv_intros \<open>preservation of the component invariants\<close>

section \<open>Integers\<close>

definition saturating_add :: "'w::len word \<Rightarrow> 'w word \<Rightarrow> 'w word" where
  "saturating_add a b = (if unat a + unat b < 2 ^ LENGTH('w) then a + b else - 1)"

lemma unat_minus_one: "unat (- 1 :: 'w::len word) = 2 ^ LENGTH('w) - 1"
  by (simp add: unsigned_minus_1_eq_mask mask_eq_exp_minus_1)

lemma unat_saturating_add:
  "unat (saturating_add a b) = min (unat a + unat b) (2 ^ LENGTH('w) - 1)"
  for a b :: "'w::len word"
  by (auto simp: saturating_add_def unat_word_ariths unat_minus_one)

lemma saturating_add_mono: "a \<le> saturating_add a b"
  for a b :: "'w::len word"
proof -
  have "unat a < 2 ^ LENGTH('w)" by (rule unsigned_less)
  then have "unat a \<le> 2 ^ LENGTH('w) - 1" by linarith
  then show ?thesis by (simp add: word_le_nat_alt unat_saturating_add)
qed

lemma saturating_add_one_less: "a < saturating_add a 1" if "a \<noteq> - 1"
  for a :: "'w::len word"
proof -
  have "unat a \<noteq> 2 ^ LENGTH('w) - 1"
    using that unat_minus_one [where 'w = 'w] by (metis word_unat_eq_iff)
  moreover have "unat a < 2 ^ LENGTH('w)" by (rule unsigned_less)
  ultimately have "unat a < 2 ^ LENGTH('w) - 1" by linarith
  then show ?thesis
    by (simp add: word_less_nat_alt unat_saturating_add)
qed

section \<open>Collections\<close>

abbreviation hm_get :: "('k, 'v) hash_map \<Rightarrow> 'k \<Rightarrow> 'v option" where
  "hm_get \<equiv> map_of"

abbreviation hm_insert :: "'k \<Rightarrow> 'v \<Rightarrow> ('k, 'v) hash_map \<Rightarrow> ('k, 'v) hash_map" where
  "hm_insert \<equiv> AList.update"

abbreviation hm_remove :: "'k \<Rightarrow> ('k, 'v) hash_map \<Rightarrow> ('k, 'v) hash_map" where
  "hm_remove \<equiv> AList.delete"

definition hm_contains :: "('k, 'v) hash_map \<Rightarrow> 'k \<Rightarrow> bool" where
  "hm_contains m k \<longleftrightarrow> map_of m k \<noteq> None"

abbreviation hm_wf :: "('k, 'v) hash_map \<Rightarrow> bool" where
  "hm_wf m \<equiv> distinct (map fst m)"

abbreviation hm_keys :: "('k, 'v) hash_map \<Rightarrow> 'k set" where
  "hm_keys m \<equiv> fst ` set m"

lemma hm_contains_iff: "hm_contains m k \<longleftrightarrow> k \<in> hm_keys m"
  by (simp add: hm_contains_def map_of_eq_None_iff)

lemma hm_get_None_iff: "map_of m k = None \<longleftrightarrow> k \<notin> hm_keys m"
  by (rule map_of_eq_None_iff)

lemma hm_keys_dom: "hm_keys m = dom (map_of m)"
  by (simp add: dom_map_of_conv_image_fst)

lemma hm_insert_fresh: "k \<notin> hm_keys m \<Longrightarrow> AList.update k v m = m @ [(k, v)]"
  by (induction m) auto

lemma set_hm_remove: "set (AList.delete k m) = {kv \<in> set m. fst kv \<noteq> k}"
  by (auto simp: AList.delete_eq)

lemma set_hm_insert: "kv \<in> set (AList.update k v m) \<Longrightarrow> kv = (k, v) \<or> kv \<in> set m"
  by (induction m) (auto split: if_splits)

lemma get_in_keys: "map_of m k = Some v \<Longrightarrow> k \<in> hm_keys m"
  by (metis hm_get_None_iff option.distinct(1))

lemma in_keys_get: "h \<in> hm_keys m \<Longrightarrow> map_of m h = Some (the (map_of m h))"
  by (metis hm_get_None_iff option.collapse)

lemma set_values: "hm_wf m \<Longrightarrow> snd ` set m = {v. \<exists>k. map_of m k = Some v}"
  by (auto simp: map_of_eq_Some_iff intro: rev_image_eqI)

definition hs_insert :: "'k \<Rightarrow> 'k hash_set \<Rightarrow> 'k hash_set" where
  "hs_insert x s = (if x \<in> set s then s else s @ [x])"

definition hs_remove :: "'k \<Rightarrow> 'k hash_set \<Rightarrow> 'k hash_set" where
  "hs_remove x s = removeAll x s"

lemma set_hs_insert [simp]: "set (hs_insert x s) = insert x (set s)"
  by (auto simp: hs_insert_def)

lemma distinct_hs_insert [simp]: "distinct (hs_insert x s) = distinct s"
  by (auto simp: hs_insert_def)

lemma set_hs_remove [simp]: "set (hs_remove x s) = set s - {x}"
  by (auto simp: hs_remove_def)

lemma distinct_hs_remove [simp]: "distinct s \<Longrightarrow> distinct (hs_remove x s)"
  by (simp add: hs_remove_def distinct_removeAll)

fun bt_insert :: "'k::linorder \<Rightarrow> 'v \<Rightarrow> ('k, 'v) btree_map \<Rightarrow> ('k, 'v) btree_map" where
  "bt_insert k v [] = [(k, v)]"
| "bt_insert k v (b # m) =
     (if k = fst b then (k, v) # m
      else if k < fst b then (k, v) # b # m
      else b # bt_insert k v m)"

text \<open>\<^verbatim>\<open>BTreeMap::extend\<close> inserts the pairs of its argument one after the other.\<close>

fun bt_extend :: "('k::linorder, 'v) btree_map \<Rightarrow> ('k \<times> 'v) list \<Rightarrow> ('k, 'v) btree_map" where
  "bt_extend m [] = m"
| "bt_extend m (kv # kvs) = bt_extend (bt_insert (fst kv) (snd kv) m) kvs"

abbreviation bt_get :: "('k, 'v) btree_map \<Rightarrow> 'k \<Rightarrow> 'v option" where
  "bt_get \<equiv> map_of"

definition bt_wf :: "('k::linorder, 'v) btree_map \<Rightarrow> bool" where
  "bt_wf m \<longleftrightarrow> sorted_wrt (<) (map fst m)"

lemma bt_keys_insert: "fst ` set (bt_insert k v m) = insert k (fst ` set m)"
  by (induction m) auto

lemma bt_get_insert: "map_of (bt_insert k v m) = (map_of m)(k \<mapsto> v)"
  by (induction m) (auto simp: fun_eq_iff)

lemma bt_insert_key: "b \<in> set (bt_insert k v m) \<Longrightarrow> fst b = k \<or> (\<exists>a \<in> set m. fst a = fst b)"
  using bt_keys_insert [of k v m] by (metis image_iff insert_iff)

lemma bt_wf_insert: "bt_wf m \<Longrightarrow> bt_wf (bt_insert k v m)"
proof (induction m)
  case (Cons b m)
  have "\<forall>a \<in> set (bt_insert k v m). fst b < fst a" if "fst b < k"
    using Cons.prems that by (auto simp: bt_wf_def dest!: bt_insert_key)
  with Cons show ?case by (auto simp: bt_wf_def dest: order.strict_trans)
qed (simp add: bt_wf_def)

lemma bt_wf_delete: "bt_wf m \<Longrightarrow> bt_wf (AList.delete k m)"
  by (induction m) (auto simp: bt_wf_def AList.delete_eq)

lemma bt_wf_distinct: "bt_wf m \<Longrightarrow> distinct (map fst m)"
  unfolding bt_wf_def using strict_sorted_iff by blast

section \<open>The map interface\<close>

text \<open>
  What the components rely on when they use a map: a lookup after an insertion, the empty map, and
  that insertions keep the representation well formed. Both collections provide it.
\<close>

locale finite_map =
  fixes empty :: 'm
    and insert_at :: "'k \<Rightarrow> 'v \<Rightarrow> 'm \<Rightarrow> 'm"
    and get :: "'m \<Rightarrow> 'k \<Rightarrow> 'v option"
    and wf_map :: "'m \<Rightarrow> bool"
  assumes get_empty: "get empty k = None"
    and get_insert: "wf_map m \<Longrightarrow> get (insert_at k v m) j = (if j = k then Some v else get m j)"
    and wf_empty: "wf_map empty"
    and wf_insert: "wf_map m \<Longrightarrow> wf_map (insert_at k v m)"
begin

lemma fold_insert:
  "wf_map m \<Longrightarrow> wf_map (fold (\<lambda>kv. insert_at (fst kv) (snd kv)) kvs m) \<and>
    get (fold (\<lambda>kv. insert_at (fst kv) (snd kv)) kvs m) j
      = (case map_of (rev kvs) j of None \<Rightarrow> get m j | Some v \<Rightarrow> Some v)"
proof (induction kvs arbitrary: m)
  case (Cons kv kvs)
  then show ?case
    by (cases kv) (auto simp: wf_insert get_insert map_add_def split: option.splits)
qed simp

lemma get_fold_insert:
  "wf_map m \<Longrightarrow> get (fold (\<lambda>kv. insert_at (fst kv) (snd kv)) kvs m) j
      = (case map_of (rev kvs) j of None \<Rightarrow> get m j | Some v \<Rightarrow> Some v)"
  using fold_insert by blast

lemma wf_fold_insert: "wf_map m \<Longrightarrow> wf_map (fold (\<lambda>kv. insert_at (fst kv) (snd kv)) kvs m)"
  using fold_insert by blast

end

interpretation hm: finite_map "[]" AList.update map_of "\<lambda>m. distinct (map fst m)"
  by unfold_locales (auto simp: update_conv' distinct_update)

interpretation bt: finite_map "[]" bt_insert map_of bt_wf
  by unfold_locales (simp_all add: bt_get_insert bt_wf_insert, simp add: bt_wf_def)

lemma bt_extend_fold: "bt_extend m kvs = fold (\<lambda>kv. bt_insert (fst kv) (snd kv)) kvs m"
  by (induction m kvs rule: bt_extend.induct) auto

lemma bt_get_extend:
  "bt_wf m \<Longrightarrow> map_of (bt_extend m kvs) k
    = (case map_of (rev kvs) k of None \<Rightarrow> map_of m k | Some v \<Rightarrow> Some v)"
  by (simp add: bt_extend_fold bt.get_fold_insert)

lemma bt_wf_extend: "bt_wf m \<Longrightarrow> bt_wf (bt_extend m kvs)"
  by (simp add: bt_extend_fold bt.wf_fold_insert)

lemma map_of_rev: "distinct (map fst m) \<Longrightarrow> map_of (rev m) = map_of m"
  by (subst map_of_inject_set) (simp_all add: rev_map [symmetric])

lemma bt_get_extend_wf:
  "bt_wf m \<Longrightarrow> bt_wf m' \<Longrightarrow> map_of (bt_extend m m') k
    = (case map_of m' k of None \<Rightarrow> map_of m k | Some v \<Rightarrow> Some v)"
  by (simp add: bt_get_extend map_of_rev bt_wf_distinct)

lemmas [map_simps] = update_conv' delete_conv' bt_get_insert hm_contains_iff

section \<open>Lists and relations\<close>

lemma set_map_filter: "set (List.map_filter f xs) = {y. \<exists>x \<in> set xs. f x = Some y}"
  by (induction xs) (auto simp: map_filter_simps split: option.splits)

lemma fold_inv: "P s \<Longrightarrow> (\<And>x s. P s \<Longrightarrow> P (f x s)) \<Longrightarrow> P (fold f xs s)"
  by (induction xs arbitrary: s) auto

lemma find_None_list_all: "find P xs = None \<longleftrightarrow> (\<forall>x \<in> set xs. \<not> P x)"
  by (auto simp: find_None_iff)

lemma find_SomeD: "find P xs = Some x \<Longrightarrow> x \<in> set xs \<and> P x"
  by (auto simp: find_Some_iff)

lemma acyclic_extend:
  assumes "acyclic R" "h \<notin> Domain R" "h \<notin> P"
  shows "acyclic (R \<union> {(p, h) |p. p \<in> P})"
proof -
  let ?S = "R \<union> {(p, h) |p. p \<in> P}"
  have no: "(h, y) \<notin> ?S\<^sup>+" for y
  proof
    assume "(h, y) \<in> ?S\<^sup>+"
    then obtain z where "(h, z) \<in> ?S" by (meson tranclD)
    with assms show False by auto
  qed
  have "(x, y) \<in> ?S\<^sup>+ \<Longrightarrow> y = h \<or> (x, y) \<in> R\<^sup>+" for x y
  proof (induction rule: trancl_induct)
    case (step y z)
    then show ?case using no by (auto intro: trancl_into_trancl)
  qed auto
  then have "(x, x) \<notin> ?S\<^sup>+" for x using no assms(1) unfolding acyclic_def by blast
  then show ?thesis by (simp add: acyclic_def)
qed

section \<open>Results\<close>

text \<open>A \<^verbatim>\<open>for\<close> loop whose body ends in \<^verbatim>\<open>?\<close>: the first error is returned.\<close>

fun for_each_ok :: "('a \<Rightarrow> ('e, unit) result) \<Rightarrow> 'a list \<Rightarrow> ('e, unit) result" where
  "for_each_ok f [] = Inr ()"
| "for_each_ok f (x # xs) = (case f x of Inl e \<Rightarrow> Inl e | Inr _ \<Rightarrow> for_each_ok f xs)"

text \<open>Two checks in sequence, the first with \<^verbatim>\<open>?\<close>.\<close>

fun and_then :: "('e, unit) result \<Rightarrow> ('e, 'a) result \<Rightarrow> ('e, 'a) result" where
  "and_then (Inl e) r = Inl e"
| "and_then (Inr _) r = r"

definition is_ok :: "('e, 'a) result \<Rightarrow> bool" where
  "is_ok r \<longleftrightarrow> (\<exists>x. r = Inr x)"

lemma is_ok_simps [simp]: "is_ok (Inr x)" "\<not> is_ok (Inl e)"
  by (simp_all add: is_ok_def)

lemma is_ok_unit: "is_ok r \<longleftrightarrow> r = Inr ()"
  by (auto simp: is_ok_def)

lemma is_ok_for_each_ok [simp]: "is_ok (for_each_ok f xs) \<longleftrightarrow> (\<forall>x \<in> set xs. is_ok (f x))"
  by (induction xs) (auto split: sum.splits)

lemma is_ok_and_then [simp]: "is_ok (and_then a b) \<longleftrightarrow> is_ok a \<and> is_ok b"
  by (cases a) auto

section \<open>Worklist traversals\<close>

text \<open>
  The code walks graphs with a visited set and a worklist in two shapes. In the first a vertex is
  marked when it is popped, and popped vertices that are already marked are skipped.
\<close>

definition succ_rel :: "('a \<Rightarrow> 'a list) \<Rightarrow> ('a \<times> 'a) set" where
  "succ_rel f = {(x, y). y \<in> set (f x)}"

lemma succ_rel_Image [simp]: "succ_rel f `` A = (\<Union>x \<in> A. set (f x))"
  by (auto simp: succ_rel_def)

lemma rtrancl_Image_closed:
  assumes "A \<subseteq> B" and "\<And>x. x \<in> B \<Longrightarrow> set (f x) \<subseteq> B"
  shows "(succ_rel f)\<^sup>* `` A \<subseteq> B"
proof -
  have "(x, y) \<in> (succ_rel f)\<^sup>* \<Longrightarrow> x \<in> B \<Longrightarrow> y \<in> B" for x y
    by (induction rule: rtrancl_induct) (use assms(2) in \<open>auto simp: succ_rel_def\<close>)
  with assms(1) show ?thesis by auto
qed

lemma rtrancl_Image_step: "x \<in> (succ_rel f)\<^sup>* `` A \<Longrightarrow> y \<in> set (f x) \<Longrightarrow> y \<in> (succ_rel f)\<^sup>* `` A"
  by (auto simp: succ_rel_def intro: rtrancl_into_rtrancl)

lemma card_unvisited:
  assumes "distinct new" "set new \<inter> set seen = {}"
  shows "card (UNIV - set (seen @ new)) + length new = card (UNIV - set seen :: 'a::finite set)"
proof -
  have "UNIV - set (seen @ new) = (UNIV - set seen) - set new" "set new \<subseteq> UNIV - set seen" using assms(2) by auto
  then show ?thesis
    using card_Diff_subset [of "set new" "UNIV - set seen"] card_mono [of "UNIV - set seen" "set new"] distinct_card [OF assms(1)]
    by (metis List.finite_set finite_class.finite le_add_diff_inverse2)
qed

locale worklist_pop =
  fixes succs :: "'a \<Rightarrow> 'a list"
    and run :: "'a list \<Rightarrow> 'a list \<Rightarrow> 'a list"
  assumes run_Nil: "run v [] = v"
    and run_seen: "h \<in> set v \<Longrightarrow> run v (h # q) = run v q"
    and run_new: "h \<notin> set v \<Longrightarrow>
      run v (h # q) = run (v @ [h]) (q @ filter (\<lambda>s. s \<notin> set (v @ [h])) (succs h))"
    and finite_reach: "finite ((succ_rel succs)\<^sup>* `` {x})"
begin

lemma finite_reach_list: "finite ((succ_rel succs)\<^sup>* `` set xs)"
proof -
  have "(succ_rel succs)\<^sup>* `` set xs = (\<Union>x \<in> set xs. (succ_rel succs)\<^sup>* `` {x})" by auto
  then show ?thesis by (simp add: finite_reach)
qed

lemma run_closure_gen:
  assumes "finite X" and "set v \<union> set q \<subseteq> X" and "\<And>x. x \<in> X \<Longrightarrow> set (succs x) \<subseteq> X"
    and "\<And>x. x \<in> set v \<Longrightarrow> set (succs x) \<subseteq> set v \<union> set q" and "distinct v"
  shows "set v \<union> set q \<subseteq> set (run v q) \<and> set (run v q) \<subseteq> X \<and> distinct (run v q) \<and>
    (\<forall>x \<in> set (run v q). set (succs x) \<subseteq> set (run v q))"
  using assms(2,4,5)
proof (induction "(v, q)" arbitrary: v q
    rule: wf_induct_rule [OF wf_measures [of "[\<lambda>(v, q). card (X - set v), \<lambda>(v, q). length q]"]])
  case (1 v q)
  show ?case
  proof (cases q)
    case Nil
    with 1 show ?thesis by (auto simp: run_Nil)
  next
    case (Cons h q')
    show ?thesis
    proof (cases "h \<in> set v")
      case True
      have "set (succs x) \<subseteq> set v \<union> set q'" if "x \<in> set v" for x
        using "1.prems"(2) [OF that] True Cons by auto
      with "1.hyps" [of v q'] "1.prems" Cons True show ?thesis
        by (auto simp: run_seen)
    next
      case False
      let ?q = "q' @ filter (\<lambda>s. s \<notin> set (v @ [h])) (succs h)"
      have "X - set (v @ [h]) \<subset> X - set v" using False "1.prems"(1) Cons by auto
      then have less: "card (X - set (v @ [h])) < card (X - set v)"
        using assms(1) by (intro psubset_card_mono) auto
      have h: "set (succs h) \<subseteq> X" using "1.prems"(1) Cons assms(3) by auto
      have closed: "set (succs x) \<subseteq> set (v @ [h]) \<union> set ?q" if "x \<in> set (v @ [h])" for x
        using "1.prems"(2) [of x] that Cons by auto
      have "set (v @ [h]) \<union> set ?q \<subseteq> set (run (v @ [h]) ?q) \<and> set (run (v @ [h]) ?q) \<subseteq> X \<and>
        distinct (run (v @ [h]) ?q) \<and>
        (\<forall>x \<in> set (run (v @ [h]) ?q). set (succs x) \<subseteq> set (run (v @ [h]) ?q))"
      proof (rule "1.hyps")
        show "((v @ [h], ?q), v, q) \<in> measures [\<lambda>(v, q). card (X - set v), \<lambda>(v, q). length q]"
          using less by simp
        show "set (v @ [h]) \<union> set ?q \<subseteq> X" using "1.prems"(1) h Cons by auto
        show "distinct (v @ [h])" using "1.prems"(3) False by simp
      qed (rule closed)
      with False Cons show ?thesis by (auto simp: run_new)
    qed
  qed
qed

lemma run_closure: "set (run [] q) = (succ_rel succs)\<^sup>* `` set q" (is "?r = ?c")
  and run_distinct: "distinct (run [] q)"
proof -
  have main: "set q \<subseteq> ?r" "?r \<subseteq> ?c" "distinct (run [] q)" "\<forall>x \<in> ?r. set (succs x) \<subseteq> ?r"
  proof -
    have step: "set (succs x) \<subseteq> ?c" if "x \<in> ?c" for x
      using rtrancl_Image_step [OF that] by blast
    have "set [] \<union> set q \<subseteq> ?r \<and> ?r \<subseteq> ?c \<and> distinct (run [] q) \<and> (\<forall>x \<in> ?r. set (succs x) \<subseteq> ?r)"
      by (rule run_closure_gen [OF finite_reach_list]) (use step in auto)
    then show "set q \<subseteq> ?r" "?r \<subseteq> ?c" "distinct (run [] q)" "\<forall>x \<in> ?r. set (succs x) \<subseteq> ?r"
      by simp_all
  qed
  show "?r = ?c"
    using main rtrancl_Image_closed [of "set q" ?r succs] by blast
  show "distinct (run [] q)" by (rule main)
qed

end

text \<open>
  In the second shape a vertex is marked when it is pushed; the order of the worklist (queue or
  stack) does not matter for what is marked in the end.
\<close>

locale worklist_push =
  fixes succs :: "'a \<Rightarrow> 'a list"
    and run :: "'a list \<Rightarrow> 'a list \<Rightarrow> 'a list"
  assumes run_Nil: "run v [] = v"
    and run_step: "q \<noteq> [] \<Longrightarrow> \<exists>h q0 v' q'. mset q = add_mset h (mset q0) \<and> run v q = run v' q' \<and>
      set v' = set v \<union> set (succs h) \<and> set q' = set q0 \<union> (set (succs h) - set v) \<and>
      length q' = length q0 + card (set (succs h) - set v) \<and> (distinct v \<longrightarrow> distinct v')"
begin

lemma run_closure_gen:
  assumes "finite X" and "set v \<subseteq> X" and "\<And>x. x \<in> X \<Longrightarrow> set (succs x) \<subseteq> X" and "set q \<subseteq> set v"
    and "\<And>x. x \<in> set v \<Longrightarrow> x \<notin> set q \<Longrightarrow> set (succs x) \<subseteq> set v" and "distinct v"
  shows "set v \<subseteq> set (run v q) \<and> set (run v q) \<subseteq> X \<and> distinct (run v q) \<and>
    (\<forall>x \<in> set (run v q). set (succs x) \<subseteq> set (run v q))"
  using assms(2,4,5,6)
proof (induction "card (X - set v) + length q" arbitrary: v q rule: less_induct)
  case less
  show ?case
  proof (cases "q = []")
    case True
    with less.prems show ?thesis by (auto simp: run_Nil)
  next
    case False
    then obtain h q0 v' q' where step: "mset q = add_mset h (mset q0)" "run v q = run v' q'"
      "set v' = set v \<union> set (succs h)" "set q' = set q0 \<union> (set (succs h) - set v)"
      "length q' = length q0 + card (set (succs h) - set v)" "distinct v \<longrightarrow> distinct v'"
      using run_step by blast
    have q: "set q = insert h (set q0)" "length q = Suc (length q0)"
      using step(1) by (metis set_mset_add_mset_insert set_mset_mset)
        (metis step(1) size_add_mset size_mset)
    let ?N = "set (succs h) - set v"
    have hX: "set (succs h) \<subseteq> X" using assms(3) less.prems(1,2) q by auto
    have "card (X - set v') = card (X - set v) - card ?N"
    proof -
      have "X - set v' = (X - set v) - ?N" using step(3) by auto
      moreover have "finite ?N" "?N \<subseteq> X - set v" using hX by auto
      ultimately show ?thesis by (simp only: card_Diff_subset)
    qed
    moreover have "card ?N \<le> card (X - set v)"
      using assms(1) hX by (intro card_mono) auto
    ultimately have dec: "card (X - set v') + length q' < card (X - set v) + length q"
      using step(5) q by simp
    have cl: "set (succs x) \<subseteq> set v'" if "x \<in> set v'" "x \<notin> set q'" for x
    proof (cases "x = h")
      case False
      with that step q have "x \<in> set v" "x \<notin> set q" by auto
      then show ?thesis using less.prems(3) step(3) by blast
    qed (use step in auto)
    have "set v' \<subseteq> set (run v' q') \<and> set (run v' q') \<subseteq> X \<and> distinct (run v' q') \<and>
      (\<forall>x \<in> set (run v' q'). set (succs x) \<subseteq> set (run v' q'))"
      by (rule less.hyps [OF dec]) (use less.prems(1,2,4) step hX q cl in auto)
    with step show ?thesis by auto
  qed
qed

lemma run_closure:
  assumes "finite ((succ_rel succs)\<^sup>* `` set q)" and "distinct v" and "set v = set q"
  shows "set (run v q) = (succ_rel succs)\<^sup>* `` set q" (is "?r = ?c") and "distinct (run v q)"
proof -
  have main: "set v \<subseteq> ?r" "?r \<subseteq> ?c" "distinct (run v q)" "\<forall>x \<in> ?r. set (succs x) \<subseteq> ?r"
  proof -
    have step: "set (succs x) \<subseteq> ?c" if "x \<in> ?c" for x
      using rtrancl_Image_step [OF that] by blast
    have "set v \<subseteq> ?r \<and> ?r \<subseteq> ?c \<and> distinct (run v q) \<and> (\<forall>x \<in> ?r. set (succs x) \<subseteq> ?r)"
      by (rule run_closure_gen [OF assms(1)]) (use step assms(2,3) in auto)
    then show "set v \<subseteq> ?r" "?r \<subseteq> ?c" "distinct (run v q)" "\<forall>x \<in> ?r. set (succs x) \<subseteq> ?r"
      by simp_all
  qed
  show "?r = ?c"
    using main assms(3) rtrancl_Image_closed [of "set q" ?r succs] by blast
  show "distinct (run v q)" by (rule main)
qed

end

end
