(* ===== verification/Silk_Clock.thy ===== *)
theory Silk_Clock
  imports Silk_Prelude
begin

text \<open>
  The hybrid logical clock of \<^verbatim>\<open>src/clock.rs\<close>: its state, the local event (\<open>tick\<close>), the merge with
  a remote clock, and the total order that decides last-writer-wins. The wall clock read by
  \<^verbatim>\<open>current_time_ms\<close> is an argument of the operations that read it, so every lemma holds for
  whatever the system clock returns, backwards jumps included.

  The order is installed as the library's \<open>linorder\<close> on the record, so the clients of
  \<open>cmp_order\<close> use \<open><\<close>, \<open>\<le>\<close> and \<open>max\<close> with the library's automation.
\<close>

section \<open>State and operations\<close>

record hybrid_clock =
  clk_id :: string
  clk_physical :: u64
  clk_logical :: u32

datatype ordering = Less | Equal | Greater

definition cmp :: "'a::linorder \<Rightarrow> 'a \<Rightarrow> ordering" where
  "cmp a b = (if a < b then Less else if a = b then Equal else Greater)"

fun then_with :: "ordering \<Rightarrow> ordering \<Rightarrow> ordering" where
  "then_with Equal o' = o'"
| "then_with o1 o' = o1"

definition clock_new :: "u64 \<Rightarrow> string \<Rightarrow> hybrid_clock" where
  "clock_new wall i = \<lparr>clk_id = i, clk_physical = wall, clk_logical = 0\<rparr>"

definition with_values :: "string \<Rightarrow> u64 \<Rightarrow> u32 \<Rightarrow> hybrid_clock" where
  "with_values i p l = \<lparr>clk_id = i, clk_physical = p, clk_logical = l\<rparr>"

definition as_tuple :: "hybrid_clock \<Rightarrow> u64 \<times> u32" where
  "as_tuple c = (clk_physical c, clk_logical c)"

definition tick :: "u64 \<Rightarrow> hybrid_clock \<Rightarrow> hybrid_clock" where
  "tick wall c =
     (if wall > clk_physical c then c\<lparr>clk_physical := wall, clk_logical := 0\<rparr>
      else c\<lparr>clk_logical := saturating_add (clk_logical c) 1\<rparr>)"

definition clock_merge :: "u64 \<Rightarrow> hybrid_clock \<Rightarrow> hybrid_clock \<Rightarrow> hybrid_clock" where
  "clock_merge wall c remote =
     (let new_physical = max (max (clk_physical c) (clk_physical remote)) wall;
          logical =
            (if new_physical > clk_physical c \<and> new_physical > clk_physical remote then 0
             else if new_physical = clk_physical c \<and> new_physical = clk_physical remote
             then saturating_add (max (clk_logical c) (clk_logical remote)) 1
             else if new_physical = clk_physical c then saturating_add (clk_logical c) 1
             else saturating_add (clk_logical remote) 1)
      in c\<lparr>clk_logical := logical, clk_physical := new_physical\<rparr>)"

definition cmp_order :: "hybrid_clock \<Rightarrow> hybrid_clock \<Rightarrow> ordering" where
  "cmp_order c d =
     then_with (cmp (clk_physical c) (clk_physical d))
       (then_with (cmp (clk_logical c) (clk_logical d)) (cmp (clk_id d) (clk_id c)))"

section \<open>The total order\<close>

text \<open>
  Higher physical time is greater, then higher logical time, then the \<^emph>\<open>lower\<close> id. The \<open>more\<close> part of
  the record is compared last so that the order exists on every extension of the record; on
  \<open>hybrid_clock\<close> itself it is trivial and the order is the one of \<open>cmp_order\<close>.
\<close>

instantiation hybrid_clock_ext :: (linorder) linorder
begin

definition less_eq_hybrid_clock_ext ::
  "('a::linorder) hybrid_clock_ext \<Rightarrow> 'a hybrid_clock_ext \<Rightarrow> bool" where
  "less_eq_hybrid_clock_ext c d \<longleftrightarrow>
     clk_physical c < clk_physical d \<or>
     clk_physical c = clk_physical d \<and>
       (clk_logical c < clk_logical d \<or>
        clk_logical c = clk_logical d \<and>
          (clk_id d < clk_id c \<or> clk_id d = clk_id c \<and> hybrid_clock.more c \<le> hybrid_clock.more d))"

definition less_hybrid_clock_ext ::
  "('a::linorder) hybrid_clock_ext \<Rightarrow> 'a hybrid_clock_ext \<Rightarrow> bool" where
  "less_hybrid_clock_ext c d \<longleftrightarrow> c \<le> d \<and> \<not> d \<le> c"

instance
proof
  fix c d e :: "'a hybrid_clock_ext"
  show "c \<le> c" by (simp add: less_eq_hybrid_clock_ext_def)
  show "c \<le> d \<Longrightarrow> d \<le> e \<Longrightarrow> c \<le> e"
    unfolding less_eq_hybrid_clock_ext_def by (elim disjE conjE) auto
  show "c \<le> d \<Longrightarrow> d \<le> c \<Longrightarrow> c = d"
    unfolding less_eq_hybrid_clock_ext_def by (auto intro: hybrid_clock.equality)
  show "c \<le> d \<or> d \<le> c"
    unfolding less_eq_hybrid_clock_ext_def by (meson linorder_less_linear order_refl linear)
  show "c < d \<longleftrightarrow> c \<le> d \<and> \<not> d \<le> c" by (rule less_hybrid_clock_ext_def)
qed

end

lemma cmp_order_Greater_iff: "cmp_order c d = Greater \<longleftrightarrow> d < c"
proof (cases "clk_physical c = clk_physical d \<and> clk_logical c = clk_logical d")
  case True
  then show ?thesis
    by (auto simp: cmp_order_def cmp_def less_hybrid_clock_ext_def less_eq_hybrid_clock_ext_def)
next
  case False
  then show ?thesis
    by (auto simp: cmp_order_def cmp_def less_hybrid_clock_ext_def less_eq_hybrid_clock_ext_def)
qed

lemma cmp_order_Equal_iff: "cmp_order c d = Equal \<longleftrightarrow> c = d"
  by (auto simp: cmp_order_def cmp_def intro: hybrid_clock.equality)

lemma cmp_order_Less_iff: "cmp_order c d = Less \<longleftrightarrow> c < d"
  using cmp_order_Greater_iff [of c d] cmp_order_Equal_iff [of c d]
  by (cases "cmp_order c d") auto

lemmas cmp_order_iffs = cmp_order_Greater_iff cmp_order_Equal_iff cmp_order_Less_iff

lemma less_of_tuple: "as_tuple c < as_tuple d \<Longrightarrow> c < d" for c d :: hybrid_clock
  by (auto simp: as_tuple_def less_hybrid_clock_ext_def less_eq_hybrid_clock_ext_def)

text \<open>
  The comparison that decides every last-writer-wins conflict is a strict total order: it never
  ties two different clocks, comparing the other way round gives the opposite answer, and winning is
  transitive. So among any writes there is exactly one winner, and all peers name the same one.
\<close>

theorem cmp_order_total:
  "(cmp_order a b = Equal \<longleftrightarrow> a = b) \<and>
   (cmp_order a b = Less \<longleftrightarrow> cmp_order b a = Greater) \<and>
   (cmp_order a b = Greater \<longrightarrow> cmp_order b c = Greater \<longrightarrow> cmp_order a c = Greater)"
  by (auto simp: cmp_order_iffs)

theorem cmp_order_total_witness:
  "cmp_order (with_values ''alpha'' 100 5) (with_values ''beta'' 100 5) = Greater \<and>
   cmp_order (with_values ''beta'' 100 5) (with_values ''beta'' 99 7) = Greater \<and>
   cmp_order (with_values ''alpha'' 100 5) (with_values ''beta'' 99 7) = Greater"
proof -
  have 1: "cmp_order (with_values ''alpha'' 100 5) (with_values ''beta'' 100 5) = Greater"
    by (simp add: cmp_order_def cmp_def with_values_def)
  have 2: "cmp_order (with_values ''beta'' 100 5) (with_values ''beta'' 99 7) = Greater"
    by (simp add: cmp_order_def cmp_def with_values_def)
  show ?thesis using 1 2 cmp_order_total by blast
qed

section \<open>Advancing the clock\<close>

lemma tick_id [simp]: "clk_id (tick w c) = clk_id c"
  by (simp add: tick_def)

lemma clock_merge_id [simp]: "clk_id (clock_merge w c r) = clk_id c"
  by (simp add: clock_merge_def Let_def)

lemma tick_mono: "as_tuple c \<le> as_tuple (tick w c)"
  by (auto simp: tick_def as_tuple_def saturating_add_mono)

lemma clock_merge_physical:
  "clk_physical (clock_merge w c r) = max (max (clk_physical c) (clk_physical r)) w"
  by (simp add: clock_merge_def Let_def)

lemma saturating_max_mono:
  "a \<le> saturating_add (max a b) 1" "b \<le> saturating_add (max a b) 1" for a b :: "'w::len word"
  using saturating_add_mono [of "max a b" 1] by (meson max.cobounded1 max.cobounded2 order_trans)+

lemma clock_merge_mono:
  "as_tuple c \<le> as_tuple (clock_merge w c r)" "as_tuple r \<le> as_tuple (clock_merge w c r)"
  by (auto simp: clock_merge_def Let_def as_tuple_def max_def saturating_add_mono
      saturating_max_mono [unfolded max_def] not_le)

lemma tick_advances:
  "as_tuple c < as_tuple (tick wall c) \<longleftrightarrow> clk_logical c \<noteq> - 1 \<or> clk_physical c < wall"
proof (cases "clk_physical c < wall")
  case False
  have "saturating_add (- 1 :: u32) 1 = - 1" by (simp add: saturating_add_def unat_minus_one)
  then have "clk_logical c < saturating_add (clk_logical c) 1 \<longleftrightarrow> clk_logical c \<noteq> - 1"
    using saturating_add_one_less [of "clk_logical c"] by auto
  with False show ?thesis by (simp add: tick_def as_tuple_def)
qed (simp add: tick_def as_tuple_def)

text \<open>
  A local event strictly advances the clock, whatever the wall clock reads, so an instance never
  writes two entries with the same timestamp. The one exception is the saturated logical counter with
  a wall clock that has not moved past the physical part: then, and only then, the clock stands still.
\<close>

theorem tick_strictly_advances:
  "as_tuple c < as_tuple (tick wall c) \<longleftrightarrow> clk_logical c \<noteq> - 1 \<or> clk_physical c < wall"
  by (rule tick_advances)

theorem tick_strictly_advances_witness:
  "as_tuple (with_values ''a'' 100 5) < as_tuple (tick 90 (with_values ''a'' 100 5)) \<and>
   \<not> as_tuple (with_values ''a'' 100 (- 1)) < as_tuple (tick 90 (with_values ''a'' 100 (- 1)))"
  using tick_strictly_advances [of "with_values ''a'' 100 5" 90]
    tick_strictly_advances [of "with_values ''a'' 100 (- 1)" 90]
  by (simp add: with_values_def)

text \<open>
  After merging with a remote clock the local clock is strictly ahead of both the old local and
  the remote timestamp (so the next local entry is ordered after everything the merge has seen), its
  physical part is exactly the maximum of the two clocks and the wall clock, and its identity is kept.
  The counters must not be saturated.
\<close>

theorem clock_merge_dominates:
  assumes "clk_logical c \<noteq> - 1" and "clk_logical remote \<noteq> - 1"
  shows "as_tuple c < as_tuple (clock_merge wall c remote) \<and>
    as_tuple remote < as_tuple (clock_merge wall c remote) \<and>
    clk_physical (clock_merge wall c remote) = max (max (clk_physical c) (clk_physical remote)) wall \<and>
    clk_id (clock_merge wall c remote) = clk_id c"
proof -
  have m: "max (clk_logical c) (clk_logical remote) \<noteq> - 1" using assms by (simp add: max_def)
  have lt: "clk_logical c < saturating_add (max (clk_logical c) (clk_logical remote)) 1"
    "clk_logical remote < saturating_add (max (clk_logical c) (clk_logical remote)) 1"
    using saturating_add_one_less [OF m] by (meson max.cobounded1 max.cobounded2 order_le_less_trans)+
  show ?thesis
    using lt assms saturating_add_one_less [OF assms(1)] saturating_add_one_less [OF assms(2)]
    by (auto simp: clock_merge_physical)
      (auto simp: clock_merge_def Let_def as_tuple_def max_def not_le)
qed

theorem clock_merge_dominates_witness:
  "as_tuple (with_values ''a'' 100 0) < as_tuple (clock_merge 150 (with_values ''a'' 100 0) (with_values ''b'' 200 5)) \<and>
   as_tuple (with_values ''b'' 200 5) < as_tuple (clock_merge 150 (with_values ''a'' 100 0) (with_values ''b'' 200 5))"
  using clock_merge_dominates [of "with_values ''a'' 100 0" "with_values ''b'' 200 5" 150]
  by (simp add: with_values_def)

end
