(* ===== verification/Silk_Value.thy ===== *)
theory Silk_Value
  imports Silk_Prelude
begin

text \<open>
  Property values (the \<^verbatim>\<open>Value\<close> enum of \<^verbatim>\<open>src/entry.rs\<close>), the JSON values that appear as constraint
  parameters in an ontology, and the part of IEEE 754 double arithmetic the validator uses: the
  conversion of an integer (\<^verbatim>\<open>as f64\<close>, round to nearest, ties to even) and the comparisons, which are
  false on NaN and identify the two zeros. A double is its 64-bit pattern.
\<close>

section \<open>Doubles\<close>

definition f64_magnitude :: "f64 \<Rightarrow> nat" where
  "f64_magnitude x = unat x mod 2 ^ 63"

definition f64_is_nan :: "f64 \<Rightarrow> bool" where
  "f64_is_nan x \<longleftrightarrow> f64_magnitude x > 2047 * 2 ^ 52"

text \<open>Sign and magnitude: on the patterns that are not NaN this integer orders like the real value.\<close>

definition f64_rank :: "f64 \<Rightarrow> int" where
  "f64_rank x = (if unat x \<ge> 2 ^ 63 then - int (f64_magnitude x) else int (f64_magnitude x))"

definition f64_lt :: "f64 \<Rightarrow> f64 \<Rightarrow> bool" where
  "f64_lt x y \<longleftrightarrow> \<not> f64_is_nan x \<and> \<not> f64_is_nan y \<and> f64_rank x < f64_rank y"

definition f64_le :: "f64 \<Rightarrow> f64 \<Rightarrow> bool" where
  "f64_le x y \<longleftrightarrow> \<not> f64_is_nan x \<and> \<not> f64_is_nan y \<and> f64_rank x \<le> f64_rank y"

definition f64_eq :: "f64 \<Rightarrow> f64 \<Rightarrow> bool" where
  "f64_eq x y \<longleftrightarrow> \<not> f64_is_nan x \<and> \<not> f64_is_nan y \<and> f64_rank x = f64_rank y"

fun log2 :: "nat \<Rightarrow> nat" where
  "log2 n = (if n < 2 then 0 else Suc (log2 (n div 2)))"

declare log2.simps [simp del]

definition magnitude_of_nat :: "nat \<Rightarrow> nat" where
  "magnitude_of_nat m =
     (if m = 0 then 0
      else let e = log2 m in
        if e \<le> 52 then (e + 1023) * 2 ^ 52 + m * 2 ^ (52 - e) - 2 ^ 52
        else let k = e - 52; q = m div 2 ^ k; r = m mod 2 ^ k;
                 up = (if 2 * r > 2 ^ k \<or> 2 * r = 2 ^ k \<and> odd q then 1 else 0)
             in (e + 1023) * 2 ^ 52 + (q + up) - 2 ^ 52)"

definition f64_of_int :: "int \<Rightarrow> f64" where
  "f64_of_int n =
     of_nat (magnitude_of_nat (nat \<bar>n\<bar>) + (if n < 0 then 2 ^ 63 else 0))"

section \<open>Values\<close>

datatype json_number = PosInt u64 | NegInt i64 | JFloat f64

datatype json =
    JNull
  | JBool bool
  | JNumber json_number
  | JString string
  | JArray "json list"
  | JObject "(string \<times> json) list"

definition number_as_f64 :: "json_number \<Rightarrow> f64 option" where
  "number_as_f64 n = (case n of PosInt u \<Rightarrow> Some (f64_of_int (uint u))
     | NegInt i \<Rightarrow> Some (f64_of_int (sint i)) | JFloat f \<Rightarrow> Some f)"

definition number_as_u64 :: "json_number \<Rightarrow> u64 option" where
  "number_as_u64 n = (case n of PosInt u \<Rightarrow> Some u | _ \<Rightarrow> None)"

definition json_as_f64 :: "json \<Rightarrow> f64 option" where
  "json_as_f64 j = (case j of JNumber n \<Rightarrow> number_as_f64 n | _ \<Rightarrow> None)"

definition json_as_str :: "json \<Rightarrow> string option" where
  "json_as_str j = (case j of JString s \<Rightarrow> Some s | _ \<Rightarrow> None)"

datatype silk_value =
    VNull
  | VBool bool
  | VInt i64
  | VFloat f64
  | VString string
  | VList "silk_value list"
  | VMap "(string \<times> silk_value) list"

lemmas val_splits = silk_value.splits

text \<open>The derived \<^verbatim>\<open>PartialEq\<close>: structural, with the comparison of doubles on floats.\<close>

fun value_eq :: "silk_value \<Rightarrow> silk_value \<Rightarrow> bool"
  and value_list_eq :: "silk_value list \<Rightarrow> silk_value list \<Rightarrow> bool"
  and value_map_eq :: "(string \<times> silk_value) list \<Rightarrow> (string \<times> silk_value) list \<Rightarrow> bool" where
  "value_eq VNull VNull = True"
| "value_eq (VBool a) (VBool b) = (a = b)"
| "value_eq (VInt a) (VInt b) = (a = b)"
| "value_eq (VFloat a) (VFloat b) = f64_eq a b"
| "value_eq (VString a) (VString b) = (a = b)"
| "value_eq (VList a) (VList b) = value_list_eq a b"
| "value_eq (VMap a) (VMap b) = value_map_eq a b"
| "value_eq _ _ = False"
| "value_list_eq [] [] = True"
| "value_list_eq (a # as) (b # bs) = (value_eq a b \<and> value_list_eq as bs)"
| "value_list_eq _ _ = False"
| "value_map_eq [] [] = True"
| "value_map_eq ((k, a) # as) ((j, b) # bs) = (k = j \<and> value_eq a b \<and> value_map_eq as bs)"
| "value_map_eq _ _ = False"

definition value_as_f64 :: "silk_value \<Rightarrow> f64 option" where
  "value_as_f64 v = (case v of VInt n \<Rightarrow> Some (f64_of_int (sint n)) | VFloat f \<Rightarrow> Some f | _ \<Rightarrow> None)"

definition value_type_name :: "silk_value \<Rightarrow> string" where
  "value_type_name v = (case v of VNull \<Rightarrow> ''null'' | VBool _ \<Rightarrow> ''bool'' | VInt _ \<Rightarrow> ''int''
     | VFloat _ \<Rightarrow> ''float'' | VString _ \<Rightarrow> ''string'' | VList _ \<Rightarrow> ''list'' | VMap _ \<Rightarrow> ''map'')"

section \<open>Integers as doubles\<close>

lemma log2_bounds: "m > 0 \<Longrightarrow> 2 ^ log2 m \<le> m \<and> m < 2 ^ Suc (log2 m)"
proof (induction m rule: log2.induct)
  case (1 m)
  show ?case
  proof (cases "m < 2")
    case True
    with 1 show ?thesis by (simp add: log2.simps [of m])
  next
    case False
    then have "2 ^ log2 (m div 2) \<le> m div 2 \<and> m div 2 < 2 ^ Suc (log2 (m div 2))"
      using 1 by auto
    with False show ?thesis by (simp add: log2.simps [of m])  linarith
  qed
qed

lemma magnitude_exact:
  assumes "0 < m" "m < 2 ^ 53"
  shows "magnitude_of_nat m = (log2 m + 1022) * 2 ^ 52 + m * 2 ^ (52 - log2 m)"
    and "log2 m \<le> 52" and "2 ^ 52 \<le> m * 2 ^ (52 - log2 m)" and "m * 2 ^ (52 - log2 m) < 2 ^ 53"
proof -
  have b: "2 ^ log2 m \<le> m" "m < 2 ^ Suc (log2 m)" using log2_bounds [OF assms(1)] by auto
  have "(2::nat) ^ log2 m < 2 ^ 53" using b(1) assms(2) by linarith
  then have "log2 m < 53" by (rule power_less_imp_less_exp [rotated]) simp
  then show e: "log2 m \<le> 52" by simp
  have "(2::nat) ^ 52 = 2 ^ log2 m * 2 ^ (52 - log2 m)" using e by (simp flip: power_add)
  also have "\<dots> \<le> m * 2 ^ (52 - log2 m)" using b(1) by (rule mult_right_mono) simp
  finally show lo: "2 ^ 52 \<le> m * 2 ^ (52 - log2 m)" .
  have "m * 2 ^ (52 - log2 m) < 2 ^ Suc (log2 m) * 2 ^ (52 - log2 m)"
    using b(2) by (rule mult_strict_right_mono) simp
  also have "\<dots> = 2 ^ 53" using e by (simp flip: power_add)
  finally show "m * 2 ^ (52 - log2 m) < 2 ^ 53" .
  show "magnitude_of_nat m = (log2 m + 1022) * 2 ^ 52 + m * 2 ^ (52 - log2 m)"
    using assms(1) e by (simp add: magnitude_of_nat_def Let_def algebra_simps)
qed

lemma magnitude_bound: "m < 2 ^ 53 \<Longrightarrow> magnitude_of_nat m < 2047 * 2 ^ 52"
  using magnitude_exact [of m]
  by (cases "m = 0") (auto simp: magnitude_of_nat_def dest!: order.strict_implies_order)

lemma magnitude_strict_mono:
  assumes "a < b" "b < 2 ^ 53" shows "magnitude_of_nat a < magnitude_of_nat b"
proof (cases "a = 0")
  case True
  with assms magnitude_exact [of b] show ?thesis by (simp add: magnitude_of_nat_def)
next
  case False
  let ?f = "\<lambda>m. (log2 m + 1022) * 2 ^ 52 + m * 2 ^ (52 - log2 m)"
  have la: "2 ^ log2 a \<le> a" "a < 2 ^ Suc (log2 a)" and lb: "b < 2 ^ Suc (log2 b)"
    using log2_bounds [of a] log2_bounds [of b] False assms by auto
  then have "(2::nat) ^ log2 a < 2 ^ Suc (log2 b)" using assms by linarith
  then have "log2 a < Suc (log2 b)" by (rule power_less_imp_less_exp [rotated]) simp
  then consider "log2 a = log2 b" | "log2 a < log2 b" by linarith
  then have "?f a < ?f b"
  proof cases
    case 1
    then show ?thesis using assms by (simp add: mult_strict_right_mono)
  next
    case 2
    have "(log2 a + 1022) * 2 ^ 52 + 2 ^ 52 \<le> (log2 b + 1022) * (2 ^ 52 :: nat)"
      using mult_le_mono1 [of "Suc (log2 a + 1022)" "log2 b + 1022" "2 ^ 52"] 2 by simp
    moreover have "a * 2 ^ (52 - log2 a) < 2 ^ 53" "2 ^ 52 \<le> b * 2 ^ (52 - log2 b)"
      using magnitude_exact(4) [of a] magnitude_exact(3) [of b] assms False by auto
    moreover have "(2::nat) ^ 53 = 2 ^ 52 + 2 ^ 52" by simp
    ultimately show ?thesis by linarith
  qed
  with assms False show ?thesis by (simp add: magnitude_exact(1))
qed

lemma f64_of_int_small:
  assumes "\<bar>n\<bar> < 2 ^ 53"
  shows "f64_rank (f64_of_int n) = (if n < 0 then - 1 else 1) * int (magnitude_of_nat (nat \<bar>n\<bar>))"
    and "\<not> f64_is_nan (f64_of_int n)"
proof -
  let ?m = "magnitude_of_nat (nat \<bar>n\<bar>)"
  have lt: "?m < 2047 * 2 ^ 52" using assms by (intro magnitude_bound) simp
  then have lt63: "?m < 2 ^ 63" by simp
  have u: "unat (f64_of_int n) = ?m + (if n < 0 then 2 ^ 63 else 0)"
    unfolding f64_of_int_def unat_of_nat by (rule mod_less) (use lt63 in auto)
  then have m: "f64_magnitude (f64_of_int n) = ?m"
    using lt63 by (auto simp: f64_magnitude_def)
  show "f64_rank (f64_of_int n) = (if n < 0 then - 1 else 1) * int ?m"
    using u m lt63 by (auto simp: f64_rank_def)
  show "\<not> f64_is_nan (f64_of_int n)"
    using m lt by (simp add: f64_is_nan_def)
qed

lemma f64_of_int_mono: "\<bar>a\<bar> < 2 ^ 53 \<Longrightarrow> \<bar>b\<bar> < 2 ^ 53 \<Longrightarrow> a < b \<Longrightarrow>
  f64_rank (f64_of_int a) < f64_rank (f64_of_int b)"
proof -
  assume ab: "\<bar>a\<bar> < 2 ^ 53" "\<bar>b\<bar> < 2 ^ 53" "a < b"
  have z: "magnitude_of_nat 0 = 0" by (simp add: magnitude_of_nat_def)
  have pos: "0 < n \<Longrightarrow> n < 2 ^ 53 \<Longrightarrow> 0 < magnitude_of_nat n" for n
    using magnitude_strict_mono [of 0 n] z by simp
  consider "0 \<le> a" | "a < 0" "0 \<le> b" | "b < 0" using ab by linarith
  then show ?thesis
  proof cases
    case 1
    then have "magnitude_of_nat (nat \<bar>a\<bar>) < magnitude_of_nat (nat \<bar>b\<bar>)"
      using ab by (intro magnitude_strict_mono) auto
    with 1 ab show ?thesis by (simp add: f64_of_int_small)
  next
    case 2
    then have "0 < magnitude_of_nat (nat \<bar>a\<bar>)" using ab pos [of "nat \<bar>a\<bar>"] by simp
    with 2 ab show ?thesis by (simp add: f64_of_int_small)
  next
    case 3
    then have "magnitude_of_nat (nat \<bar>b\<bar>) < magnitude_of_nat (nat \<bar>a\<bar>)"
      using ab by (intro magnitude_strict_mono) auto
    with 3 ab show ?thesis by (simp add: f64_of_int_small)
  qed
qed

text \<open>
  Integers of magnitude below \<open>2 ^ 53\<close> compare as doubles exactly as they do as integers, so the
  numeric constraints (\<^verbatim>\<open>min\<close>, \<^verbatim>\<open>max\<close> and their exclusive variants), which convert to \<^verbatim>\<open>f64\<close> first, are
  exact on them.
\<close>

theorem f64_compare_exact:
  assumes "\<bar>a\<bar> < 2 ^ 53" and "\<bar>b\<bar> < 2 ^ 53"
  shows "(f64_lt (f64_of_int a) (f64_of_int b) \<longleftrightarrow> a < b) \<and>
    (f64_le (f64_of_int a) (f64_of_int b) \<longleftrightarrow> a \<le> b)"
proof -
  have "f64_rank (f64_of_int a) < f64_rank (f64_of_int b) \<longleftrightarrow> a < b"
    using f64_of_int_mono [of a b] f64_of_int_mono [of b a] assms
    by (cases a b rule: linorder_cases) auto
  moreover have "f64_rank (f64_of_int a) \<le> f64_rank (f64_of_int b) \<longleftrightarrow> a \<le> b"
    using f64_of_int_mono [of a b] f64_of_int_mono [of b a] assms
    by (cases a b rule: linorder_cases) auto
  ultimately show ?thesis
    using assms by (simp add: f64_lt_def f64_le_def f64_of_int_small)
qed

theorem f64_compare_exact_witness: "f64_lt (f64_of_int (- 3)) (f64_of_int 8080)"
  using f64_compare_exact [of "- 3" 8080] by simp

end
