(* ===== verification/Silk_Ontology.thy ===== *)
theory Silk_Ontology
  imports Silk_Value
begin

text \<open>
  The schema of a graph, \<^verbatim>\<open>src/ontology.rs\<close>: its data types, the class hierarchy, the validators for
  nodes, edges and property updates, the self-check of an ontology, and monotonic extension
  (\<^verbatim>\<open>merge_extension\<close>).

  Maps are \<^verbatim>\<open>BTreeMap\<close>s, so loops over them run in key order and the first error in that order is
  returned. The \<^verbatim>\<open>message\<close> texts of constraint violations are kept as the values they format. The regex
  engine is a third-party crate: \<open>rx pattern\<close> is \<open>None\<close> for a pattern it rejects and otherwise the
  match predicate. \<open>merge_extension\<close> mutates its ontology step by step and can return an error half
  way; the model returns the mutated ontology together with the result.
\<close>

section \<open>Data\<close>

definition ENFORCED_CONSTRAINTS :: "string list" where
  "ENFORCED_CONSTRAINTS = [''enum'', ''min'', ''max'', ''min_exclusive'', ''max_exclusive'',
     ''min_length'', ''max_length'', ''pattern'']"

definition UNENFORCED_CONSTRAINT_PREFIX :: string where
  "UNENFORCED_CONSTRAINT_PREFIX = ''x_''"

datatype validation_mode = Full | SkipRequired

datatype value_type = TString | TInt | TFloat | TBool | TList | TMap | TAny

record property_def =
  pd_value_type :: value_type
  pd_required :: bool
  pd_description :: "string option"
  pd_constraints :: "(string, json) btree_map option"

record subtype_def =
  sd_description :: "string option"
  sd_properties :: "(string, property_def) btree_map"

record node_type_def =
  nd_description :: "string option"
  nd_properties :: "(string, property_def) btree_map"
  nd_subtypes :: "(string, subtype_def) btree_map option"
  nd_parent_type :: "string option"

record edge_type_def =
  ed_description :: "string option"
  ed_source_types :: "string list"
  ed_target_types :: "string list"
  ed_properties :: "(string, property_def) btree_map"

record ontology =
  on_node_types :: "(string, node_type_def) btree_map"
  on_edge_types :: "(string, edge_type_def) btree_map"

datatype constraint_message =
    NotInAllowedSet string "string list"
  | NumericBound f64 f64
  | LengthBound nat nat
  | PatternMismatch string string
  | InvalidRegex string

datatype validation_error =
    UnknownNodeType string
  | UnknownEdgeType string
  | InvalidSource string string "string list"
  | InvalidTarget string string "string list"
  | MissingRequiredProperty string string
  | WrongPropertyType string string value_type string
  | UnknownProperty string string
  | MissingSubtype string "string list"
  | UnknownSubtype string string "string list"
  | UnexpectedSubtype string string
  | ConstraintViolation string string string constraint_message
  | UnknownConstraint string string string "string list"

record edge_type_update =
  eu_add_source_types :: "string list"
  eu_add_target_types :: "string list"
  eu_add_properties :: "(string, property_def) btree_map"

record node_type_update =
  nu_add_properties :: "(string, property_def) btree_map"
  nu_relax_properties :: "string list"
  nu_add_subtypes :: "(string, subtype_def) btree_map"

record ontology_extension =
  ex_node_types :: "(string, node_type_def) btree_map"
  ex_edge_types :: "(string, edge_type_def) btree_map"
  ex_node_type_updates :: "(string, node_type_update) btree_map"
  ex_edge_type_updates :: "(string, edge_type_update) btree_map"

datatype monotonicity_error =
    DuplicateNodeType string
  | DuplicateEdgeType string
  | MUnknownNodeType string
  | MUnknownEdgeType string
  | UnknownBindingType string string
  | DuplicateBinding string string
  | EmptyExtension
  | DuplicateProperty string string
  | MUnknownProperty string string
  | ValidationFailed validation_error

type_synonym regex_engine = "string \<Rightarrow> (string \<Rightarrow> bool) option"
type_synonym properties = "(string, silk_value) btree_map"
type_synonym property_defs = "(string, property_def) btree_map"

section \<open>Class hierarchy\<close>

definition parent_of :: "ontology \<Rightarrow> string \<Rightarrow> string option" where
  "parent_of ont t = (case bt_get (on_node_types ont) t of None \<Rightarrow> None | Some d \<Rightarrow> nd_parent_type d)"

fun ancestors_loop :: "nat \<Rightarrow> ontology \<Rightarrow> string \<Rightarrow> string list" where
  "ancestors_loop 0 ont current = []"
| "ancestors_loop (Suc n) ont current =
     (case parent_of ont current of
        Some parent \<Rightarrow> parent # ancestors_loop n ont parent
      | None \<Rightarrow> [])"

definition ancestors :: "ontology \<Rightarrow> string \<Rightarrow> string list" where
  "ancestors ont node_type = ancestors_loop 100 ont node_type"

definition descendants :: "ontology \<Rightarrow> string \<Rightarrow> string list" where
  "descendants ont node_type =
     filter (\<lambda>name. name \<noteq> node_type \<and> node_type \<in> set (ancestors ont name)) (map fst (on_node_types ont))"

definition is_subtype_of :: "ontology \<Rightarrow> string \<Rightarrow> string \<Rightarrow> bool" where
  "is_subtype_of ont child_type parent_type \<longleftrightarrow>
     child_type = parent_type \<or> parent_type \<in> set (ancestors ont child_type)"

fun add_type_properties :: "ontology \<Rightarrow> property_defs \<Rightarrow> string list \<Rightarrow> property_defs" where
  "add_type_properties ont props [] = props"
| "add_type_properties ont props (t # chain) =
     add_type_properties ont
       (case bt_get (on_node_types ont) t of None \<Rightarrow> props
        | Some d \<Rightarrow> bt_extend props (nd_properties d)) chain"

definition effective_properties :: "ontology \<Rightarrow> string \<Rightarrow> property_defs" where
  "effective_properties ont node_type =
     add_type_properties ont [] (rev (ancestors ont node_type) @ [node_type])"

section \<open>Constraints\<close>

definition constraint_err :: "string \<Rightarrow> string \<Rightarrow> string \<Rightarrow> constraint_message \<Rightarrow> (validation_error, unit) result" where
  "constraint_err type_name prop_name c message = Inl (ConstraintViolation type_name prop_name c message)"

definition check_numeric_bound :: "string \<Rightarrow> string \<Rightarrow> silk_value \<Rightarrow> (string, json) btree_map \<Rightarrow> string \<Rightarrow>
    (f64 \<Rightarrow> f64 \<Rightarrow> bool) \<Rightarrow> (validation_error, unit) result" where
  "check_numeric_bound type_name prop_name val constraints key violates =
     (case bt_get constraints key of None \<Rightarrow> Inr ()
      | Some bound_val \<Rightarrow> (case json_as_f64 bound_val of None \<Rightarrow> Inr ()
        | Some bound \<Rightarrow> (case value_as_f64 val of None \<Rightarrow> Inr ()
          | Some n \<Rightarrow> if violates n bound then constraint_err type_name prop_name key (NumericBound n bound)
                     else Inr ())))"

definition check_string_length :: "string \<Rightarrow> string \<Rightarrow> silk_value \<Rightarrow> (string, json) btree_map \<Rightarrow> string \<Rightarrow>
    (nat \<Rightarrow> nat \<Rightarrow> bool) \<Rightarrow> (validation_error, unit) result" where
  "check_string_length type_name prop_name val constraints key violates =
     (case bt_get constraints key of
        Some (JNumber n) \<Rightarrow>
          (case (number_as_u64 n, val) of
             (Some bound, VString s) \<Rightarrow>
               if violates (length s) (unat bound)
               then constraint_err type_name prop_name key (LengthBound (length s) (unat bound))
               else Inr ()
           | _ \<Rightarrow> Inr ())
      | _ \<Rightarrow> Inr ())"

definition check_enum :: "string \<Rightarrow> string \<Rightarrow> silk_value \<Rightarrow> (string, json) btree_map \<Rightarrow> (validation_error, unit) result" where
  "check_enum type_name prop_name val constraints =
     (case bt_get constraints ''enum'' of
        Some (JArray allowed) \<Rightarrow>
          (case val of
             VString s \<Rightarrow>
               (let allowed_strs = List.map_filter json_as_str allowed in
                if s \<notin> set allowed_strs
                then constraint_err type_name prop_name ''enum'' (NotInAllowedSet s allowed_strs)
                else Inr ())
           | _ \<Rightarrow> Inr ())
      | _ \<Rightarrow> Inr ())"

definition check_pattern :: "regex_engine \<Rightarrow> string \<Rightarrow> string \<Rightarrow> silk_value \<Rightarrow> (string, json) btree_map \<Rightarrow>
    (validation_error, unit) result" where
  "check_pattern rx type_name prop_name val constraints =
     (case bt_get constraints ''pattern'' of
        Some (JString pattern) \<Rightarrow>
          (case val of
             VString s \<Rightarrow>
               (case rx pattern of
                  Some is_match \<Rightarrow>
                    if \<not> is_match s
                    then constraint_err type_name prop_name ''pattern'' (PatternMismatch s pattern)
                    else Inr ()
                | None \<Rightarrow> constraint_err type_name prop_name ''pattern'' (InvalidRegex pattern))
           | _ \<Rightarrow> Inr ())
      | _ \<Rightarrow> Inr ())"

definition validate_constraints :: "regex_engine \<Rightarrow> string \<Rightarrow> string \<Rightarrow> silk_value \<Rightarrow> (string, json) btree_map \<Rightarrow>
    (validation_error, unit) result" where
  "validate_constraints rx tn pn v cs =
     and_then (check_enum tn pn v cs)
     (and_then (check_numeric_bound tn pn v cs ''min'' (\<lambda>n b. f64_lt n b))
     (and_then (check_numeric_bound tn pn v cs ''max'' (\<lambda>n b. f64_lt b n))
     (and_then (check_numeric_bound tn pn v cs ''min_exclusive'' (\<lambda>n b. f64_le n b))
     (and_then (check_numeric_bound tn pn v cs ''max_exclusive'' (\<lambda>n b. f64_le b n))
     (and_then (check_string_length tn pn v cs ''min_length'' (\<lambda>len bound. len < bound))
     (and_then (check_string_length tn pn v cs ''max_length'' (\<lambda>len bound. len > bound))
     (check_pattern rx tn pn v cs)))))))"

definition value_matches_type :: "silk_value \<Rightarrow> value_type \<Rightarrow> bool" where
  "value_matches_type v expected =
     (case v of
        VNull \<Rightarrow> True
      | VString _ \<Rightarrow> expected = TString \<or> expected = TAny
      | VInt _ \<Rightarrow> expected = TInt \<or> expected = TAny
      | VFloat _ \<Rightarrow> expected = TFloat \<or> expected = TAny
      | VBool _ \<Rightarrow> expected = TBool \<or> expected = TAny
      | VList _ \<Rightarrow> expected = TList \<or> expected = TAny
      | VMap _ \<Rightarrow> expected = TMap \<or> expected = TAny)"

section \<open>Validation of operations\<close>

text \<open>The checks of one declared value: its type, then its constraints.\<close>

definition check_declared :: "regex_engine \<Rightarrow> string \<Rightarrow> string \<Rightarrow> silk_value \<Rightarrow> property_def \<Rightarrow> (validation_error, unit) result" where
  "check_declared rx type_name key v d =
     and_then
       (if pd_value_type d \<noteq> TAny \<and> \<not> value_matches_type v (pd_value_type d)
        then Inl (WrongPropertyType type_name key (pd_value_type d) (value_type_name v))
        else Inr ())
       (case pd_constraints d of None \<Rightarrow> Inr ()
        | Some constraints \<Rightarrow> validate_constraints rx type_name key v constraints)"

definition validate_properties :: "regex_engine \<Rightarrow> string \<Rightarrow> property_defs \<Rightarrow> properties \<Rightarrow> validation_mode \<Rightarrow>
    (validation_error, unit) result" where
  "validate_properties rx type_name defs values mode =
     and_then
       (if mode = Full then
          for_each_ok (\<lambda>(prop_name, prop_def).
            if pd_required prop_def \<and> \<not> hm_contains values prop_name
            then Inl (MissingRequiredProperty type_name prop_name) else Inr ()) defs
        else Inr ())
       (for_each_ok (\<lambda>(prop_name, v).
            case bt_get defs prop_name of None \<Rightarrow> Inr ()
            | Some prop_def \<Rightarrow> check_declared rx type_name prop_name v prop_def) values)"

definition validate_node_mode :: "regex_engine \<Rightarrow> ontology \<Rightarrow> string \<Rightarrow> string option \<Rightarrow> properties \<Rightarrow>
    validation_mode \<Rightarrow> (validation_error, unit) result" where
  "validate_node_mode rx ont node_type subtype properties mode =
     (case bt_get (on_node_types ont) node_type of
        None \<Rightarrow> Inl (UnknownNodeType node_type)
      | Some d \<Rightarrow>
        (let base_props = effective_properties ont node_type in
         case (nd_subtypes d, subtype) of
           (Some subtypes, Some st) \<Rightarrow>
             (case bt_get subtypes st of
                Some st_def \<Rightarrow>
                  validate_properties rx node_type (bt_extend base_props (sd_properties st_def)) properties mode
              | None \<Rightarrow> validate_properties rx node_type base_props properties mode)
         | (Some subtypes, None) \<Rightarrow> Inl (MissingSubtype node_type (map fst subtypes))
         | (None, Some _) \<Rightarrow> validate_properties rx node_type base_props properties mode
         | (None, None) \<Rightarrow> validate_properties rx node_type base_props properties mode))"

definition validate_node :: "regex_engine \<Rightarrow> ontology \<Rightarrow> string \<Rightarrow> string option \<Rightarrow> properties \<Rightarrow>
    (validation_error, unit) result" where
  "validate_node rx ont node_type subtype properties =
     validate_node_mode rx ont node_type subtype properties Full"

definition validate_edge_mode :: "regex_engine \<Rightarrow> ontology \<Rightarrow> string \<Rightarrow> string \<Rightarrow> string \<Rightarrow> properties \<Rightarrow>
    validation_mode \<Rightarrow> (validation_error, unit) result" where
  "validate_edge_mode rx ont edge_type source_node_type target_node_type properties mode =
     (case bt_get (on_edge_types ont) edge_type of
        None \<Rightarrow> Inl (UnknownEdgeType edge_type)
      | Some d \<Rightarrow>
        if \<not> list_ex (\<lambda>t. is_subtype_of ont source_node_type t) (ed_source_types d)
        then Inl (InvalidSource edge_type source_node_type (ed_source_types d))
        else if \<not> list_ex (\<lambda>t. is_subtype_of ont target_node_type t) (ed_target_types d)
        then Inl (InvalidTarget edge_type target_node_type (ed_target_types d))
        else validate_properties rx edge_type (ed_properties d) properties mode)"

definition validate_edge :: "regex_engine \<Rightarrow> ontology \<Rightarrow> string \<Rightarrow> string \<Rightarrow> string \<Rightarrow> properties \<Rightarrow>
    (validation_error, unit) result" where
  "validate_edge rx ont edge_type source_node_type target_node_type properties =
     validate_edge_mode rx ont edge_type source_node_type target_node_type properties Full"

definition validate_edge_property_update :: "regex_engine \<Rightarrow> ontology \<Rightarrow> string \<Rightarrow> string \<Rightarrow> silk_value \<Rightarrow>
    (validation_error, unit) result" where
  "validate_edge_property_update rx ont edge_type key v =
     (case bt_get (on_edge_types ont) edge_type of
        None \<Rightarrow> Inr ()
      | Some d \<Rightarrow>
        (case bt_get (ed_properties d) key of
           None \<Rightarrow> Inr ()
         | Some prop_def \<Rightarrow> check_declared rx edge_type key v prop_def))"

definition validate_property_update :: "regex_engine \<Rightarrow> ontology \<Rightarrow> string \<Rightarrow> string option \<Rightarrow> string \<Rightarrow> silk_value \<Rightarrow>
    (validation_error, unit) result" where
  "validate_property_update rx ont node_type subtype key v =
     (case bt_get (on_node_types ont) node_type of
        None \<Rightarrow> Inr ()
      | Some d \<Rightarrow>
        (let merged =
           (case (nd_subtypes d, subtype) of
              (Some subtypes, Some st) \<Rightarrow>
                (case bt_get subtypes st of
                   Some st_def \<Rightarrow> bt_extend (nd_properties d) (sd_properties st_def)
                 | None \<Rightarrow> nd_properties d)
            | _ \<Rightarrow> nd_properties d)
         in case bt_get merged key of
              None \<Rightarrow> Inr ()
            | Some prop_def \<Rightarrow> check_declared rx node_type key v prop_def))"

section \<open>Self-check and extension\<close>

definition check_constraint_names :: "string \<Rightarrow> string \<Rightarrow> property_def \<Rightarrow> (validation_error, unit) result" where
  "check_constraint_names type_name prop_name prop_def =
     (case pd_constraints prop_def of None \<Rightarrow> Inr ()
      | Some constraints \<Rightarrow>
        for_each_ok (\<lambda>(cname, _).
          if cname \<in> set ENFORCED_CONSTRAINTS \<or> take 2 cname = UNENFORCED_CONSTRAINT_PREFIX then Inr ()
          else Inl (UnknownConstraint type_name prop_name cname ENFORCED_CONSTRAINTS)) constraints)"

definition validate_self :: "ontology \<Rightarrow> (validation_error, unit) result" where
  "validate_self ont =
     and_then (for_each_ok (\<lambda>(edge_name, edge_def).
         and_then (for_each_ok (\<lambda>src.
             if \<not> hm_contains (on_node_types ont) src
             then Inl (InvalidSource edge_name src (map fst (on_node_types ont))) else Inr ())
             (ed_source_types edge_def))
           (for_each_ok (\<lambda>tgt.
             if \<not> hm_contains (on_node_types ont) tgt
             then Inl (InvalidTarget edge_name tgt (map fst (on_node_types ont))) else Inr ())
             (ed_target_types edge_def)))
         (on_edge_types ont))
     (and_then (for_each_ok (\<lambda>(type_name, type_def).
         case nd_parent_type type_def of
           Some parent \<Rightarrow>
             if \<not> hm_contains (on_node_types ont) parent
             then Inl (UnknownNodeType (type_name @ '': parent_type '' @ [CHR 0x27] @ parent @ [CHR 0x27] @ '' does not exist''))
             else Inr ()
         | None \<Rightarrow> Inr ())
         (on_node_types ont))
     (and_then (for_each_ok (\<lambda>(type_name, type_def).
         and_then (for_each_ok (\<lambda>(prop_name, prop_def). check_constraint_names type_name prop_name prop_def)
             (nd_properties type_def))
           (case nd_subtypes type_def of None \<Rightarrow> Inr ()
            | Some subtypes \<Rightarrow>
              for_each_ok (\<lambda>(sub_name, sub_def).
                for_each_ok (\<lambda>(prop_name, prop_def).
                  check_constraint_names (type_name @ '':'' @ sub_name) prop_name prop_def)
                  (sd_properties sub_def)) subtypes))
         (on_node_types ont))
     (for_each_ok (\<lambda>(edge_name, edge_def).
         for_each_ok (\<lambda>(prop_name, prop_def). check_constraint_names edge_name prop_name prop_def)
           (ed_properties edge_def))
         (on_edge_types ont))))"

definition edge_update_is_empty :: "edge_type_update \<Rightarrow> bool" where
  "edge_update_is_empty u \<longleftrightarrow>
     eu_add_source_types u = [] \<and> eu_add_target_types u = [] \<and> eu_add_properties u = []"

definition extension_is_empty :: "ontology_extension \<Rightarrow> bool" where
  "extension_is_empty ext \<longleftrightarrow>
     ex_node_types ext = [] \<and> ex_edge_types ext = [] \<and>
     list_all (\<lambda>(_, u). nu_add_properties u = [] \<and> nu_relax_properties u = [] \<and> nu_add_subtypes u = [])
       (ex_node_type_updates ext) \<and>
     list_all (\<lambda>(_, u). edge_update_is_empty u) (ex_edge_type_updates ext)"

text \<open>The checks made before the first mutation.\<close>

definition check_node_type_update :: "ontology \<Rightarrow> string \<times> node_type_update \<Rightarrow> (monotonicity_error, unit) result" where
  "check_node_type_update ont = (\<lambda>(type_name, update).
     case bt_get (on_node_types ont) type_name of
       None \<Rightarrow> Inl (MUnknownNodeType type_name)
     | Some d \<Rightarrow>
       and_then (for_each_ok (\<lambda>(prop_name, _).
           if hm_contains (nd_properties d) prop_name
           then Inl (DuplicateProperty type_name prop_name) else Inr ()) (nu_add_properties update))
       (and_then (for_each_ok (\<lambda>prop_name.
           case bt_get (nd_properties d) prop_name of
             Some _ \<Rightarrow> Inr ()
           | None \<Rightarrow> Inl (MUnknownProperty type_name prop_name)) (nu_relax_properties update))
       (if nu_add_subtypes update \<noteq> [] then
          (case nd_subtypes d of None \<Rightarrow> Inr ()
           | Some existing \<Rightarrow>
             for_each_ok (\<lambda>(st_name, _).
               if hm_contains existing st_name
               then Inl (DuplicateProperty type_name (''subtype:'' @ st_name)) else Inr ())
               (nu_add_subtypes update))
        else Inr ())))"

definition check_before_mutation :: "ontology \<Rightarrow> ontology_extension \<Rightarrow> (monotonicity_error, unit) result" where
  "check_before_mutation ont ext =
     and_then (if extension_is_empty ext then Inl EmptyExtension else Inr ())
     (and_then (for_each_ok (\<lambda>(name, _).
         if hm_contains (on_node_types ont) name then Inl (DuplicateNodeType name) else Inr ())
         (ex_node_types ext))
     (and_then (for_each_ok (\<lambda>(name, _).
         if hm_contains (on_edge_types ont) name then Inl (DuplicateEdgeType name) else Inr ())
         (ex_edge_types ext))
     (for_each_ok (check_node_type_update ont) (ex_node_type_updates ext))))"

text \<open>The checks of the edge type updates, made after the new node types have been added.\<close>

definition check_bindings :: "ontology \<Rightarrow> ontology_extension \<Rightarrow> string \<Rightarrow> string list \<Rightarrow> string list \<Rightarrow>
    (monotonicity_error, unit) result" where
  "check_bindings ont ext edge_name bindings existing =
     for_each_ok (\<lambda>node_type.
       if \<not> hm_contains (on_node_types ont) node_type \<and> \<not> hm_contains (ex_node_types ext) node_type
       then Inl (UnknownBindingType edge_name node_type)
       else if node_type \<in> set existing then Inl (DuplicateBinding edge_name node_type)
       else Inr ()) bindings"

definition check_edge_type_update :: "ontology \<Rightarrow> ontology_extension \<Rightarrow> string \<times> edge_type_update \<Rightarrow>
    (monotonicity_error, unit) result" where
  "check_edge_type_update ont ext = (\<lambda>(edge_name, update).
     case bt_get (on_edge_types ont) edge_name of
       None \<Rightarrow> Inl (MUnknownEdgeType edge_name)
     | Some d \<Rightarrow>
       and_then (check_bindings ont ext edge_name (eu_add_source_types update) (ed_source_types d))
       (and_then (check_bindings ont ext edge_name (eu_add_target_types update) (ed_target_types d))
       (for_each_ok (\<lambda>(prop_name, _).
           if hm_contains (ed_properties d) prop_name
           then Inl (DuplicateProperty edge_name prop_name) else Inr ()) (eu_add_properties update))))"

text \<open>The mutations. \<^verbatim>\<open>get_mut(..).unwrap()\<close> cannot fail on a validated update.\<close>

definition widen_edge_type :: "edge_type_update \<Rightarrow> edge_type_def \<Rightarrow> edge_type_def" where
  "widen_edge_type update d =
     d\<lparr>ed_source_types := ed_source_types d @ eu_add_source_types update,
       ed_target_types := ed_target_types d @ eu_add_target_types update,
       ed_properties := bt_extend (ed_properties d) (eu_add_properties update)\<rparr>"

fun relax_properties :: "property_defs \<Rightarrow> string list \<Rightarrow> property_defs" where
  "relax_properties props [] = props"
| "relax_properties props (p # ps) =
     relax_properties
       (case bt_get props p of None \<Rightarrow> props
        | Some d \<Rightarrow> bt_insert p (d\<lparr>pd_required := False\<rparr>) props) ps"

definition update_node_type :: "node_type_update \<Rightarrow> node_type_def \<Rightarrow> node_type_def" where
  "update_node_type update d =
     d\<lparr>nd_properties :=
         relax_properties (bt_extend (nd_properties d) (nu_add_properties update)) (nu_relax_properties update),
       nd_subtypes :=
         (if nu_add_subtypes update = [] then nd_subtypes d
          else Some (bt_extend (case nd_subtypes d of None \<Rightarrow> [] | Some m \<Rightarrow> m) (nu_add_subtypes update)))\<rparr>"

fun modify_entries :: "('u \<Rightarrow> 'd \<Rightarrow> 'd) \<Rightarrow> (string \<times> 'u) list \<Rightarrow> (string, 'd) btree_map \<Rightarrow> (string, 'd) btree_map" where
  "modify_entries f [] m = m"
| "modify_entries f ((name, u) # us) m =
     modify_entries f us (case bt_get m name of None \<Rightarrow> m | Some d \<Rightarrow> bt_insert name (f u d) m)"

definition merge_extension :: "ontology \<Rightarrow> ontology_extension \<Rightarrow> ontology \<times> (monotonicity_error, unit) result" where
  "merge_extension ont ext =
     (case check_before_mutation ont ext of
        Inl e \<Rightarrow> (ont, Inl e)
      | Inr _ \<Rightarrow>
        (let ont1 = ont\<lparr>on_node_types := bt_extend (on_node_types ont) (ex_node_types ext)\<rparr> in
         case for_each_ok (check_edge_type_update ont1 ext) (ex_edge_type_updates ext) of
           Inl e \<Rightarrow> (ont1, Inl e)
         | Inr _ \<Rightarrow>
           (let ont2 = ont1\<lparr>
                  on_edge_types :=
                    modify_entries widen_edge_type (ex_edge_type_updates ext)
                      (bt_extend (on_edge_types ont1) (ex_edge_types ext)),
                  on_node_types :=
                    modify_entries update_node_type (ex_node_type_updates ext) (on_node_types ont1)\<rparr>
            in case validate_self ont2 of
                 Inl e \<Rightarrow> (ont2, Inl (ValidationFailed e))
               | Inr _ \<Rightarrow> (ont2, Inr ()))))"

end
