(* ===== verification/Silk_Entry.thy ===== *)
theory Silk_Entry
  imports Silk_Clock Silk_Ontology
begin

text \<open>
  Operations and log entries, \<^verbatim>\<open>src/entry.rs\<close>: the payload \<^verbatim>\<open>GraphOp\<close>, the content-addressed \<^verbatim>\<open>Entry\<close>, its
  constructors and checks, and the positional wire form with its legacy eighth element.

  The content hash is BLAKE3 of the MessagePack encoding of the signable content, both made by
  third-party crates; it is a parameter \<open>H\<close>. Nothing is assumed of it: no injective \<open>H\<close> exists, so the
  theorems that need two entries to agree when their hashes do say so of the entries at hand. The
  ed25519 signer and verifier are parameters likewise. Below the level of typed sequence elements the
  MessagePack codec is not modelled.
\<close>

section \<open>Operations and entries\<close>

datatype graph_op =
    DefineOntology ontology
  | AddNode string string "string option" string properties
  | AddEdge string string string string properties
  | UpdateProperty string string silk_value
  | RemoveNode string
  | RemoveEdge string
  | ExtendOntology ontology_extension
  | DefineLens "u8 list"
  | Checkpoint "graph_op list" "(u64 \<times> u32) list" u64 u32

record signable_content =
  sg_payload :: graph_op
  sg_next :: "hash list"
  sg_refs :: "hash list"
  sg_clock :: hybrid_clock
  sg_author :: string

type_synonym content_hash = "signable_content \<Rightarrow> hash"

record entry =
  en_hash :: hash
  en_payload :: graph_op
  en_next :: "hash list"
  en_refs :: "hash list"
  en_clock :: hybrid_clock
  en_author :: string
  en_signature :: "u8 list option"

definition compute_hash :: "content_hash \<Rightarrow> graph_op \<Rightarrow> hash list \<Rightarrow> hash list \<Rightarrow> hybrid_clock \<Rightarrow> string \<Rightarrow> hash" where
  "compute_hash H payload next refs clock author =
     H \<lparr>sg_payload = payload, sg_next = next, sg_refs = refs, sg_clock = clock, sg_author = author\<rparr>"

definition entry_new :: "content_hash \<Rightarrow> graph_op \<Rightarrow> hash list \<Rightarrow> hash list \<Rightarrow> hybrid_clock \<Rightarrow> string \<Rightarrow> entry" where
  "entry_new H payload next refs clock author =
     \<lparr>en_hash = compute_hash H payload next refs clock author, en_payload = payload, en_next = next,
      en_refs = refs, en_clock = clock, en_author = author, en_signature = None\<rparr>"

definition entry_new_signed :: "content_hash \<Rightarrow> ('sk \<Rightarrow> hash \<Rightarrow> u8 list) \<Rightarrow> graph_op \<Rightarrow> hash list \<Rightarrow> hash list \<Rightarrow>
    hybrid_clock \<Rightarrow> string \<Rightarrow> 'sk \<Rightarrow> entry" where
  "entry_new_signed H sign payload next refs clock author signing_key =
     (let h = compute_hash H payload next refs clock author in
      \<lparr>en_hash = h, en_payload = payload, en_next = next, en_refs = refs, en_clock = clock,
       en_author = author, en_signature = Some (sign signing_key h)\<rparr>)"

definition verify_signature :: "('pk \<Rightarrow> hash \<Rightarrow> u8 list \<Rightarrow> bool) \<Rightarrow> entry \<Rightarrow> 'pk \<Rightarrow> bool" where
  "verify_signature verify e public_key =
     (case en_signature e of
        Some sig_bytes \<Rightarrow> if length sig_bytes \<noteq> 64 then False else verify public_key (en_hash e) sig_bytes
      | None \<Rightarrow> True)"

definition is_signed :: "entry \<Rightarrow> bool" where
  "is_signed e \<longleftrightarrow> en_signature e \<noteq> None"

definition verify_hash :: "content_hash \<Rightarrow> entry \<Rightarrow> bool" where
  "verify_hash H e \<longleftrightarrow>
     en_hash e = compute_hash H (en_payload e) (en_next e) (en_refs e) (en_clock e) (en_author e)"

section \<open>Wire form\<close>

text \<open>The typed elements of the positional sequence, in the order of the fields of \<^verbatim>\<open>Entry\<close>.\<close>

datatype wire_element =
    WHash hash
  | WPayload graph_op
  | WHashes "hash list"
  | WClock hybrid_clock
  | WAuthor string
  | WSignature "u8 list option"
  | WOntologyHash "hash option"

datatype decode_error = InvalidLength nat | InvalidType

text \<open>\<^verbatim>\<open>seq.next_element()?\<close>: the element if there is one, an error if it has another type.\<close>

definition next_element :: "(wire_element \<Rightarrow> 'a option) \<Rightarrow> wire_element list \<Rightarrow>
    (decode_error, 'a option \<times> wire_element list) result" where
  "next_element typed seq =
     (case seq of [] \<Rightarrow> Inr (None, [])
      | w # rest \<Rightarrow> (case typed w of None \<Rightarrow> Inl InvalidType | Some a \<Rightarrow> Inr (Some a, rest)))"

definition required_element :: "nat \<Rightarrow> (wire_element \<Rightarrow> 'a option) \<Rightarrow> wire_element list \<Rightarrow>
    (decode_error, 'a \<times> wire_element list) result" where
  "required_element i typed seq =
     (case next_element typed seq of
        Inl e \<Rightarrow> Inl e
      | Inr (None, _) \<Rightarrow> Inl (InvalidLength i)
      | Inr (Some a, rest) \<Rightarrow> Inr (a, rest))"

definition as_hash :: "wire_element \<Rightarrow> hash option" where
  "as_hash w = (case w of WHash h \<Rightarrow> Some h | _ \<Rightarrow> None)"

definition as_payload :: "wire_element \<Rightarrow> graph_op option" where
  "as_payload w = (case w of WPayload p \<Rightarrow> Some p | _ \<Rightarrow> None)"

definition as_hashes :: "wire_element \<Rightarrow> hash list option" where
  "as_hashes w = (case w of WHashes hs \<Rightarrow> Some hs | _ \<Rightarrow> None)"

definition as_clock :: "wire_element \<Rightarrow> hybrid_clock option" where
  "as_clock w = (case w of WClock c \<Rightarrow> Some c | _ \<Rightarrow> None)"

definition as_author :: "wire_element \<Rightarrow> string option" where
  "as_author w = (case w of WAuthor a \<Rightarrow> Some a | _ \<Rightarrow> None)"

definition as_signature :: "wire_element \<Rightarrow> u8 list option option" where
  "as_signature w = (case w of WSignature s \<Rightarrow> Some s | _ \<Rightarrow> None)"

definition as_ontology_hash :: "wire_element \<Rightarrow> hash option option" where
  "as_ontology_hash w = (case w of WOntologyHash h \<Rightarrow> Some h | _ \<Rightarrow> None)"

definition serialize_entry :: "entry \<Rightarrow> wire_element list" where
  "serialize_entry e =
     [WHash (en_hash e), WPayload (en_payload e), WHashes (en_next e), WHashes (en_refs e),
      WClock (en_clock e), WAuthor (en_author e), WSignature (en_signature e)]"

text \<open>The visitor; what it leaves unread of the sequence is returned too.\<close>

definition visit_seq :: "wire_element list \<Rightarrow> (decode_error, entry \<times> wire_element list) result" where
  "visit_seq seq =
     (case required_element 0 as_hash seq of Inl e \<Rightarrow> Inl e | Inr (h, seq) \<Rightarrow>
     (case required_element 1 as_payload seq of Inl e \<Rightarrow> Inl e | Inr (payload, seq) \<Rightarrow>
     (case required_element 2 as_hashes seq of Inl e \<Rightarrow> Inl e | Inr (next, seq) \<Rightarrow>
     (case next_element as_hashes seq of Inl e \<Rightarrow> Inl e | Inr (refs, seq) \<Rightarrow>
     (case required_element 4 as_clock seq of Inl e \<Rightarrow> Inl e | Inr (clock, seq) \<Rightarrow>
     (case required_element 5 as_author seq of Inl e \<Rightarrow> Inl e | Inr (author, seq) \<Rightarrow>
     (case next_element as_signature seq of Inl e \<Rightarrow> Inl e | Inr (signature, seq) \<Rightarrow>
     (case next_element as_ontology_hash seq of Inl e \<Rightarrow> Inl e | Inr (_, seq) \<Rightarrow>
        Inr (\<lparr>en_hash = h, en_payload = payload, en_next = next,
              en_refs = (case refs of None \<Rightarrow> [] | Some r \<Rightarrow> r), en_clock = clock, en_author = author,
              en_signature = (case signature of None \<Rightarrow> None | Some s \<Rightarrow> s)\<rparr>, seq)))))))))"

lemmas wire_defs = next_element_def required_element_def as_hash_def as_payload_def as_hashes_def
  as_clock_def as_author_def as_signature_def as_ontology_hash_def

section \<open>Properties\<close>

lemma verify_hash_entry_new [simp]: "verify_hash H (entry_new H p n r c a)"
  by (simp add: verify_hash_def entry_new_def)

text \<open>
  An entry read back from its wire form is the entry that was written, and so is one written by an
  older version with the eighth element: the element is consumed, so the reader is left at the start of
  the next entry. A sequence that ends before the author is refused.
\<close>

theorem entry_wire_roundtrip:
  "visit_seq (serialize_entry e) = Inr (e, []) \<and>
   visit_seq (serialize_entry e @ [WOntologyHash h]) = Inr (e, []) \<and>
   visit_seq (take 6 (serialize_entry e)) = Inr (e\<lparr>en_signature := None\<rparr>, []) \<and>
   visit_seq (take 5 (serialize_entry e)) = Inl (InvalidLength 5)"
  by (simp add: visit_seq_def serialize_entry_def wire_defs numeral_nat)

end
