(* ===== verification/Silk_OpLog.thy ===== *)
theory Silk_OpLog
  imports Silk_Entry
begin

text \<open>
  The Merkle-DAG operation log, \<^verbatim>\<open>src/oplog.rs\<close>: an append-only map from hashes to entries with its
  heads and reverse index, the backward traversal, Kahn's topological sort with its deterministic tie
  break, and the deltas computed from them.

  \<open>oplog_inv\<close> collects the invariants the documentation names I-01 (hash integrity), I-02 (causal
  completeness) and I-04 (heads), together with the exact reverse index and acyclicity. A panic of the
  code (an indexing miss, a counter below zero) is the value \<open>None\<close> of \<open>topo_sort\<close>.
\<close>

section \<open>State\<close>

record oplog =
  ol_entries :: "(hash, entry) hash_map"
  ol_heads :: "hash hash_set"
  ol_children :: "(hash, hash hash_set) hash_map"
  ol_len :: nat

datatype oplog_error = InvalidHash | MissingParent hash

definition oplog_new :: "entry \<Rightarrow> oplog" where
  "oplog_new genesis =
     \<lparr>ol_entries = [(en_hash genesis, genesis)], ol_heads = [en_hash genesis], ol_children = [], ol_len = 1\<rparr>"

definition is_checkpoint :: "graph_op \<Rightarrow> bool" where
  "is_checkpoint op = (case op of Checkpoint _ _ _ _ \<Rightarrow> True | _ \<Rightarrow> False)"

definition oplog_replace_with_checkpoint :: "entry \<Rightarrow> oplog" where
  "oplog_replace_with_checkpoint checkpoint =
     \<lparr>ol_entries = [(en_hash checkpoint, checkpoint)], ol_heads = [en_hash checkpoint], ol_children = [], ol_len = 1\<rparr>"

text \<open>The loop over the parents: they are no longer heads, and they gain a child.\<close>

fun link_parents :: "hash \<Rightarrow> hash list \<Rightarrow> oplog \<Rightarrow> oplog" where
  "link_parents h [] log = log"
| "link_parents h (p # ps) log =
     link_parents h ps
       (log\<lparr>ol_heads := hs_remove p (ol_heads log),
            ol_children := hm_insert p
              (hs_insert h (case hm_get (ol_children log) p of None \<Rightarrow> [] | Some s \<Rightarrow> s)) (ol_children log)\<rparr>)"

text \<open>The insertion proper: link the parents, make the entry a head, store it.\<close>

definition insert_entry :: "oplog \<Rightarrow> entry \<Rightarrow> oplog" where
  "insert_entry log e =
     (let log1 = link_parents (en_hash e) (en_next e) log in
      log1\<lparr>ol_heads := hs_insert (en_hash e) (ol_heads log1),
           ol_entries := hm_insert (en_hash e) e (ol_entries log1),
           ol_len := ol_len log1 + 1\<rparr>)"

definition oplog_append :: "content_hash \<Rightarrow> oplog \<Rightarrow> entry \<Rightarrow> oplog \<times> (oplog_error, bool) result" where
  "oplog_append H log e =
     (if \<not> verify_hash H e then (log, Inl InvalidHash)
      else if hm_contains (ol_entries log) (en_hash e) then (log, Inr False)
      else if en_next e = [] \<and> ol_entries log \<noteq> [] \<and> is_checkpoint (en_payload e)
      then (oplog_replace_with_checkpoint e, Inr True)
      else case find (\<lambda>p. \<not> hm_contains (ol_entries log) p) (en_next e) of
        Some p \<Rightarrow> (log, Inl (MissingParent p))
      | None \<Rightarrow> (insert_entry log e, Inr True))"

definition oplog_get :: "oplog \<Rightarrow> hash \<Rightarrow> entry option" where
  "oplog_get log h = hm_get (ol_entries log) h"

definition oplog_is_empty :: "oplog \<Rightarrow> bool" where
  "oplog_is_empty log \<longleftrightarrow> ol_len log = 0"

text \<open>\<^verbatim>\<open>estimated_memory_bytes\<close>, with the length of the MessagePack encoding of an entry as parameter.\<close>

definition oplog_estimated_memory_bytes :: "(entry \<Rightarrow> nat) \<Rightarrow> oplog \<Rightarrow> nat" where
  "oplog_estimated_memory_bytes bytes_len log =
     sum_list (map (\<lambda>(_, e). bytes_len e + 32 + 64) (ol_entries log)) +
     length (ol_heads log) * (32 + 16) +
     sum_list (map (\<lambda>(_, ch). 32 + 16 + length ch * (32 + 16)) (ol_children log))"

datatype integrity_error =
    I01_InvalidHash hash
  | I02_MissingParent hash hash
  | I04_SpuriousHeads "hash list"
  | I04_MissingHeads "hash list"

definition computed_heads :: "oplog \<Rightarrow> hash hash_set" where
  "computed_heads log =
     (let has_successor = remdups (concat (map (\<lambda>(_, e). en_next e) (ol_entries log)))
      in filter (\<lambda>h. h \<notin> set has_successor) (map fst (ol_entries log)))"

definition verify_integrity :: "content_hash \<Rightarrow> oplog \<Rightarrow> integrity_error list" where
  "verify_integrity H log =
     map (\<lambda>(h, _). I01_InvalidHash h) (filter (\<lambda>(_, e). \<not> verify_hash H e) (ol_entries log)) @
     concat (map (\<lambda>(h, e). map (I02_MissingParent h)
       (filter (\<lambda>p. \<not> hm_contains (ol_entries log) p) (en_next e))) (ol_entries log)) @
     (let computed = computed_heads log in
      if set computed \<noteq> set (ol_heads log) then
        (let extra = filter (\<lambda>h. h \<notin> set computed) (ol_heads log);
             missing = filter (\<lambda>h. h \<notin> set (ol_heads log)) computed
         in (if extra \<noteq> [] then [I04_SpuriousHeads extra] else []) @
            (if missing \<noteq> [] then [I04_MissingHeads missing] else []))
      else [])"

section \<open>Traversal\<close>

definition back_links :: "oplog \<Rightarrow> hash \<Rightarrow> hash list" where
  "back_links log h = (case hm_get (ol_entries log) h of None \<Rightarrow> [] | Some e \<Rightarrow> en_next e @ en_refs e)"

function reachable_loop :: "oplog \<Rightarrow> hash list \<Rightarrow> hash list \<Rightarrow> hash hash_set" where
  "reachable_loop log visited [] = visited"
| "reachable_loop log visited (h # queue) =
     (if h \<in> set visited then reachable_loop log visited queue
      else let visited' = visited @ [h] in
        case hm_get (ol_entries log) h of
          None \<Rightarrow> reachable_loop log visited' queue
        | Some e \<Rightarrow>
          reachable_loop log visited'
            (queue @ filter (\<lambda>p. p \<notin> set visited') (en_next e) @ filter (\<lambda>r. r \<notin> set visited') (en_refs e)))"
  by pat_completeness auto

text \<open>There are finitely many hashes, so the unvisited ones can be counted.\<close>

lemma unvisited_decreases: "h \<notin> set v \<Longrightarrow> card (UNIV - set (v @ [h]) :: hash set) < card (UNIV - set v)"
  by (rule psubset_card_mono) auto

termination reachable_loop
  by (relation "measures [\<lambda>(log, v, q). card (UNIV - set v :: hash set), \<lambda>(log, v, q). length q]")
    (use unvisited_decreases in auto)

definition reachable_from :: "oplog \<Rightarrow> hash list \<Rightarrow> hash hash_set" where
  "reachable_from log starts = reachable_loop log [] starts"

section \<open>Topological sort\<close>

definition topo_key :: "oplog \<Rightarrow> hash \<Rightarrow> (u64 \<times> u32) \<times> hash" where
  "topo_key log h =
     (case hm_get (ol_entries log) h of Some e \<Rightarrow> (as_tuple (en_clock e), h) | None \<Rightarrow> ((0, 0), h))"

text \<open>The in-degrees within the subset; a hash that is not in the log panics.\<close>

fun topo_in_degree :: "oplog \<Rightarrow> hash hash_set \<Rightarrow> hash list \<Rightarrow> (hash, nat) hash_map option" where
  "topo_in_degree log hashes [] = Some []"
| "topo_in_degree log hashes (h # hs) =
     (case hm_get (ol_entries log) h of None \<Rightarrow> None
      | Some e \<Rightarrow>
        (case topo_in_degree log hashes hs of None \<Rightarrow> None
         | Some m \<Rightarrow> Some ((h, length (filter (\<lambda>p. p \<in> set hashes) (en_next e))) # m)))"

text \<open>One pass over the children of a popped entry: the decremented degrees and the children now ready.\<close>

fun relax_children :: "hash hash_set \<Rightarrow> hash list \<Rightarrow> (hash, nat) hash_map \<Rightarrow> hash list \<Rightarrow>
    ((hash, nat) hash_map \<times> hash list) option" where
  "relax_children hashes [] indeg ready = Some (indeg, ready)"
| "relax_children hashes (c # cs) indeg ready =
     (if c \<notin> set hashes then relax_children hashes cs indeg ready
      else case hm_get indeg c of None \<Rightarrow> relax_children hashes cs indeg ready
      | Some 0 \<Rightarrow> None
      | Some (Suc d) \<Rightarrow>
        relax_children hashes cs (hm_insert c d indeg) (if d = 0 then ready @ [c] else ready))"

lemma sum_update:
  "map_of m c = Some (Suc d) \<Longrightarrow> Suc (sum_list (map snd (AList.update c d m))) = sum_list (map snd m)"
  by (induction m) (auto split: if_splits)

lemma relax_children_measure:
  "relax_children hashes cs indeg ready = Some (indeg', ready') \<Longrightarrow>
    length ready' + sum_list (map snd indeg') \<le> length ready + sum_list (map snd indeg)"
proof (induction hashes cs indeg ready rule: relax_children.induct)
  case (2 hashes c cs indeg ready)
  then show ?case
    using sum_update [of indeg c] by (fastforce split: if_splits option.splits nat.splits)
qed simp

function topo_loop :: "oplog \<Rightarrow> hash hash_set \<Rightarrow> (hash, nat) hash_map \<Rightarrow> hash list \<Rightarrow> entry list \<Rightarrow> entry list option" where
  "topo_loop log hashes indeg [] acc = Some acc"
| "topo_loop log hashes indeg (h # queue) acc =
     (case hm_get (ol_entries log) h of None \<Rightarrow> None
      | Some e \<Rightarrow>
        (case hm_get (ol_children log) h of
           None \<Rightarrow> topo_loop log hashes indeg queue (acc @ [e])
         | Some ch \<Rightarrow>
           (case relax_children hashes ch indeg [] of None \<Rightarrow> None
            | Some (indeg', ready) \<Rightarrow>
              topo_loop log hashes indeg' (queue @ sort_key (topo_key log) ready) (acc @ [e]))))"
  by pat_completeness auto

termination topo_loop
  by (relation "measure (\<lambda>(log, hashes, indeg, q, acc). length q + sum_list (map snd indeg))")
    (auto dest!: relax_children_measure)

definition topo_sort :: "oplog \<Rightarrow> hash hash_set \<Rightarrow> entry list option" where
  "topo_sort log hashes =
     (case topo_in_degree log hashes hashes of None \<Rightarrow> None
      | Some in_degree \<Rightarrow>
        topo_loop log hashes in_degree
          (sort_key (topo_key log) (map fst (filter (\<lambda>(_, deg). deg = 0) in_degree))) [])"

section \<open>Deltas\<close>

definition entries_since :: "oplog \<Rightarrow> hash option \<Rightarrow> entry list option" where
  "entries_since log known_hash =
     (let all_from_heads = reachable_from log (ol_heads log) in
      case known_hash of
        None \<Rightarrow> topo_sort log all_from_heads
      | Some kh \<Rightarrow>
        (let known_set = reachable_from log [kh]
         in topo_sort log (filter (\<lambda>h. h \<notin> set known_set) all_from_heads)))"

definition entries_since_heads :: "oplog \<Rightarrow> hash list \<Rightarrow> (oplog_error, entry list option) result" where
  "entries_since_heads log hs =
     (case find (\<lambda>h. \<not> hm_contains (ol_entries log) h) hs of
        Some h \<Rightarrow> Inl (MissingParent h)
      | None \<Rightarrow>
        (let all_from_heads = reachable_from log (ol_heads log);
             known_set = (if hs = [] then [] else reachable_from log hs)
         in Inr (topo_sort log (filter (\<lambda>h. h \<notin> set known_set) all_from_heads))))"

definition heads_known :: "oplog \<Rightarrow> hash list \<Rightarrow> bool" where
  "heads_known log hs \<longleftrightarrow> list_all (\<lambda>h. hm_contains (ol_entries log) h) hs"

definition entries_as_of :: "oplog \<Rightarrow> u64 \<Rightarrow> u32 \<Rightarrow> entry list option" where
  "entries_as_of log cutoff_physical cutoff_logical =
     topo_sort log (map fst (filter (\<lambda>(_, e). as_tuple (en_clock e) \<le> (cutoff_physical, cutoff_logical)) (ol_entries log)))"

section \<open>Invariants\<close>

definition causal :: "oplog \<Rightarrow> (hash \<times> hash) set" where
  "causal log = {(p, h). \<exists>e. hm_get (ol_entries log) h = Some e \<and> p \<in> set (en_next e)}"

definition child_of :: "oplog \<Rightarrow> hash \<Rightarrow> hash list" where
  "child_of log p = (case hm_get (ol_children log) p of None \<Rightarrow> [] | Some s \<Rightarrow> s)"

definition oplog_inv :: "content_hash \<Rightarrow> oplog \<Rightarrow> bool" where
  "oplog_inv H log \<longleftrightarrow>
     hm_wf (ol_entries log) \<and>
     (\<forall>h e. hm_get (ol_entries log) h = Some e \<longrightarrow> en_hash e = h \<and> verify_hash H e) \<and>
     Domain (causal log) \<subseteq> hm_keys (ol_entries log) \<and>
     distinct (ol_heads log) \<and> set (ol_heads log) = hm_keys (ol_entries log) - Domain (causal log) \<and>
     (\<forall>p. distinct (child_of log p) \<and> set (child_of log p) = causal log `` {p}) \<and>
     ol_len log = length (ol_entries log) \<and>
     acyclic (causal log)"

lemma link_parents_entries [simp]:
  "ol_entries (link_parents h ps log) = ol_entries log" "ol_len (link_parents h ps log) = ol_len log"
  by (induction ps arbitrary: log) simp_all

lemma link_parents_heads:
  "set (ol_heads (link_parents h ps log)) = set (ol_heads log) - set ps"
  "distinct (ol_heads log) \<Longrightarrow> distinct (ol_heads (link_parents h ps log))"
  by (induction ps arbitrary: log) auto

lemma child_of_insert:
  "child_of (log\<lparr>ol_heads := hs, ol_children := hm_insert p (hs_insert h (child_of log p)) (ol_children log)\<rparr>) q
    = (if q = p then hs_insert h (child_of log p) else child_of log q)"
  by (simp add: child_of_def update_conv')

lemma link_parents_children:
  "set (child_of (link_parents h ps log) p) = set (child_of log p) \<union> (if p \<in> set ps then {h} else {})"
  "distinct (child_of log p) \<Longrightarrow> distinct (child_of (link_parents h ps log) p)"
proof (induction ps arbitrary: log)
  case (Cons q ps)
  {
    case 1
    then show ?case by (auto simp: Cons.IH child_of_insert simp flip: child_of_def)
  next
    case 2
    then show ?case by (auto simp: child_of_insert simp flip: child_of_def intro!: Cons.IH)
  }
qed simp_all

lemma causal_insert:
  assumes "h \<notin> hm_keys (ol_entries log)" "ol_entries log' = hm_insert h e (ol_entries log)"
  shows "causal log' = causal log \<union> {(p, h) |p. p \<in> set (en_next e)}"
proof -
  have "hm_get (ol_entries log) h = None" using assms(1) by (simp add: hm_get_None_iff)
  with assms(2) show ?thesis by (auto simp: causal_def update_conv' split: if_splits)
qed

lemma causal_Range: "Range (causal log) \<subseteq> hm_keys (ol_entries log)"
  by (auto simp: causal_def dest!: map_of_SomeD intro: rev_image_eqI)

lemma oplog_new_inv:
  assumes "verify_hash H e" "en_next e = []"
  shows "oplog_inv H (oplog_new e)"
  using assms by (auto simp: oplog_inv_def oplog_new_def causal_def child_of_def acyclic_def split: if_splits)

lemma checkpoint_is_new: "oplog_replace_with_checkpoint e = oplog_new e"
  by (simp add: oplog_replace_with_checkpoint_def oplog_new_def)

lemma oplog_invD:
  assumes "oplog_inv H log"
  shows "hm_wf (ol_entries log)"
    and "hm_get (ol_entries log) h = Some e \<Longrightarrow> en_hash e = h \<and> verify_hash H e"
    and "Domain (causal log) \<subseteq> hm_keys (ol_entries log)"
    and "set (ol_heads log) = hm_keys (ol_entries log) - Domain (causal log)"
    and "distinct (ol_heads log)"
    and "distinct (child_of log p)"
    and "set (child_of log p) = causal log `` {p}"
    and "ol_len log = length (ol_entries log)"
    and "acyclic (causal log)"
  using assms by (auto simp: oplog_inv_def)

lemma insert_entry_simps:
  "ol_entries (insert_entry log e) = hm_insert (en_hash e) e (ol_entries log)"
  "set (ol_heads (insert_entry log e)) = insert (en_hash e) (set (ol_heads log) - set (en_next e))"
  "distinct (ol_heads log) \<Longrightarrow> distinct (ol_heads (insert_entry log e))"
  "child_of (insert_entry log e) p = child_of (link_parents (en_hash e) (en_next e) log) p"
  "ol_len (insert_entry log e) = ol_len log + 1"
  by (simp_all add: insert_entry_def Let_def link_parents_heads child_of_def)

lemma insert_entry_inv:
  assumes inv: "oplog_inv H log" and e: "verify_hash H e" "en_hash e \<notin> hm_keys (ol_entries log)"
    "set (en_next e) \<subseteq> hm_keys (ol_entries log)"
  shows "oplog_inv H (insert_entry log e)" (is "oplog_inv H ?log")
proof -
  let ?h = "en_hash e"
  note D = oplog_invD [OF inv] and I = insert_entry_simps [of log e]
  have keys: "hm_keys (ol_entries ?log) = insert ?h (hm_keys (ol_entries log))"
    by (simp add: I dom_update)
  have cau: "causal ?log = causal log \<union> {(p, ?h) |p. p \<in> set (en_next e)}"
    using e(2) I(1) by (rule causal_insert)
  have fresh: "?h \<notin> Domain (causal log)" "?h \<notin> set (en_next e)" using D(3) e by auto
  show ?thesis
    unfolding oplog_inv_def
  proof (intro conjI allI)
    show "hm_wf (ol_entries ?log)" using D(1) by (simp add: I distinct_update)
    show "hm_get (ol_entries ?log) h = Some e' \<longrightarrow> en_hash e' = h \<and> verify_hash H e'" for h e'
      using D(2) [of h e'] e(1) by (auto simp: I update_conv')
    show "Domain (causal ?log) \<subseteq> hm_keys (ol_entries ?log)"
      unfolding keys cau using D(3) e(3) by auto
    show "distinct (ol_heads ?log)" using D(5) by (rule I(3))
    show "set (ol_heads ?log) = hm_keys (ol_entries ?log) - Domain (causal ?log)"
      unfolding keys cau I(2) using D(4) e(3) fresh by auto
    show "distinct (child_of ?log p)" for p using D(6) by (simp add: I link_parents_children)
    show "set (child_of ?log p) = causal ?log `` {p}" for p
      unfolding cau I(4) using D(7) [of p] by (auto simp: link_parents_children)
    show "ol_len ?log = length (ol_entries ?log)"
      using D(8) e(2) by (simp add: I hm_insert_fresh)
    show "acyclic (causal ?log)"
      unfolding cau using D(9) fresh by (intro acyclic_extend)
  qed
qed

lemma oplog_append_inv [inv_intros]: "oplog_inv H log \<Longrightarrow> oplog_inv H (fst (oplog_append H log e))"
  by (auto simp: oplog_append_def checkpoint_is_new hm_contains_iff find_None_list_all
      intro!: oplog_new_inv insert_entry_inv split: option.splits)

section \<open>Logs as a state machine\<close>

text \<open>The states a log can be in: created from a root entry, then fed arbitrary entries, accepted or not.\<close>

inductive log_run :: "content_hash \<Rightarrow> oplog \<Rightarrow> bool" for H where
  genesis: "verify_hash H g \<Longrightarrow> en_next g = [] \<Longrightarrow> log_run H (oplog_new g)"
| append: "log_run H log \<Longrightarrow> log_run H (fst (oplog_append H log e))"

lemma log_run_inv: "log_run H log \<Longrightarrow> oplog_inv H log"
  by (induction rule: log_run.induct) (auto intro: oplog_new_inv inv_intros)

lemma Domain_causal:
  "hm_wf (ol_entries log) \<Longrightarrow> Domain (causal log) = (\<Union>(h, e) \<in> set (ol_entries log). set (en_next e))"
  by (auto simp: causal_def intro!: bexI dest!: map_of_SomeD)

lemma set_computed_heads:
  "hm_wf (ol_entries log) \<Longrightarrow> set (computed_heads log) = hm_keys (ol_entries log) - Domain (causal log)"
  by (auto simp: computed_heads_def Domain_causal Let_def)

lemma verify_integrity_iff:
  assumes "hm_wf (ol_entries log)"
  shows "verify_integrity H log = [] \<longleftrightarrow>
    (\<forall>(h, e) \<in> set (ol_entries log). verify_hash H e) \<and>
    Domain (causal log) \<subseteq> hm_keys (ol_entries log) \<and>
    set (ol_heads log) = hm_keys (ol_entries log) - Domain (causal log)"
proof -
  have "(\<forall>(h, e) \<in> set (ol_entries log). \<forall>p \<in> set (en_next e). hm_contains (ol_entries log) p) \<longleftrightarrow>
      Domain (causal log) \<subseteq> hm_keys (ol_entries log)"
    using assms by (auto simp: Domain_causal hm_contains_iff)
  then show ?thesis
    unfolding verify_integrity_def Let_def set_computed_heads [OF assms, symmetric]
    by (auto simp: filter_empty_conv)
qed

text \<open>
  C11. Every log that arises from a valid root entry by any sequence of appends, accepted and refused
  ones alike, satisfies the structural invariants: hashes match their content, parents are present,
  the heads are exactly the entries without successor, the reverse index is exact and the causal
  relation is acyclic. In particular the log's own integrity check reports nothing.
\<close>

theorem append_preserves_invariant:
  assumes "log_run H log"
  shows "oplog_inv H log \<and> verify_integrity H log = [] \<and> log_run H (fst (oplog_append H log e))"
proof -
  note inv = log_run_inv [OF assms]
  have "verify_integrity H log = []"
    unfolding verify_integrity_iff [OF oplog_invD(1) [OF inv]]
    using oplog_invD(1-4) [OF inv] by auto
  with inv assms show ?thesis by (simp add: log_run.append)
qed

definition demo_hash :: content_hash where
  "demo_hash c = of_nat (2 * length (sg_next c) + (case sg_payload c of RemoveNode n \<Rightarrow> 16 * (1 + length n) | _ \<Rightarrow> 1))"

definition demo_root :: entry where
  "demo_root = entry_new demo_hash (DefineLens []) [] [] (with_values ''a'' 1 0) ''a''"

definition demo_child :: entry where
  "demo_child = entry_new demo_hash (RemoveNode ''n'') [1] [] (with_values ''a'' 2 0) ''a''"

lemmas demo_entries = demo_root_def demo_child_def demo_hash_def entry_new_def compute_hash_def with_values_def

theorem append_preserves_invariant_witness:
  "verify_integrity demo_hash (fst (oplog_append demo_hash (oplog_new demo_root) demo_child)) = []"
proof -
  have "log_run demo_hash (oplog_new demo_root)"
    by (rule log_run.genesis) (simp_all add: demo_root_def entry_new_def verify_hash_def)
  then show ?thesis
    using append_preserves_invariant append_preserves_invariant by blast
qed



text \<open>
  The integrity check is complete: on any log, however it came about, it reports no error exactly
  when every stored entry has a valid hash, every parent is stored, and the recorded heads are exactly
  the entries no other entry names as parent.
\<close>

theorem verify_integrity_complete:
  assumes "hm_wf (ol_entries log)"
  shows "verify_integrity H log = [] \<longleftrightarrow>
    (\<forall>(h, e) \<in> set (ol_entries log). verify_hash H e) \<and>
    Domain (causal log) \<subseteq> hm_keys (ol_entries log) \<and>
    set (ol_heads log) = hm_keys (ol_entries log) - Domain (causal log)"
  using assms by (rule verify_integrity_iff)

theorem verify_integrity_complete_witness:
  "verify_integrity demo_hash ((oplog_new demo_root)\<lparr>ol_heads := [5]\<rparr>) \<noteq> []"
proof -
  let ?log = "(oplog_new demo_root)\<lparr>ol_heads := [5]\<rparr>"
  have "hm_wf (ol_entries ?log)" by (simp add: oplog_new_def)
  moreover have "hm_keys (ol_entries ?log) = {1}" "set (ol_heads ?log) = {5}"
    by (simp_all add: oplog_new_def demo_entries)
  moreover have "5 \<notin> {1 :: hash}" by simp
  ultimately show ?thesis using verify_integrity_complete [of ?log demo_hash] by blast
qed

end
