(* ===== verification/Silk_Topo.thy ===== *)
theory Silk_Topo
  imports Silk_OpLog
begin

text \<open>
  Correctness of the log's queries: the backward traversal is a reflexive transitive closure (an
  instance of the worklist interface), Kahn's loop returns each entry of the requested set once with
  parents before children, its result does not depend on any iteration order of the hash maps involved,
  and the deltas computed from both are exactly what a consumer lacks.
\<close>


section \<open>Backward reachability\<close>

interpretation rf: worklist_pop "back_links log" "reachable_loop log" for log
proof unfold_locales
  fix h v q
  show "reachable_loop log v [] = v" by simp
  show "h \<in> set v \<Longrightarrow> reachable_loop log v (h # q) = reachable_loop log v q" by simp
  show "h \<notin> set v \<Longrightarrow> reachable_loop log v (h # q) =
      reachable_loop log (v @ [h]) (q @ filter (\<lambda>s. s \<notin> set (v @ [h])) (back_links log h))"
    by (simp add: back_links_def split: option.splits)
  show "finite ((succ_rel (back_links log))\<^sup>* `` {h})" by simp
qed

lemma set_reachable_from: "set (reachable_from log starts) = (succ_rel (back_links log))\<^sup>* `` set starts"
  and distinct_reachable_from: "distinct (reachable_from log starts)"
  by (simp_all add: reachable_from_def rf.run_closure rf.run_distinct)

section \<open>One pass over the children\<close>

definition decremented :: "hash set \<Rightarrow> (hash \<Rightarrow> nat option) \<Rightarrow> hash \<Rightarrow> nat option" where
  "decremented C m c = (if c \<in> C then map_option (\<lambda>d. d - 1) (m c) else m c)"

lemma relax_children_Some:
  assumes "distinct cs" "\<forall>c \<in> set cs \<inter> set hs. map_of indeg c \<noteq> Some 0"
  shows "\<exists>indeg'. relax_children hs cs indeg ready =
      Some (indeg', ready @ filter (\<lambda>c. c \<in> set hs \<and> map_of indeg c = Some 1) cs) \<and>
    map_of indeg' = decremented (set cs \<inter> set hs) (map_of indeg)"
  using assms
proof (induction cs arbitrary: indeg ready)
  case (Cons c cs)
  show ?case
  proof (cases "c \<in> set hs \<and> map_of indeg c \<noteq> None")
    case False
    then have rel: "relax_children hs (c # cs) indeg ready = relax_children hs cs indeg ready" by auto
    have dec: "decremented (set (c # cs) \<inter> set hs) (map_of indeg) = decremented (set cs \<inter> set hs) (map_of indeg)"
      using False by (auto simp: decremented_def fun_eq_iff)
    have flt: "filter (\<lambda>c. c \<in> set hs \<and> map_of indeg c = Some 1) (c # cs) =
        filter (\<lambda>c. c \<in> set hs \<and> map_of indeg c = Some 1) cs"
      using False by auto
    show ?thesis unfolding rel dec flt using Cons.prems by (intro Cons.IH) auto
  next
    case True
    then obtain d where d: "map_of indeg c = Some (Suc d)"
      using Cons.prems(2) by (metis Int_iff list.set_intros(1) not0_implies_Suc not_None_eq)
    let ?m = "AList.update c d indeg" and ?r = "if d = 0 then ready @ [c] else ready"
    have get: "map_of ?m x = (if x = c then Some d else map_of indeg x)" for x by (simp add: update_conv')
    have "\<forall>x \<in> set cs \<inter> set hs. map_of ?m x \<noteq> Some 0" using Cons.prems by (auto simp: get)
    then obtain indeg' where IH: "relax_children hs cs ?m ?r =
        Some (indeg', ?r @ filter (\<lambda>x. x \<in> set hs \<and> map_of ?m x = Some 1) cs)"
      "map_of indeg' = decremented (set cs \<inter> set hs) (map_of ?m)"
      using Cons.IH [of ?m ?r] Cons.prems(1) by auto
    have "filter (\<lambda>x. x \<in> set hs \<and> map_of ?m x = Some 1) cs = filter (\<lambda>x. x \<in> set hs \<and> map_of indeg x = Some 1) cs"
      using Cons.prems(1) by (intro filter_cong) (auto simp: get)
    moreover have "map_of indeg' = decremented (set (c # cs) \<inter> set hs) (map_of indeg)"
      unfolding IH(2) using Cons.prems(1) True d by (auto simp: decremented_def get fun_eq_iff)
    moreover have "relax_children hs (c # cs) indeg ready = relax_children hs cs ?m ?r"
      using True d by simp
    ultimately show ?thesis using IH(1) True d by auto
  qed
qed (auto simp: decremented_def fun_eq_iff)

lemma relax_children_None:
  "distinct cs \<Longrightarrow> \<exists>c \<in> set cs \<inter> set hs. map_of indeg c = Some 0 \<Longrightarrow> relax_children hs cs indeg ready = None"
proof (induction cs arbitrary: indeg ready)
  case (Cons c cs)
  then obtain x where x: "x \<in> set (c # cs)" "x \<in> set hs" "map_of indeg x = Some 0" by auto
  show ?case
  proof (cases "x = c")
    case False
    with x Cons.prems(1) have "\<exists>x \<in> set cs \<inter> set hs. map_of indeg x = Some 0"
      "\<exists>x \<in> set cs \<inter> set hs. map_of (AList.update c d indeg) x = Some 0" for d
      by (auto simp: update_conv' intro!: bexI [of _ x])
    with Cons.IH Cons.prems(1) show ?thesis by (auto split: option.splits nat.splits)
  qed (use x in simp)
qed simp

section \<open>Sorting by an injective key\<close>

lemma inj_topo_key: "inj (topo_key log)"
  by (rule injI) (auto simp: topo_key_def split: option.splits)

lemma sort_key_cong_set:
  fixes f :: "'a \<Rightarrow> 'b::linorder"
  assumes "distinct xs" "distinct ys" "set xs = set ys" "inj f"
  shows "sort_key f xs = sort_key f ys"
proof -
  have "map f (sort_key f xs) = map f (sort_key f ys)"
    using assms by (intro sorted_distinct_set_unique) (auto simp: distinct_map intro: inj_on_subset [OF assms(4)])
  then show ?thesis using assms(4) by (simp add: inj_map_eq_map)
qed

lemma sort_key_cong_on: "(\<And>x. x \<in> set xs \<Longrightarrow> f x = g x) \<Longrightarrow> sort_key f xs = sort_key g xs"
proof (induction xs)
  case (Cons x xs)
  have "insort_key f x ys = insort_key g x ys" if "\<forall>y \<in> set ys. f y = g y" for ys
    using that Cons.prems by (induction ys) auto
  with Cons show ?case by simp
qed simp

section \<open>Determinism\<close>

text \<open>Two representations of the same log: equal as maps, whatever the iteration orders.\<close>

definition same_log :: "oplog \<Rightarrow> oplog \<Rightarrow> bool" where
  "same_log log log' \<longleftrightarrow> map_of (ol_entries log) = map_of (ol_entries log')"

lemma same_log_causal: "same_log log log' \<Longrightarrow> causal log = causal log'"
  by (simp add: same_log_def causal_def)

lemma child_of_children:
  "hm_get (ol_children log) h = Some ch \<Longrightarrow> child_of log h = ch"
  "hm_get (ol_children log) h = None \<Longrightarrow> child_of log h = []"
  by (simp_all add: child_of_def)

text \<open>The step of the loop with the child lookup folded: no recorded children and no children are the same.\<close>

lemma topo_loop_step:
  "topo_loop log hs indeg (h # q) acc =
     (case hm_get (ol_entries log) h of None \<Rightarrow> None
      | Some e \<Rightarrow> (case relax_children hs (child_of log h) indeg [] of None \<Rightarrow> None
         | Some (indeg', ready) \<Rightarrow> topo_loop log hs indeg' (q @ sort_key (topo_key log) ready) (acc @ [e])))"
  by (cases "hm_get (ol_children log) h") (simp_all add: child_of_children split: option.splits)

declare topo_loop.simps(2) [simp del]

text \<open>Two logs that have the same entries under the hashes of a set: what the sort of that set looks at.\<close>

definition same_on :: "hash set \<Rightarrow> oplog \<Rightarrow> oplog \<Rightarrow> bool" where
  "same_on S log log' \<longleftrightarrow> (\<forall>h \<in> S. hm_get (ol_entries log) h = hm_get (ol_entries log') h)"

lemma same_log_on: "same_log log log' \<Longrightarrow> same_on S log log'"
  by (simp add: same_log_def same_on_def)

lemma same_on_facts:
  assumes "same_on S log log'"
  shows "h \<in> S \<Longrightarrow> topo_key log h = topo_key log' h" "causal log `` {p} \<inter> S = causal log' `` {p} \<inter> S"
    "S \<subseteq> hm_keys (ol_entries log) \<longleftrightarrow> S \<subseteq> hm_keys (ol_entries log')"
  using assms by (auto simp: same_on_def topo_key_def causal_def hm_keys_dom subset_iff dom_def)

lemma topo_loop_cong_on:
  assumes inv: "oplog_inv H log" "oplog_inv H log'" and same: "same_on (set hs) log log'" and hs: "set hs = set hs'"
  shows "map_of indeg = map_of indeg' \<Longrightarrow> set q \<subseteq> set hs \<Longrightarrow> topo_loop log hs indeg q acc = topo_loop log' hs' indeg' q acc"
proof (induction "length q + sum_list (map snd indeg)" arbitrary: indeg indeg' q acc rule: less_induct)
  case less
  show ?case
  proof (cases q)
    case (Cons h q')
    let ?cs = "child_of log h" and ?cs' = "child_of log' h"
    have cs: "distinct ?cs" "distinct ?cs'" "set ?cs \<inter> set hs = set ?cs' \<inter> set hs'"
      using inv same_on_facts(2) [OF same] hs by (auto simp: oplog_invD)
    have get: "hm_get (ol_entries log') h = hm_get (ol_entries log) h" using same less.prems(2) Cons by (simp add: same_on_def)
    show ?thesis
    proof (cases "\<exists>c \<in> set ?cs \<inter> set hs. map_of indeg c = Some 0")
      case True
      then have "relax_children hs ?cs indeg [] = None" "relax_children hs' ?cs' indeg' [] = None"
        using cs less.prems(1) by (auto intro!: relax_children_None)
      with Cons get show ?thesis by (simp add: topo_loop_step split: option.splits)
    next
      case False
      let ?next = "filter (\<lambda>c. c \<in> set hs \<and> map_of indeg c = Some 1) ?cs"
      obtain m where m: "relax_children hs ?cs indeg [] = Some (m, ?next)" "map_of m = decremented (set ?cs \<inter> set hs) (map_of indeg)"
        using relax_children_Some [OF cs(1), of hs indeg "[]"] False by auto
      obtain m' where m': "relax_children hs' ?cs' indeg' [] = Some (m', filter (\<lambda>c. c \<in> set hs' \<and> map_of indeg' c = Some 1) ?cs')"
        "map_of m' = decremented (set ?cs' \<inter> set hs') (map_of indeg')"
        using relax_children_Some [OF cs(2), of hs' indeg' "[]"] False cs(3) less.prems(1) by auto
      have mm: "map_of m = map_of m'" unfolding m(2) m'(2) using cs(3) less.prems(1) by simp
      have "sort_key (topo_key log') (filter (\<lambda>c. c \<in> set hs' \<and> map_of indeg' c = Some 1) ?cs') = sort_key (topo_key log') ?next"
        using cs hs less.prems(1) by (intro sort_key_cong_set inj_topo_key) auto
      also have "\<dots> = sort_key (topo_key log) ?next" using same_on_facts(1) [OF same] by (intro sort_key_cong_on) auto
      finally have r: "sort_key (topo_key log') (filter (\<lambda>c. c \<in> set hs' \<and> map_of indeg' c = Some 1) ?cs') = sort_key (topo_key log) ?next" .
      have "topo_loop log hs m (q' @ sort_key (topo_key log) ?next) (acc @ [e]) = topo_loop log' hs' m' (q' @ sort_key (topo_key log) ?next) (acc @ [e])" for e
        using relax_children_measure [OF m(1)] Cons mm less.prems(2) by (intro less.hyps) auto
      with Cons m(1) m'(1) r get show ?thesis by (simp add: topo_loop_step split: option.splits)
    qed
  qed simp
qed

lemma topo_in_degree_eq:
  "topo_in_degree log hashes hs =
    (if set hs \<subseteq> hm_keys (ol_entries log)
     then Some (map (\<lambda>h. (h, length (filter (\<lambda>p. p \<in> set hashes) (en_next (the (hm_get (ol_entries log) h)))))) hs)
     else None)"
proof (induction hs)
  case (Cons h hs)
  show ?case
  proof (cases "hm_get (ol_entries log) h")
    case None
    then have "h \<notin> hm_keys (ol_entries log)" by (simp add: hm_get_None_iff)
    with None show ?thesis by simp
  next
    case (Some e)
    then have "h \<in> hm_keys (ol_entries log)" by (metis hm_get_None_iff option.distinct(1))
    with Some Cons show ?thesis by simp
  qed
qed simp

abbreviation topo_degree :: "oplog \<Rightarrow> hash list \<Rightarrow> hash \<Rightarrow> nat" where
  "topo_degree log hs h \<equiv> length (filter (\<lambda>p. p \<in> set hs) (en_next (the (hm_get (ol_entries log) h))))"

text \<open>The sort as one run of the loop: all in-degrees, and the entries without parents in the set as the start.\<close>

lemma topo_sort_run:
  assumes "set hs \<subseteq> hm_keys (ol_entries log)"
  shows "topo_sort log hs = topo_loop log hs (map (\<lambda>h. (h, topo_degree log hs h)) hs)
    (sort_key (topo_key log) (filter (\<lambda>h. topo_degree log hs h = 0) hs)) []"
proof -
  have "map fst (filter (\<lambda>(_, d). d = 0) (map (\<lambda>h. (h, f h)) xs)) = filter (\<lambda>h. f h = 0) xs" for f :: "hash \<Rightarrow> nat" and xs
    by (induction xs) auto
  then show ?thesis using assms by (simp add: topo_sort_def topo_in_degree_eq)
qed

lemma topo_sort_cong_on:
  assumes "oplog_inv H log" "oplog_inv H log'" "same_on (set hs) log log'" "set hs = set hs'" "distinct hs" "distinct hs'"
  shows "topo_sort log hs = topo_sort log' hs'"
proof (cases "set hs \<subseteq> hm_keys (ol_entries log)")
  case True
  then have True': "set hs' \<subseteq> hm_keys (ol_entries log')" using same_on_facts(3) [OF assms(3)] assms(4) by simp
  have deg: "topo_degree log' hs' h = topo_degree log hs h" if "h \<in> set hs" for h
    using assms(3,4) that by (simp add: same_on_def)
  have maps: "map_of (map (\<lambda>h. (h, topo_degree log hs h)) hs) = map_of (map (\<lambda>h. (h, topo_degree log' hs' h)) hs')"
    using assms(4) deg by (auto simp: map_of_map_restrict restrict_map_def fun_eq_iff)
  define free where "free h \<longleftrightarrow> topo_degree log hs h = 0" for h
  have "filter (\<lambda>h. topo_degree log' hs' h = 0) hs' = filter free hs'"
    using deg by (intro filter_cong refl) (simp only: free_def assms(4))
  then have "sort_key (topo_key log') (filter (\<lambda>h. topo_degree log' hs' h = 0) hs') = sort_key (topo_key log') (filter free hs')"
    by simp
  also have "\<dots> = sort_key (topo_key log') (filter free hs)"
    using assms(4-6) by (intro sort_key_cong_set inj_topo_key) auto
  also have "\<dots> = sort_key (topo_key log) (filter free hs)"
    using same_on_facts(1) [OF assms(3)] by (intro sort_key_cong_on) auto
  also have "\<dots> = sort_key (topo_key log) (filter (\<lambda>h. topo_degree log hs h = 0) hs)"
    unfolding free_def [abs_def] by (rule refl)
  finally show ?thesis
    unfolding topo_sort_run [OF True] topo_sort_run [OF True'] using topo_loop_cong_on [OF assms(1-4) maps] by simp
next
  case False
  then show ?thesis using same_on_facts(3) [OF assms(3)] assms(4) by (simp add: topo_sort_def topo_in_degree_eq)
qed

lemma topo_sort_cong:
  assumes "oplog_inv H log" "oplog_inv H log'" "same_log log log'" "set hs = set hs'" "distinct hs" "distinct hs'"
  shows "topo_sort log hs = topo_sort log' hs'"
  by (rule topo_sort_cong_on [OF assms(1,2) same_log_on [OF assms(3)] assms(4-6)])

section \<open>Correctness\<close>

definition preds_in :: "oplog \<Rightarrow> hash list \<Rightarrow> hash \<Rightarrow> hash set" where
  "preds_in log hs h = {p \<in> set hs. (p, h) \<in> causal log}"

text \<open>How often an entry repeats a parent: the in-degree counts repetitions, the decrements do not.\<close>

definition surplus :: "oplog \<Rightarrow> hash list \<Rightarrow> hash \<Rightarrow> nat" where
  "surplus log hs h =
     length (filter (\<lambda>p. p \<in> set hs) (en_next (the (hm_get (ol_entries log) h)))) - card (preds_in log hs h)"

lemma in_degree_split:
  assumes "h \<in> hm_keys (ol_entries log)"
  shows "length (filter (\<lambda>p. p \<in> set hs) (en_next (the (hm_get (ol_entries log) h)))) =
    card (preds_in log hs h) + surplus log hs h"
proof -
  let ?ps = "filter (\<lambda>p. p \<in> set hs) (en_next (the (hm_get (ol_entries log) h)))"
  have "preds_in log hs h = set ?ps"
    using in_keys_get [OF assms] by (auto simp: preds_in_def causal_def)
  then show ?thesis using card_length [of ?ps] by (simp add: surplus_def)
qed

lemma surplus_distinct:
  assumes "h \<in> hm_keys (ol_entries log)" "distinct (en_next (the (hm_get (ol_entries log) h)))"
  shows "surplus log hs h = 0"
proof -
  let ?ps = "filter (\<lambda>p. p \<in> set hs) (en_next (the (hm_get (ol_entries log) h)))"
  have "preds_in log hs h = set ?ps"
    using in_keys_get [OF assms(1)] by (auto simp: preds_in_def causal_def)
  moreover have "card (set ?ps) = length ?ps" using assms(2) by (intro distinct_card) simp
  ultimately show ?thesis unfolding surplus_def by simp
qed

definition parents_first :: "hash list \<Rightarrow> entry list \<Rightarrow> bool" where
  "parents_first hs es \<longleftrightarrow>
     (\<forall>i < length es. \<forall>p \<in> set (en_next (es ! i)). p \<in> set hs \<longrightarrow> p \<in> en_hash ` set (take i es))"

lemma parents_first_snoc:
  "parents_first hs es \<Longrightarrow> (\<And>p. p \<in> set (en_next e) \<Longrightarrow> p \<in> set hs \<Longrightarrow> p \<in> en_hash ` set es) \<Longrightarrow>
    parents_first hs (es @ [e])"
  by (auto simp: parents_first_def nth_append less_Suc_eq)

text \<open>The invariant of the loop, between two pops.\<close>

definition topo_state :: "oplog \<Rightarrow> hash list \<Rightarrow> (hash, nat) hash_map \<Rightarrow> hash list \<Rightarrow> entry list \<Rightarrow> bool" where
  "topo_state log hs indeg q acc \<longleftrightarrow>
     (let D = en_hash ` set acc in
      (\<forall>e \<in> set acc. hm_get (ol_entries log) (en_hash e) = Some e) \<and>
      distinct (map en_hash acc @ q) \<and> D \<union> set q \<subseteq> set hs \<and>
      (\<forall>h. map_of indeg h = (if h \<in> set hs then Some (card (preds_in log hs h - D) + surplus log hs h) else None)) \<and>
      (\<forall>h \<in> set hs. h \<in> D \<union> set q \<longleftrightarrow> preds_in log hs h \<subseteq> D \<and> surplus log hs h = 0) \<and>
      parents_first hs acc)"

lemma topo_stateD:
  assumes "topo_state log hs indeg q acc"
  shows "\<forall>e \<in> set acc. hm_get (ol_entries log) (en_hash e) = Some e"
    and "distinct (map en_hash acc @ q)"
    and "en_hash ` set acc \<union> set q \<subseteq> set hs"
    and "map_of indeg h = (if h \<in> set hs then Some (card (preds_in log hs h - en_hash ` set acc) + surplus log hs h) else None)"
    and "h \<in> set hs \<Longrightarrow> h \<in> en_hash ` set acc \<union> set q \<longleftrightarrow> preds_in log hs h \<subseteq> en_hash ` set acc \<and> surplus log hs h = 0"
    and "parents_first hs acc"
  using assms unfolding topo_state_def Let_def by (elim conjE, simp (no_asm_simp) only:)+

lemma finite_preds_in [simp]: "finite (preds_in log hs h)"
  by (simp add: preds_in_def)

text \<open>One pop, seen from the in-degrees: they count the parents left, and a child is ready when none is.\<close>

lemma relax_popped:
  assumes inv: "oplog_inv H log" and h: "h \<in> set hs" "h \<notin> D"
    and deg: "\<And>c. map_of indeg c = (if c \<in> set hs then Some (card (preds_in log hs c - D) + surplus log hs c) else None)"
  shows "\<exists>m ready. relax_children hs (child_of log h) indeg [] = Some (m, ready) \<and> distinct ready \<and>
    (\<forall>c. map_of m c = (if c \<in> set hs then Some (card (preds_in log hs c - insert h D) + surplus log hs c) else None)) \<and>
    (\<forall>c. c \<in> set ready \<longleftrightarrow> c \<in> set hs \<and> h \<in> preds_in log hs c \<and> preds_in log hs c \<subseteq> insert h D \<and> surplus log hs c = 0)"
proof -
  let ?cs = "child_of log h" and ?P = "preds_in log hs"
  define ready where "ready = filter (\<lambda>c. c \<in> set hs \<and> map_of indeg c = Some 1) ?cs"
  have cs: "distinct ?cs" "\<And>c. c \<in> set ?cs \<longleftrightarrow> h \<in> ?P c" using oplog_invD(6,7) [OF inv] h(1) by (auto simp: preds_in_def)
  have minus: "card (?P c - D) = (if c \<in> set ?cs then Suc (card (?P c - insert h D)) else card (?P c - insert h D))" for c
  proof (cases "c \<in> set ?cs")
    case True
    then have "?P c - D = insert h (?P c - insert h D)" using cs(2) h(2) by auto
    then show ?thesis using True by simp
  next
    case False
    then have "?P c - D = ?P c - insert h D" using cs(2) by auto
    then show ?thesis using False by simp
  qed
  have "\<forall>c \<in> set ?cs \<inter> set hs. map_of indeg c \<noteq> Some 0" by (simp add: deg minus)
  then obtain m where m: "relax_children hs ?cs indeg [] = Some (m, ready)" "map_of m = decremented (set ?cs \<inter> set hs) (map_of indeg)"
    using relax_children_Some [OF cs(1), of hs indeg "[]"] unfolding ready_def append_Nil by blast
  have "map_of m c = (if c \<in> set hs then Some (card (?P c - insert h D) + surplus log hs c) else None)" for c
    unfolding m(2) by (simp add: decremented_def deg minus)
  moreover have "c \<in> set ready \<longleftrightarrow> c \<in> set hs \<and> h \<in> ?P c \<and> ?P c \<subseteq> insert h D \<and> surplus log hs c = 0" for c
  proof -
    have "?P c \<subseteq> insert h D \<longleftrightarrow> card (?P c - insert h D) = 0" by (auto simp: card_eq_0_iff)
    then show ?thesis unfolding ready_def cs(2) [symmetric] by (auto simp: deg minus)
  qed
  ultimately show ?thesis using m(1) cs(1) by (auto simp: ready_def)
qed

lemma topo_state_step:
  assumes inv: "oplog_inv H log" and hs: "set hs \<subseteq> hm_keys (ol_entries log)" and st: "topo_state log hs indeg (h # q) acc"
  shows "\<exists>e m ready. hm_get (ol_entries log) h = Some e \<and> relax_children hs (child_of log h) indeg [] = Some (m, ready) \<and>
    topo_state log hs m (q @ sort_key (topo_key log) ready) (acc @ [e])"
proof -
  define D where "D = en_hash ` set acc"
  let ?P = "preds_in log hs" and ?s = "surplus log hs"
  note acc = topo_stateD(1) [OF st] and dist = topo_stateD(2) [OF st] and sub = topo_stateD(3) [OF st, folded D_def]
    and rdy = topo_stateD(5) [OF st, folded D_def]
  have hh: "h \<in> set hs" "h \<notin> D" using sub dist by (auto simp: D_def)
  obtain e where e: "hm_get (ol_entries log) h = Some e" using in_keys_get [OF subsetD [OF hs hh(1)]] by blast
  have eh: "en_hash e = h" using oplog_invD(2) [OF inv e] by simp
  obtain m ready where m: "relax_children hs (child_of log h) indeg [] = Some (m, ready)" "distinct ready"
    "\<And>c. map_of m c = (if c \<in> set hs then Some (card (?P c - insert h D) + ?s c) else None)"
    "\<And>c. c \<in> set ready \<longleftrightarrow> c \<in> set hs \<and> h \<in> ?P c \<and> ?P c \<subseteq> insert h D \<and> ?s c = 0"
    using relax_popped [OF inv hh topo_stateD(4) [OF st, folded D_def]] by blast
  have new: "c \<notin> D \<union> set (h # q)" if "c \<in> set ready" for c
    using rdy [of c] that m(4) [of c] hh(2) by blast
  have "topo_state log hs m (q @ sort_key (topo_key log) ready) (acc @ [e])"
    unfolding topo_state_def Let_def
  proof (intro conjI ballI allI)
    have D': "en_hash ` set (acc @ [e]) = insert h D" by (simp add: D_def eh)
    show "hm_get (ol_entries log) (en_hash x) = Some x" if "x \<in> set (acc @ [e])" for x
      using that acc e eh by auto
    show "distinct (map en_hash (acc @ [e]) @ q @ sort_key (topo_key log) ready)"
      using dist new m(2) by (auto simp: eh D_def)
    show "en_hash ` set (acc @ [e]) \<union> set (q @ sort_key (topo_key log) ready) \<subseteq> set hs"
      using sub m(4) unfolding D' by auto
    show "map_of m x = (if x \<in> set hs then Some (card (?P x - en_hash ` set (acc @ [e])) + ?s x) else None)" for x
      unfolding D' by (rule m(3))
    show "(x \<in> en_hash ` set (acc @ [e]) \<union> set (q @ sort_key (topo_key log) ready)) =
        (?P x \<subseteq> en_hash ` set (acc @ [e]) \<and> ?s x = 0)" if "x \<in> set hs" for x
      unfolding D' using rdy [OF that] m(4) [of x] hh that by auto
    show "parents_first hs (acc @ [e])"
    proof (rule parents_first_snoc [OF topo_stateD(6) [OF st]])
      show "p \<in> en_hash ` set acc" if "p \<in> set (en_next e)" "p \<in> set hs" for p
        using that rdy [OF hh(1)] e by (auto simp: preds_in_def causal_def D_def)
    qed
  qed
  with e m(1) show ?thesis by blast
qed

lemma topo_loop_correct:
  assumes "oplog_inv H log" "set hs \<subseteq> hm_keys (ol_entries log)"
  shows "topo_state log hs indeg q acc \<Longrightarrow>
    \<exists>m es. topo_loop log hs indeg q acc = Some es \<and> topo_state log hs m [] es"
proof (induction "length q + sum_list (map snd indeg)" arbitrary: indeg q acc rule: less_induct)
  case less
  show ?case
  proof (cases q)
    case (Cons h q')
    then obtain e m ready where s: "hm_get (ol_entries log) h = Some e"
      "relax_children hs (child_of log h) indeg [] = Some (m, ready)"
      "topo_state log hs m (q' @ sort_key (topo_key log) ready) (acc @ [e])"
      using topo_state_step [OF assms] less.prems by blast
    then show ?thesis
      using less.hyps [OF _ s(3)] relax_children_measure [OF s(2)] Cons by (simp add: topo_loop_step)
  qed (use less.prems in auto)
qed

lemma topo_sort_start:
  assumes "set hs \<subseteq> hm_keys (ol_entries log)" "distinct hs"
  obtains indeg q where "topo_sort log hs = topo_loop log hs indeg q []" "topo_state log hs indeg q []"
proof -
  let ?deg = "\<lambda>h. length (filter (\<lambda>p. p \<in> set hs) (en_next (the (hm_get (ol_entries log) h))))"
  let ?q = "sort_key (topo_key log) (filter (\<lambda>h. ?deg h = 0) hs)"
  have f: "map fst (filter (\<lambda>(_, deg). deg = 0) (map (\<lambda>h. (h, ?deg h)) xs)) = filter (\<lambda>h. ?deg h = 0) xs" for xs
    by (induction xs) auto
  have deg: "?deg h = card (preds_in log hs h) + surplus log hs h" if "h \<in> set hs" for h
    using that assms(1) by (intro in_degree_split) auto
  have z: "filter (\<lambda>p. p \<in> set hs) (en_next (the (hm_get (ol_entries log) h))) = [] \<longleftrightarrow>
      preds_in log hs h = {} \<and> surplus log hs h = 0" if "h \<in> set hs" for h
    using deg [OF that] by (metis add_is_0 card_0_eq finite_preds_in length_0_conv)
  show ?thesis
  proof (rule that)
    show "topo_sort log hs = topo_loop log hs (map (\<lambda>h. (h, ?deg h)) hs) ?q []"
      unfolding topo_sort_def f [symmetric] using assms(1) by (simp add: topo_in_degree_eq)
    show "topo_state log hs (map (\<lambda>h. (h, ?deg h)) hs) ?q []"
      using assms(2) by (auto simp: topo_state_def parents_first_def map_of_map_restrict restrict_map_def deg z)
  qed
qed

text \<open>Without repeated parents nothing is left behind.\<close>

lemma topo_state_complete:
  assumes inv: "oplog_inv H log" and st: "topo_state log hs m [] es" and s: "\<And>h. h \<in> set hs \<Longrightarrow> surplus log hs h = 0"
  shows "en_hash ` set es = set hs"
proof
  show "en_hash ` set es \<subseteq> set hs" using st by (auto simp: topo_state_def Let_def)
  have "wf (causal log)" using oplog_invD(9) [OF inv] by (intro finite_acyclic_wf) auto
  then have "h \<in> set hs \<longrightarrow> h \<in> en_hash ` set es" for h
  proof (induction h rule: wf_induct_rule)
    case (less h)
    then have "preds_in log hs h \<subseteq> en_hash ` set es" if "h \<in> set hs" by (auto simp: preds_in_def)
    with st s show ?case by (auto simp: topo_state_def Let_def)
  qed
  then show "set hs \<subseteq> en_hash ` set es" by blast
qed

lemma topo_sort_total:
  assumes "oplog_inv H log" "set hs \<subseteq> hm_keys (ol_entries log)" "distinct hs"
  obtains m es where "topo_sort log hs = Some es" "topo_state log hs m [] es"
  using topo_loop_correct [OF assms(1,2)] topo_sort_start [OF assms(2,3)] by metis

section \<open>The log's queries\<close>

lemma topo_sort_complete:
  assumes "oplog_inv H log" "set hs \<subseteq> hm_keys (ol_entries log)" "distinct hs"
    and "\<forall>h \<in> set hs. \<forall>e. oplog_get log h = Some e \<longrightarrow> distinct (en_next e)"
  shows "\<exists>es. topo_sort log hs = Some es \<and> distinct (map en_hash es) \<and> set (map en_hash es) = set hs \<and>
    parents_first hs es \<and> (\<forall>e \<in> set es. oplog_get log (en_hash e) = Some e)"
proof -
  obtain m es where es: "topo_sort log hs = Some es" "topo_state log hs m [] es"
    using topo_sort_total [OF assms(1-3)] .
  have "surplus log hs h = 0" if "h \<in> set hs" for h
    using assms(2,4) that in_keys_get [of h "ol_entries log"] by (intro surplus_distinct) (auto simp: oplog_get_def)
  then have "en_hash ` set es = set hs" using topo_state_complete [OF assms(1) es(2)] by blast
  with es topo_stateD(1,2,6) [OF es(2)] show ?thesis by (simp add: oplog_get_def)
qed

text \<open>
  C13. The topological sort never panics on a subset of a well-formed log, and returns every requested
  entry exactly once, every parent before its children. Entries must not repeat a parent.
\<close>

theorem topo_sort_correct:
  assumes "log_run H log" and "set hs \<subseteq> hm_keys (ol_entries log)" and "distinct hs"
    and "\<forall>h \<in> set hs. \<forall>e. oplog_get log h = Some e \<longrightarrow> distinct (en_next e)"
  shows "\<exists>es. topo_sort log hs = Some es \<and> distinct (map en_hash es) \<and> set (map en_hash es) = set hs \<and>
    parents_first hs es \<and> (\<forall>e \<in> set es. oplog_get log (en_hash e) = Some e)"
  using log_run_inv [OF assms(1)] assms(2-4) by (rule topo_sort_complete)

definition demo_log :: oplog where
  "demo_log = fst (oplog_append demo_hash (oplog_new demo_root) demo_child)"

lemma demo_log_eq: "demo_log = \<lparr>ol_entries = [(1, demo_root), (34, demo_child)], ol_heads = [34],
    ol_children = [(1, [34])], ol_len = 2\<rparr>"
proof -
  have "en_hash demo_root = 1" "en_hash demo_child = 34" "en_next demo_child = [1]" "verify_hash demo_hash demo_child"
    by (simp_all add: demo_entries verify_hash_def)
  then show ?thesis
    by (simp add: demo_log_def oplog_append_def oplog_new_def hm_contains_def insert_entry_def hs_remove_def hs_insert_def)
qed

lemma demo_log_run: "log_run demo_hash demo_log"
  unfolding demo_log_def
  by (intro log_run.append log_run.genesis) (simp_all add: demo_root_def entry_new_def verify_hash_def)

lemmas demo_log_inv = log_run_inv [OF demo_log_run]

lemma demo_next: "en_next demo_root = []" "en_next demo_child = [1]" "en_refs demo_root = []" "en_refs demo_child = []"
  "en_hash demo_root = 1" "en_hash demo_child = 34"
  by (simp_all add: demo_entries)

theorem topo_sort_correct_witness:
  "\<exists>es. topo_sort demo_log [34, 1] = Some es \<and> set (map en_hash es) = {34, 1} \<and> parents_first [34, 1] es"
proof -
  have "set [34, 1] \<subseteq> hm_keys (ol_entries demo_log)" "distinct [34, 1 :: hash]"
    "\<forall>h \<in> set [34, 1]. \<forall>e. oplog_get demo_log h = Some e \<longrightarrow> distinct (en_next e)"
    by (auto simp: demo_log_eq oplog_get_def demo_next split: if_splits)
  from topo_sort_correct [OF demo_log_run this] show ?thesis by auto
qed

text \<open>
  C14. The order is a function of the stored entries and the requested set alone: two peers that hold the
  same entries compute the same sequence, whatever the iteration orders of their hash maps, their heads
  and the requested set, and however their logs came about.
\<close>

theorem topo_sort_deterministic:
  assumes "log_run H log" and "log_run H log'"
    and "oplog_get log = oplog_get log'"
    and "set hs = set hs'" and "distinct hs" and "distinct hs'"
  shows "topo_sort log hs = topo_sort log' hs'"
proof -
  have "same_log log log'" using assms(3) by (simp add: same_log_def oplog_get_def fun_eq_iff)
  then show ?thesis using topo_sort_cong assms log_run_inv by blast
qed

theorem topo_sort_deterministic_witness: "topo_sort demo_log [34, 1] = topo_sort demo_log [1, 34]"
  by (rule topo_sort_deterministic [OF demo_log_run demo_log_run]) auto

definition well_linked :: "oplog \<Rightarrow> bool" where
  "well_linked log \<longleftrightarrow> (\<forall>h e. oplog_get log h = Some e \<longrightarrow>
     distinct (en_next e) \<and> set (en_refs e) \<subseteq> hm_keys (ol_entries log))"

text \<open>The entries a cursor has seen: the cursor and everything reachable backwards from it.\<close>

definition causal_past :: "oplog \<Rightarrow> hash list \<Rightarrow> hash set" where
  "causal_past log hs = (succ_rel (back_links log))\<^sup>* `` set hs"

lemma back_links_keys:
  assumes "oplog_inv H log" "well_linked log"
  shows "set (back_links log h) \<subseteq> hm_keys (ol_entries log)"
proof (cases "hm_get (ol_entries log) h")
  case (Some e)
  then have "set (en_next e) \<subseteq> Domain (causal log)" by (auto simp: causal_def)
  with Some oplog_invD(3) [OF assms(1)] assms(2) show ?thesis
    by (auto simp: back_links_def well_linked_def oplog_get_def)
qed (simp add: back_links_def)

lemma causal_past_keys:
  assumes "oplog_inv H log" "well_linked log" "set hs \<subseteq> hm_keys (ol_entries log)"
  shows "causal_past log hs \<subseteq> hm_keys (ol_entries log)"
  unfolding causal_past_def using back_links_keys [OF assms(1,2)] by (intro rtrancl_Image_closed assms(3))

lemma parent_in_past: "(p, h) \<in> causal log \<Longrightarrow> h \<in> causal_past log hs \<Longrightarrow> p \<in> causal_past log hs"
  unfolding causal_past_def by (rule rtrancl_Image_step) (auto simp: back_links_def causal_def)

lemma heads_reach_all:
  assumes "oplog_inv H log" "well_linked log"
  shows "causal_past log (ol_heads log) = hm_keys (ol_entries log)"
proof
  note D = oplog_invD [OF assms(1)]
  show "causal_past log (ol_heads log) \<subseteq> hm_keys (ol_entries log)"
    using D(4) by (intro causal_past_keys [OF assms]) auto
  have "wf ((causal log)\<inverse>)" using D(9) by (intro finite_acyclic_wf) (auto simp: acyclic_converse)
  then have "h \<in> hm_keys (ol_entries log) \<longrightarrow> h \<in> causal_past log (ol_heads log)" for h
  proof (induction h rule: wf_induct_rule)
    case (less h)
    show ?case
    proof (cases "h \<in> Domain (causal log)")
      case True
      then obtain c where "(h, c) \<in> causal log" by blast
      moreover from this have "c \<in> hm_keys (ol_entries log)" using causal_Range by blast
      ultimately show ?thesis using less parent_in_past by blast
    next
      case False
      then show ?thesis using D(4) by (auto simp: causal_past_def)
    qed
  qed
  then show "hm_keys (ol_entries log) \<subseteq> causal_past log (ol_heads log)" by blast
qed

lemma delta_correct:
  assumes "oplog_inv H log" "well_linked log"
  shows "\<exists>es. topo_sort log (filter (\<lambda>h. h \<notin> K) (reachable_from log (ol_heads log))) = Some es \<and>
    distinct (map en_hash es) \<and> set (map en_hash es) = hm_keys (ol_entries log) - K \<and>
    (\<forall>i < length es. \<forall>p \<in> set (en_next (es ! i)). p \<in> K \<or> p \<in> en_hash ` set (take i es)) \<and>
    (\<forall>e \<in> set es. oplog_get log (en_hash e) = Some e)"
proof -
  let ?hs = "filter (\<lambda>h. h \<notin> K) (reachable_from log (ol_heads log))"
  have hs: "set ?hs = hm_keys (ol_entries log) - K"
    using heads_reach_all [OF assms] by (auto simp: set_reachable_from causal_past_def)
  have "\<exists>es. topo_sort log ?hs = Some es \<and> distinct (map en_hash es) \<and> set (map en_hash es) = set ?hs \<and>
    parents_first ?hs es \<and> (\<forall>e \<in> set es. oplog_get log (en_hash e) = Some e)"
    by (rule topo_sort_complete [OF assms(1)])
      (use assms(2) hs in \<open>simp_all add: distinct_reachable_from well_linked_def\<close>)
  then obtain es where es: "topo_sort log ?hs = Some es" "distinct (map en_hash es)" "set (map en_hash es) = set ?hs"
    "parents_first ?hs es" "\<forall>e \<in> set es. oplog_get log (en_hash e) = Some e" by blast
  have "p \<in> K \<or> p \<in> en_hash ` set (take i es)" if "i < length es" "p \<in> set (en_next (es ! i))" for i p
  proof -
    have "(p, en_hash (es ! i)) \<in> causal log"
      using es(5) that by (auto simp: causal_def oplog_get_def)
    then have "p \<in> hm_keys (ol_entries log)" using oplog_invD(3) [OF assms(1)] by blast
    then show ?thesis using es(4) that hs unfolding parents_first_def by blast
  qed
  with es hs show ?thesis by simp
qed

text \<open>
  Asking for everything returns every entry of the log exactly once in causal order. (Entries must not
  repeat a parent, and reserved references, if any, must point into the log.)
\<close>

theorem entries_since_none_complete:
  assumes "log_run H log" and "well_linked log"
  shows "\<exists>es. entries_since log None = Some es \<and> distinct (map en_hash es) \<and>
    set (map en_hash es) = hm_keys (ol_entries log) \<and>
    (\<forall>i < length es. \<forall>p \<in> set (en_next (es ! i)). p \<in> en_hash ` set (take i es))"
proof -
  have "entries_since log None = topo_sort log (filter (\<lambda>h. h \<notin> {}) (reachable_from log (ol_heads log)))"
    by (simp add: entries_since_def)
  then show ?thesis using delta_correct [OF log_run_inv [OF assms(1)] assms(2), of "{}"] by auto
qed

lemma demo_well_linked: "well_linked demo_log"
  by (auto simp: well_linked_def oplog_get_def demo_log_eq demo_next split: if_splits)

theorem entries_since_none_complete_witness:
  "\<exists>es. entries_since demo_log None = Some es \<and> set (map en_hash es) = {1, 34}"
proof -
  have "hm_keys (ol_entries demo_log) = {1, 34}" by (simp add: demo_log_eq)
  then show ?thesis using entries_since_none_complete [OF demo_log_run demo_well_linked] by auto
qed

lemma entries_since_heads_known:
  assumes "heads_known log hs"
  shows "entries_since_heads log hs =
    Inr (topo_sort log (filter (\<lambda>h. h \<notin> causal_past log hs) (reachable_from log (ol_heads log))))"
proof -
  have "find (\<lambda>h. \<not> hm_contains (ol_entries log) h) hs = None"
    using assms by (simp add: heads_known_def list_all_iff find_None_list_all)
  then show ?thesis by (auto simp: entries_since_heads_def causal_past_def set_reachable_from Let_def)
qed

text \<open>
  A tail subscriber that presents a cursor of known hashes receives exactly the entries that are not in
  the causal past of its cursor, each once, in an order in which every parent is either in that past or
  delivered earlier. A cursor at the current heads receives nothing; a cursor with an unknown hash is
  refused with that hash.
\<close>

theorem entries_since_heads_exact:
  assumes "log_run H log" and "well_linked log"
  shows "(heads_known log hs \<longrightarrow> (\<exists>es. entries_since_heads log hs = Inr (Some es) \<and> distinct (map en_hash es) \<and>
      set (map en_hash es) = hm_keys (ol_entries log) - causal_past log hs \<and>
      (\<forall>i < length es. \<forall>p \<in> set (en_next (es ! i)). p \<in> causal_past log hs \<or> p \<in> en_hash ` set (take i es)))) \<and>
    entries_since_heads log (ol_heads log) = Inr (Some []) \<and>
    (\<not> heads_known log hs \<longrightarrow>
       (\<exists>h \<in> set hs. oplog_get log h = None \<and> entries_since_heads log hs = Inl (MissingParent h)))"
proof (intro conjI impI)
  note delta = delta_correct [OF log_run_inv [OF assms(1)] assms(2)]
  show "\<exists>es. entries_since_heads log hs = Inr (Some es) \<and> distinct (map en_hash es) \<and>
      set (map en_hash es) = hm_keys (ol_entries log) - causal_past log hs \<and>
      (\<forall>i < length es. \<forall>p \<in> set (en_next (es ! i)). p \<in> causal_past log hs \<or> p \<in> en_hash ` set (take i es))"
    if "heads_known log hs"
    using delta [of "causal_past log hs"] entries_since_heads_known [OF that] by auto
  have "heads_known log (ol_heads log)"
    using oplog_invD(4) [OF log_run_inv [OF assms(1)]] by (auto simp: heads_known_def list_all_iff hm_contains_iff)
  moreover obtain es where "topo_sort log (filter (\<lambda>h. h \<notin> causal_past log (ol_heads log))
      (reachable_from log (ol_heads log))) = Some es" "set (map en_hash es) = {}"
    using delta [of "causal_past log (ol_heads log)"] heads_reach_all [OF log_run_inv [OF assms(1)] assms(2)] by auto
  ultimately show "entries_since_heads log (ol_heads log) = Inr (Some [])"
    by (simp add: entries_since_heads_known)
  assume "\<not> heads_known log hs"
  then have "find (\<lambda>h. \<not> hm_contains (ol_entries log) h) hs \<noteq> None"
    by (simp add: heads_known_def list_all_iff find_None_list_all)
  then obtain h where "find (\<lambda>h. \<not> hm_contains (ol_entries log) h) hs = Some h" by blast
  with find_SomeD [OF this] show "\<exists>h \<in> set hs. oplog_get log h = None \<and> entries_since_heads log hs = Inl (MissingParent h)"
    by (auto simp: entries_since_heads_def oplog_get_def hm_contains_def)
qed

theorem entries_since_heads_exact_witness:
  "entries_since_heads demo_log [34] = Inr (Some []) \<and> entries_since_heads demo_log [7] = Inl (MissingParent 7)"
proof -
  have "ol_heads demo_log = [34]" "\<not> heads_known demo_log [7]"
    by (simp_all add: demo_log_eq heads_known_def hm_contains_def)
  then show ?thesis
    using entries_since_heads_exact [OF demo_log_run demo_well_linked, of "[7]"] by simp
qed

section \<open>What an append lets through\<close>

definition demo_dangling :: entry where
  "demo_dangling = entry_new demo_hash (RemoveNode ''n'') [1] [99] (with_values ''a'' 2 0) ''a''"

definition demo_repeated :: entry where
  "demo_repeated = entry_new demo_hash (RemoveNode ''n'') [1, 1] [] (with_values ''a'' 2 0) ''a''"

text \<open>
  The reserved references are traversed but never checked: there is a log, and an entry that an append
  accepts, after which asking the log for its entries panics.
\<close>

theorem dangling_reference_panics:
  "\<exists>H log e. log_run H log \<and> snd (oplog_append H log e) = Inr True \<and>
     entries_since (fst (oplog_append H log e)) None = None"
proof (intro exI conjI)
  show "log_run demo_hash (oplog_new demo_root)"
    by (rule log_run.genesis) (simp_all add: demo_root_def entry_new_def verify_hash_def)
  have e: "verify_hash demo_hash demo_dangling" "en_hash demo_dangling = 34" "en_next demo_dangling = [1]"
    "en_refs demo_dangling = [99]"
    by (simp_all add: demo_dangling_def verify_hash_def entry_new_def compute_hash_def demo_hash_def)
  then show "snd (oplog_append demo_hash (oplog_new demo_root) demo_dangling) = Inr True"
    by (simp add: oplog_append_def oplog_new_def demo_next hm_contains_def)
  let ?log = "fst (oplog_append demo_hash (oplog_new demo_root) demo_dangling)"
  have log: "ol_entries ?log = [(1, demo_root), (34, demo_dangling)]" "ol_heads ?log = [34]"
    using e by (simp_all add: oplog_append_def oplog_new_def demo_next hm_contains_def insert_entry_def
        hs_remove_def hs_insert_def)
  have "reachable_from ?log [34] = [34, 1, 99]"
    by (simp add: reachable_from_def log e demo_next)
  then show "entries_since ?log None = None"
    by (simp add: entries_since_def topo_sort_def topo_in_degree_eq log)
qed

text \<open>
  An entry that names a parent twice is accepted, but its in-degree counts the parent twice while the
  sort decrements it once: the entry, although stored and a head, is missing from the log's own listing.
\<close>

theorem repeated_parent_is_lost:
  "\<exists>H log e. log_run H log \<and> snd (oplog_append H log e) = Inr True \<and>
     (\<exists>es. entries_since (fst (oplog_append H log e)) None = Some es \<and> e \<notin> set es) \<and>
     en_hash e \<in> set (ol_heads (fst (oplog_append H log e)))"
proof (intro exI conjI)
  show "log_run demo_hash (oplog_new demo_root)"
    by (rule log_run.genesis) (simp_all add: demo_root_def entry_new_def verify_hash_def)
  have e: "verify_hash demo_hash demo_repeated" "en_hash demo_repeated = 36" "en_next demo_repeated = [1, 1]"
    "en_refs demo_repeated = []" "demo_repeated \<noteq> demo_root"
    by (simp_all add: demo_repeated_def demo_root_def verify_hash_def entry_new_def compute_hash_def demo_hash_def)
  then show "snd (oplog_append demo_hash (oplog_new demo_root) demo_repeated) = Inr True"
    by (simp add: oplog_append_def oplog_new_def demo_next hm_contains_def)
  let ?log = "fst (oplog_append demo_hash (oplog_new demo_root) demo_repeated)"
  have log: "ol_entries ?log = [(1, demo_root), (36, demo_repeated)]" "ol_heads ?log = [36]"
    "ol_children ?log = [(1, [36])]"
    using e by (simp_all add: oplog_append_def oplog_new_def demo_next hm_contains_def insert_entry_def
        hs_remove_def hs_insert_def)
  have "reachable_from ?log [36] = [36, 1]"
    by (simp add: reachable_from_def log e demo_next)
  then show "entries_since ?log None = Some [demo_root]" "demo_repeated \<notin> set [demo_root]"
    using e by (simp_all add: entries_since_def topo_sort_def topo_in_degree_eq log demo_next topo_loop_step
        child_of_def)
  show "en_hash demo_repeated \<in> set (ol_heads ?log)" by (simp add: log e)
qed

end
