(* ===== verification/Silk_Bloom.thy ===== *)
theory Silk_Bloom
  imports Silk_Prelude
begin

text \<open>
  The Bloom filter of the sync protocol, \<^verbatim>\<open>src/bloom.rs\<close>. Bit positions come from two little-endian
  64-bit slices of the hash by wrapping double hashing; bits are kept in 64-bit words. An index out of
  range, a division by zero, a failed assertion and an overflow of the element count panic: \<open>None\<close>. (The
  count is a \<^verbatim>\<open>usize\<close>; a build without overflow checks wraps it instead, and nothing else depends on it.) The
  dimensions of a new filter are computed in floating point from logarithms; \<open>dims\<close> stands for that formula.
\<close>

unbundle bit_operations_syntax

record bloom_filter =
  bl_bits :: "u64 list"
  bl_num_bits :: u64
  bl_num_hashes :: u32
  bl_count :: u64

datatype bloom_error = NumBitsZero | BitsTooSmall nat u64 | NumHashesOutOfRange u32

definition bloom_validate :: "bloom_filter \<Rightarrow> (bloom_error, unit) result" where
  "bloom_validate b =
     (if bl_num_bits b = 0 then Inl NumBitsZero
      else if length (bl_bits b) * 64 < unat (bl_num_bits b) then Inl (BitsTooSmall (length (bl_bits b)) (bl_num_bits b))
      else if bl_num_hashes b = 0 \<or> bl_num_hashes b > 32 then Inl (NumHashesOutOfRange (bl_num_hashes b))
      else Inr ())"

definition bloom_new :: "(nat \<Rightarrow> u64 \<times> u32) \<Rightarrow> nat \<Rightarrow> bloom_filter option" where
  "bloom_new dims expected_items =
     (if expected_items = 0 then None
      else let num_bits = max (fst (dims expected_items)) 64; num_hashes = max (snd (dims expected_items)) 1;
               words = (unat num_bits + 63) div 64
           in Some \<lparr>bl_bits = replicate words 0, bl_num_bits = num_bits, bl_num_hashes = num_hashes, bl_count = 0\<rparr>)"

text \<open>Byte \<open>i\<close> of a hash, counted from the most significant, and a little-endian word of eight of them.\<close>

definition hash_byte :: "hash \<Rightarrow> nat \<Rightarrow> u64" where
  "hash_byte h i = ucast (drop_bit (8 * (31 - i)) h AND 0xFF)"

definition le_u64 :: "hash \<Rightarrow> nat \<Rightarrow> u64" where
  "le_u64 h start = sum_list (map (\<lambda>j. push_bit (8 * j) (hash_byte h (start + j))) [0..<8])"

definition bloom_indices :: "bloom_filter \<Rightarrow> hash \<Rightarrow> nat list option" where
  "bloom_indices b h =
     (let h1 = le_u64 h 0; h2 = le_u64 h 8; m = bl_num_bits b in
      if m = 0 \<and> bl_num_hashes b \<noteq> 0 then None
      else Some (map (\<lambda>n. let i = (of_nat n :: u64) in unat ((h1 + i * h2 + i * i) mod m)) [0..<unat (bl_num_hashes b)]))"

fun set_bits :: "u64 list \<Rightarrow> nat list \<Rightarrow> u64 list option" where
  "set_bits bits [] = Some bits"
| "set_bits bits (idx # idxs) =
     (if idx div 64 < length bits
      then set_bits (bits[idx div 64 := bits ! (idx div 64) OR push_bit (idx mod 64) 1]) idxs
      else None)"

text \<open>\<^verbatim>\<open>+=\<close> on the count.\<close>

definition count_add :: "u64 \<Rightarrow> u64 \<Rightarrow> u64 option" where
  "count_add a b = (if unat a + unat b < 2 ^ 64 then Some (a + b) else None)"

definition bloom_insert :: "bloom_filter \<Rightarrow> hash \<Rightarrow> bloom_filter option" where
  "bloom_insert b h =
     (case bloom_indices b h of None \<Rightarrow> None
      | Some idxs \<Rightarrow> (case set_bits (bl_bits b) idxs of None \<Rightarrow> None
         | Some bits \<Rightarrow> (case count_add (bl_count b) 1 of None \<Rightarrow> None
            | Some n \<Rightarrow> Some (b\<lparr>bl_bits := bits, bl_count := n\<rparr>))))"

fun all_bits :: "u64 list \<Rightarrow> nat list \<Rightarrow> bool option" where
  "all_bits bits [] = Some True"
| "all_bits bits (idx # idxs) =
     (if idx div 64 < length bits
      then if (bits ! (idx div 64)) AND push_bit (idx mod 64) 1 = 0 then Some False else all_bits bits idxs
      else None)"

definition bloom_contains :: "bloom_filter \<Rightarrow> hash \<Rightarrow> bool option" where
  "bloom_contains b h = (case bloom_indices b h of None \<Rightarrow> None | Some idxs \<Rightarrow> all_bits (bl_bits b) idxs)"

fun zip_or :: "u64 list \<Rightarrow> u64 list \<Rightarrow> u64 list" where
  "zip_or (a # as) (b # bs) = (a OR b) # zip_or as bs"
| "zip_or as bs = as"

definition bloom_merge :: "bloom_filter \<Rightarrow> bloom_filter \<Rightarrow> bloom_filter option" where
  "bloom_merge b other =
     (if bl_num_bits b \<noteq> bl_num_bits other \<or> bl_num_hashes b \<noteq> bl_num_hashes other then None
      else case count_add (bl_count b) (bl_count other) of None \<Rightarrow> None
        | Some n \<Rightarrow> Some (b\<lparr>bl_bits := zip_or (bl_bits b) (bl_bits other), bl_count := n\<rparr>))"

section \<open>Properties\<close>

definition bit_set :: "u64 list \<Rightarrow> nat \<Rightarrow> bool" where
  "bit_set bits idx \<longleftrightarrow> bit (bits ! (idx div 64)) (idx mod 64)"

lemma and_power: "(w AND 2 ^ n = 0) \<longleftrightarrow> \<not> bit w n" for w :: u64
  by (rule and_exp_eq_0_iff_not_bit)

lemma all_bits_iff:
  "\<forall>i \<in> set idxs. i div 64 < length bits \<Longrightarrow> all_bits bits idxs = Some (\<forall>i \<in> set idxs. bit_set bits i)"
  by (induction bits idxs rule: all_bits.induct) (auto simp: bit_set_def and_power)

lemma set_bits_Some:
  assumes "\<forall>i \<in> set idxs. i div 64 < length bits"
  shows "\<exists>bits'. set_bits bits idxs = Some bits' \<and> length bits' = length bits \<and>
    (\<forall>i \<in> set idxs. bit_set bits' i) \<and> (\<forall>i. i div 64 < length bits \<longrightarrow> bit_set bits i \<longrightarrow> bit_set bits' i)"
  using assms
proof (induction idxs arbitrary: bits)
  case (Cons x xs)
  let ?b = "bits[x div 64 := bits ! (x div 64) OR push_bit (x mod 64) 1]"
  have keep: "bit_set ?b i" if "i div 64 < length bits" "bit_set bits i" for i
    using that by (cases "i div 64 = x div 64") (auto simp: bit_set_def bit_or_iff)
  have new: "bit_set ?b x" using Cons.prems by (auto simp: bit_set_def bit_or_iff bit_exp_iff)
  obtain bits' where "set_bits ?b xs = Some bits'" "length bits' = length bits" "\<forall>i \<in> set xs. bit_set bits' i"
    "\<forall>i. i div 64 < length bits \<longrightarrow> bit_set ?b i \<longrightarrow> bit_set bits' i"
    using Cons.IH [of ?b] Cons.prems by auto
  with Cons.prems keep new show ?case by auto
qed auto

lemma bloom_indices_Some:
  assumes "bloom_validate b = Inr ()"
  shows "\<exists>idxs. bloom_indices b h = Some idxs"
  using assms by (auto simp: bloom_validate_def bloom_indices_def Let_def split: if_splits)

lemma bloom_indices_range:
  assumes "bloom_validate b = Inr ()" "bloom_indices b h = Some idxs"
  shows "\<forall>i \<in> set idxs. i div 64 < length (bl_bits b)"
proof -
  let ?idx = "\<lambda>n. let i = (of_nat n :: u64) in unat ((le_u64 h 0 + i * le_u64 h 8 + i * i) mod bl_num_bits b)"
  have v: "bl_num_bits b \<noteq> 0" "unat (bl_num_bits b) \<le> length (bl_bits b) * 64"
    using assms(1) by (auto simp: bloom_validate_def split: if_splits)
  have "?idx n div 64 < length (bl_bits b)" for n
  proof -
    have "0 < unat (bl_num_bits b)" using v(1) by (simp add: unat_gt_0)
    then have "?idx n < unat (bl_num_bits b)" by (simp add: Let_def unat_mod)
    with v(2) show ?thesis by (simp add: div_less_iff_less_mult)
  qed
  then show ?thesis using assms(2) v(1) by (auto simp: bloom_indices_def Let_def)
qed

lemma bloom_indices_cong:
  "bl_num_bits c = bl_num_bits b \<Longrightarrow> bl_num_hashes c = bl_num_hashes b \<Longrightarrow> bloom_indices c h = bloom_indices b h"
  by (simp add: bloom_indices_def Let_def)

lemma bloom_contains_iff:
  assumes "bloom_validate b = Inr ()" "bloom_indices b h = Some idxs"
  shows "bloom_contains b h = Some (\<forall>i \<in> set idxs. bit_set (bl_bits b) i)"
  using bloom_indices_range [OF assms] assms(2) by (simp add: bloom_contains_def all_bits_iff)

lemma bloom_insert_ok:
  assumes "bloom_validate b = Inr ()" and count: "unat (bl_count b) + 1 < 2 ^ 64"
  obtains b' where "bloom_insert b h = Some b'" "bloom_validate b' = Inr ()" "bloom_contains b' h = Some True"
    "bl_count b' = bl_count b + 1"
    "\<And>h'. bloom_contains b h' = Some True \<Longrightarrow> bloom_contains b' h' = Some True"
proof -
  obtain idxs where idxs: "bloom_indices b h = Some idxs" "\<forall>i \<in> set idxs. i div 64 < length (bl_bits b)"
    using bloom_indices_Some [OF assms(1)] bloom_indices_range [OF assms(1)] by blast
  obtain bits where bits: "set_bits (bl_bits b) idxs = Some bits" "length bits = length (bl_bits b)"
    "\<forall>i \<in> set idxs. bit_set bits i"
    "\<forall>i. i div 64 < length (bl_bits b) \<longrightarrow> bit_set (bl_bits b) i \<longrightarrow> bit_set bits i"
    using set_bits_Some [OF idxs(2)] by blast
  let ?b = "b\<lparr>bl_bits := bits, bl_count := bl_count b + 1\<rparr>"
  have v: "bloom_validate ?b = Inr ()" using assms(1) bits(2) by (simp add: bloom_validate_def split: if_splits)
  have same: "bloom_indices ?b h' = bloom_indices b h'" for h' by (rule bloom_indices_cong) simp_all
  show ?thesis
  proof (rule that [of ?b])
    show "bloom_insert b h = Some ?b" using idxs bits count by (simp add: bloom_insert_def count_add_def)
    show "bl_count ?b = bl_count b + 1" by simp
    show "bloom_validate ?b = Inr ()" by (rule v)
    show "bloom_contains ?b h = Some True" using bloom_contains_iff [OF v, of h idxs] idxs(1) bits(3) by (simp add: same)
    fix h' assume c: "bloom_contains b h' = Some True"
    obtain js where js: "bloom_indices b h' = Some js" "\<forall>i \<in> set js. i div 64 < length (bl_bits b)"
      using bloom_indices_Some [OF assms(1)] bloom_indices_range [OF assms(1)] by blast
    then show "bloom_contains ?b h' = Some True"
      using c bloom_contains_iff [OF assms(1) js(1)] bloom_contains_iff [OF v, of h' js] bits(4) by (simp add: same)
  qed
qed

lemma length_zip_or [simp]: "length (zip_or as bs) = length as"
  by (induction as bs rule: zip_or.induct) auto

lemma nth_zip_or: "i < length as \<Longrightarrow> zip_or as bs ! i = (if i < length bs then (as ! i) OR (bs ! i) else as ! i)"
proof (induction as bs arbitrary: i rule: zip_or.induct)
  case (1 a as b bs)
  then show ?case by (cases i) auto
qed auto

lemma bloom_merge_ok:
  assumes "bloom_validate b = Inr ()" "bloom_validate c = Inr ()"
    and "bl_num_bits c = bl_num_bits b" "bl_num_hashes c = bl_num_hashes b" and count: "unat (bl_count b) + unat (bl_count c) < 2 ^ 64"
  obtains m where "bloom_merge b c = Some m" "bloom_validate m = Inr ()"
    "\<And>h. bloom_contains b h = Some True \<or> bloom_contains c h = Some True \<Longrightarrow> bloom_contains m h = Some True"
proof -
  let ?m = "b\<lparr>bl_bits := zip_or (bl_bits b) (bl_bits c), bl_count := bl_count b + bl_count c\<rparr>"
  have v: "bloom_validate ?m = Inr ()" using assms(1) by (simp add: bloom_validate_def split: if_splits)
  show ?thesis
  proof (rule that [of ?m])
    show "bloom_merge b c = Some ?m" using assms(3,4) count by (simp add: bloom_merge_def count_add_def)
    show "bloom_validate ?m = Inr ()" by (rule v)
    fix h assume ct: "bloom_contains b h = Some True \<or> bloom_contains c h = Some True"
    obtain js where js: "bloom_indices b h = Some js" "\<forall>i \<in> set js. i div 64 < length (bl_bits b)"
      using bloom_indices_Some [OF assms(1)] bloom_indices_range [OF assms(1)] by blast
    have jc: "bloom_indices c h = Some js" "bloom_indices ?m h = Some js"
      using js(1) bloom_indices_cong [of c b h] bloom_indices_cong [of ?m b h] assms(3,4) by simp_all
    have rc: "\<forall>i \<in> set js. i div 64 < length (bl_bits c)"
      by (rule bloom_indices_range [OF assms(2) jc(1)])
    have "\<forall>i \<in> set js. bit_set (bl_bits ?m) i"
      using ct bloom_contains_iff [OF assms(1) js(1)] bloom_contains_iff [OF assms(2) jc(1)] js(2) rc
      by (auto simp: bit_set_def nth_zip_or bit_or_iff)
    then show "bloom_contains ?m h = Some True" using bloom_contains_iff [OF v jc(2)] by simp
  qed
qed

text \<open>
  C28. On a validated filter the only thing that can panic is the element count, a \<^verbatim>\<open>usize\<close> that \<^verbatim>\<open>validate\<close> does
  not look at: \<^verbatim>\<open>contains\<close> always answers, \<^verbatim>\<open>insert\<close> panics exactly when the count is at its maximum, and \<^verbatim>\<open>merge\<close> of
  filters of the same dimensions exactly when the sum of the counts overflows. Otherwise there are no false
  negatives: after inserting a hash the filter contains it, still contains everything it contained before,
  and is still valid; a merged filter is valid and contains whatever either contained.
\<close>

theorem bloom_no_false_negatives:
  assumes "bloom_validate b = Inr ()"
  shows "bloom_contains b h \<noteq> None \<and>
    (if unat (bl_count b) + 1 < 2 ^ 64
     then \<exists>b'. bloom_insert b h = Some b' \<and> bloom_validate b' = Inr () \<and> bloom_contains b' h = Some True \<and>
       (\<forall>h'. bloom_contains b h' = Some True \<longrightarrow> bloom_contains b' h' = Some True)
     else bloom_insert b h = None) \<and>
    (bloom_validate c = Inr () \<and> bl_num_bits c = bl_num_bits b \<and> bl_num_hashes c = bl_num_hashes b \<longrightarrow>
      (if unat (bl_count b) + unat (bl_count c) < 2 ^ 64
       then \<exists>m. bloom_merge b c = Some m \<and> bloom_validate m = Inr () \<and>
         (\<forall>h'. bloom_contains b h' = Some True \<or> bloom_contains c h' = Some True \<longrightarrow> bloom_contains m h' = Some True)
       else bloom_merge b c = None))"
proof (intro conjI impI)
  show "bloom_contains b h \<noteq> None"
    using bloom_indices_Some [OF assms, of h] bloom_contains_iff [OF assms] by (metis option.distinct(1))
  have full: "bloom_insert b h = None" if "\<not> unat (bl_count b) + 1 < 2 ^ 64"
    using that by (simp add: bloom_insert_def count_add_def split: option.split)
  then show "if unat (bl_count b) + 1 < 2 ^ 64
     then \<exists>b'. bloom_insert b h = Some b' \<and> bloom_validate b' = Inr () \<and> bloom_contains b' h = Some True \<and>
       (\<forall>h'. bloom_contains b h' = Some True \<longrightarrow> bloom_contains b' h' = Some True)
     else bloom_insert b h = None"
    using bloom_insert_ok [OF assms, of h] unfolding if_bool_eq_conj by metis
  assume c: "bloom_validate c = Inr () \<and> bl_num_bits c = bl_num_bits b \<and> bl_num_hashes c = bl_num_hashes b"
  have "bloom_merge b c = None" if "\<not> unat (bl_count b) + unat (bl_count c) < 2 ^ 64"
    using that by (simp add: bloom_merge_def count_add_def)
  then show "if unat (bl_count b) + unat (bl_count c) < 2 ^ 64
       then \<exists>m. bloom_merge b c = Some m \<and> bloom_validate m = Inr () \<and>
         (\<forall>h'. bloom_contains b h' = Some True \<or> bloom_contains c h' = Some True \<longrightarrow> bloom_contains m h' = Some True)
       else bloom_merge b c = None"
    using bloom_merge_ok [OF assms, of c] c unfolding if_bool_eq_conj by metis
qed

theorem bloom_no_false_negatives_witness:
  "\<exists>b'. bloom_insert \<lparr>bl_bits = [0, 0], bl_num_bits = 100, bl_num_hashes = 3, bl_count = 0\<rparr> 77 = Some b' \<and>
     bloom_contains b' 77 = Some True"
  using bloom_no_false_negatives [of "\<lparr>bl_bits = [0, 0], bl_num_bits = 100, bl_num_hashes = 3, bl_count = 0\<rparr>" 77]
  by (auto simp: bloom_validate_def)

text \<open>A filter that passes the validation of the decoder and on which an insertion panics.\<close>

theorem validated_count_overflows:
  "\<exists>b. bloom_validate b = Inr () \<and> (\<forall>h. bloom_insert b h = None)"
  by (rule exI [of _ "\<lparr>bl_bits = [0], bl_num_bits = 64, bl_num_hashes = 1, bl_count = 0xFFFFFFFFFFFFFFFF\<rparr>"])
    (simp add: bloom_validate_def bloom_insert_def count_add_def split: option.split)

end
