(* ===== verification/Silk_Sync.thy ===== *)
theory Silk_Sync
  imports Silk_Topo Silk_Bloom
begin

text \<open>
  The sync protocol, \<^verbatim>\<open>src/sync.rs\<close>: offers (heads and a Bloom filter), the computation of what a peer lacks
  with its ancestor closure, the merge loop with its retries, and snapshots. Messages are typed records;
  the MessagePack codec is third-party, and \<^verbatim>\<open>from_bytes\<close> is modelled from the decoded record and the byte
  length on.

  This theory holds the operations; their guarantees are in \<^verbatim>\<open>Silk_Convergence\<close>.
\<close>

section \<open>Messages\<close>

definition MAX_SYNC_BYTES :: nat where
  "MAX_SYNC_BYTES = 64 * 1024 * 1024"

definition MAX_ENTRIES_PER_MESSAGE :: nat where
  "MAX_ENTRIES_PER_MESSAGE = 100000"

definition PROTOCOL_VERSION :: u32 where
  "PROTOCOL_VERSION = 3"

record sync_offer =
  so_protocol_version :: u32
  so_heads :: "hash list"
  so_bloom :: bloom_filter
  so_physical_ms :: u64
  so_logical :: u32

record sync_payload =
  sp_entries :: "entry list"
  sp_need :: "hash list"

record snapshot =
  sn_entries :: "entry list"

datatype decode_failure =
    TooLarge nat
  | Undecodable
  | UnsupportedVersion u32
  | InvalidBloom bloom_error
  | TooManyEntries nat

fun insert_hashes :: "bloom_filter \<Rightarrow> entry list \<Rightarrow> bloom_filter option" where
  "insert_hashes b [] = Some b"
| "insert_hashes b (e # es) = (case bloom_insert b (en_hash e) of None \<Rightarrow> None | Some b' \<Rightarrow> insert_hashes b' es)"

definition offer_from_oplog :: "(nat \<Rightarrow> u64 \<times> u32) \<Rightarrow> oplog \<Rightarrow> u64 \<Rightarrow> u32 \<Rightarrow> sync_offer option" where
  "offer_from_oplog dims log physical_ms logical =
     (case entries_since log None of None \<Rightarrow> None
      | Some all \<Rightarrow>
        (case bloom_new dims (max (length all) 128) of None \<Rightarrow> None
         | Some b \<Rightarrow> (case insert_hashes b all of None \<Rightarrow> None
            | Some bloom \<Rightarrow>
              Some \<lparr>so_protocol_version = PROTOCOL_VERSION, so_heads = ol_heads log, so_bloom = bloom,
                    so_physical_ms = physical_ms, so_logical = logical\<rparr>)))"

definition offer_from_bytes :: "nat \<Rightarrow> sync_offer option \<Rightarrow> (decode_failure, sync_offer) result" where
  "offer_from_bytes len decoded =
     (if len > MAX_SYNC_BYTES then Inl (TooLarge len)
      else case decoded of None \<Rightarrow> Inl Undecodable
      | Some offer \<Rightarrow>
        if so_protocol_version offer > PROTOCOL_VERSION then Inl (UnsupportedVersion (so_protocol_version offer))
        else (case bloom_validate (so_bloom offer) of Inl e \<Rightarrow> Inl (InvalidBloom e) | Inr _ \<Rightarrow> Inr offer))"

definition payload_from_bytes :: "nat \<Rightarrow> sync_payload option \<Rightarrow> (decode_failure, sync_payload) result" where
  "payload_from_bytes len decoded =
     (if len > MAX_SYNC_BYTES then Inl (TooLarge len)
      else case decoded of None \<Rightarrow> Inl Undecodable
      | Some payload \<Rightarrow>
        if length (sp_entries payload) > MAX_ENTRIES_PER_MESSAGE then Inl (TooManyEntries (length (sp_entries payload)))
        else Inr payload)"

definition snapshot_from_oplog :: "oplog \<Rightarrow> snapshot option" where
  "snapshot_from_oplog log =
     (case entries_since log None of None \<Rightarrow> None | Some es \<Rightarrow> Some \<lparr>sn_entries = es\<rparr>)"

definition snapshot_from_bytes :: "nat \<Rightarrow> snapshot option \<Rightarrow> (decode_failure, snapshot) result" where
  "snapshot_from_bytes len decoded =
     (if len > MAX_SYNC_BYTES then Inl (TooLarge len)
      else case decoded of None \<Rightarrow> Inl Undecodable
      | Some snap \<Rightarrow>
        if length (sn_entries snap) > MAX_ENTRIES_PER_MESSAGE then Inl (TooManyEntries (length (sn_entries snap)))
        else Inr snap)"

section \<open>What to send\<close>

definition compute_need :: "oplog \<Rightarrow> hash list \<Rightarrow> hash list" where
  "compute_need log remote_heads = filter (\<lambda>h. oplog_get log h = None) remote_heads"

text \<open>Phase 1: the entries the filter says are missing.\<close>

fun bloom_misses :: "bloom_filter \<Rightarrow> entry list \<Rightarrow> hash list option" where
  "bloom_misses b [] = Some []"
| "bloom_misses b (e # es) =
     (case bloom_contains b (en_hash e) of None \<Rightarrow> None
      | Some c \<Rightarrow> (case bloom_misses b es of None \<Rightarrow> None
         | Some hs \<Rightarrow> Some (if c then hs else en_hash e # hs)))"

text \<open>Phase 2: the loop over the parents of one popped entry, then the worklist.\<close>

fun push_parents :: "oplog \<Rightarrow> hash list \<Rightarrow> hash list \<Rightarrow> hash list \<Rightarrow> hash list \<Rightarrow> hash list \<times> hash list" where
  "push_parents log remote_heads [] send queue = (send, queue)"
| "push_parents log remote_heads (p # ps) send queue =
     (if p \<notin> set send \<and> p \<notin> set remote_heads \<and> oplog_get log p \<noteq> None
      then push_parents log remote_heads ps (send @ [p]) (queue @ [p])
      else push_parents log remote_heads ps send queue)"

definition sendable_parents :: "oplog \<Rightarrow> hash list \<Rightarrow> hash \<Rightarrow> hash list" where
  "sendable_parents log remote_heads h =
     (case oplog_get log h of None \<Rightarrow> []
      | Some e \<Rightarrow> filter (\<lambda>p. p \<notin> set remote_heads \<and> oplog_get log p \<noteq> None) (en_next e))"

lemma push_parents_spec:
  assumes "push_parents log rh ps send queue = (send', queue')"
  shows "\<exists>new. send' = send @ new \<and> queue' = queue @ new \<and> distinct new \<and> set new \<inter> set send = {} \<and>
    set new = {p \<in> set ps. p \<notin> set rh \<and> oplog_get log p \<noteq> None} - set send"
  using assms
proof (induction log rh ps send queue arbitrary: send' queue' rule: push_parents.induct)
  case (2 log rh p ps send queue)
  show ?case
  proof (cases "p \<notin> set send \<and> p \<notin> set rh \<and> oplog_get log p \<noteq> None")
    case True
    then have "push_parents log rh ps (send @ [p]) (queue @ [p]) = (send', queue')" using "2.prems" by simp
    from "2.IH"(1) [OF True this] obtain new where new: "send' = (send @ [p]) @ new" "queue' = (queue @ [p]) @ new"
      "distinct new" "set new \<inter> set (send @ [p]) = {}"
      "set new = {p \<in> set ps. p \<notin> set rh \<and> oplog_get log p \<noteq> None} - set (send @ [p])" by blast
    have "set (p # new) = {q \<in> set (p # ps). q \<notin> set rh \<and> oplog_get log q \<noteq> None} - set send"
      using new(5) True by auto
    with new True show ?thesis by (intro exI [of _ "p # new"]) auto
  next
    case False
    then have "push_parents log rh ps send queue = (send', queue')" using "2.prems" by auto
    from "2.IH"(2) [OF False this] obtain new where new: "send' = send @ new" "queue' = queue @ new"
      "distinct new" "set new \<inter> set send = {}"
      "set new = {p \<in> set ps. p \<notin> set rh \<and> oplog_get log p \<noteq> None} - set send" by blast
    moreover have "{q \<in> set (p # ps). q \<notin> set rh \<and> oplog_get log q \<noteq> None} - set send =
        {q \<in> set ps. q \<notin> set rh \<and> oplog_get log q \<noteq> None} - set send" using False by auto
    ultimately show ?thesis by (intro exI [of _ new]) simp
  qed
qed auto

function closure_loop :: "oplog \<Rightarrow> hash list \<Rightarrow> hash list \<Rightarrow> hash list \<Rightarrow> hash list" where
  "closure_loop log remote_heads send [] = send"
| "closure_loop log remote_heads send (h # queue) =
     (case oplog_get log h of None \<Rightarrow> closure_loop log remote_heads send queue
      | Some e \<Rightarrow>
        (let (send', queue') = push_parents log remote_heads (en_next e) send queue
         in closure_loop log remote_heads send' queue'))"
  by pat_completeness auto

termination closure_loop
proof (relation "measure (\<lambda>(log, rh, send, q). card (UNIV - set send :: hash set) + length q)", goal_cases)
  case (3 log rh send h queue e sq send' queue')
  then have "push_parents log rh (en_next e) send queue = (send', queue')" by simp
  from push_parents_spec [OF this] obtain new where new: "send' = send @ new" "queue' = queue @ new" "distinct new"
    "set new \<inter> set send = {}" by blast
  then have "card (UNIV - set send') + length new = card (UNIV - set send)" using card_unvisited by metis
  with new(2) show ?case by simp
qed auto

definition entries_missing :: "oplog \<Rightarrow> sync_offer \<Rightarrow> sync_payload option" where
  "entries_missing log offer =
     (case entries_since log None of None \<Rightarrow> None
      | Some all_entries \<Rightarrow>
        (let need = compute_need log (so_heads offer) in
         if set (ol_heads log) \<subseteq> set (so_heads offer) then Some \<lparr>sp_entries = [], sp_need = need\<rparr>
         else case bloom_misses (so_bloom offer) all_entries of None \<Rightarrow> None
         | Some misses \<Rightarrow>
           (let send = fold hs_insert (filter (\<lambda>h. h \<notin> set (so_heads offer)) (ol_heads log)) (remdups misses);
                send_set = closure_loop log (so_heads offer) send send
            in Some \<lparr>sp_entries = filter (\<lambda>e. en_hash e \<in> set send_set) all_entries, sp_need = need\<rparr>)))"

section \<open>Merging\<close>

datatype merge_error = InvalidEntryHash hash | UnresolvableParents nat

text \<open>One pass over the batch: what was inserted and what has to be retried, or the early return.\<close>

fun merge_pass :: "content_hash \<Rightarrow> oplog \<Rightarrow> entry list \<Rightarrow> nat \<Rightarrow> entry list \<Rightarrow>
    oplog \<times> (merge_error, nat \<times> entry list) result" where
  "merge_pass H log [] inserted next_remaining = (log, Inr (inserted, next_remaining))"
| "merge_pass H log (e # es) inserted next_remaining =
     (case oplog_append H log e of
        (log', Inr True) \<Rightarrow> merge_pass H log' es (inserted + 1) next_remaining
      | (log', Inr False) \<Rightarrow> merge_pass H log' es inserted next_remaining
      | (log', Inl (MissingParent _)) \<Rightarrow> merge_pass H log' es inserted (next_remaining @ [e])
      | (log', Inl InvalidHash) \<Rightarrow> (log', Inl (InvalidEntryHash (en_hash e))))"

fun merge_loop :: "content_hash \<Rightarrow> nat \<Rightarrow> oplog \<Rightarrow> entry list \<Rightarrow> nat \<Rightarrow> oplog \<times> (merge_error, nat) result" where
  "merge_loop H 0 log remaining inserted = (log, Inr inserted)"
| "merge_loop H (Suc passes) log remaining inserted =
     (if remaining = [] then (log, Inr inserted)
      else case merge_pass H log remaining inserted [] of
        (log', Inl err) \<Rightarrow> (log', Inl err)
      | (log', Inr (inserted', next_remaining)) \<Rightarrow>
          if length next_remaining = length remaining then (log', Inl (UnresolvableParents (length remaining)))
          else merge_loop H passes log' next_remaining inserted')"

definition merge_entries :: "content_hash \<Rightarrow> oplog \<Rightarrow> entry list \<Rightarrow> oplog \<times> (merge_error, nat) result" where
  "merge_entries H log entries = merge_loop H (length entries + 1) log entries 0"

end
