(* ===== verification/Silk_Validation.thy ===== *)
theory Silk_Validation
  imports Silk_Ontology
begin

text \<open>
  What the validators of \<^verbatim>\<open>src/ontology.rs\<close> accept. The loops of the code (the bounded walk up the
  class hierarchy, the merge of inherited property definitions from the root down, the first-error
  scans) are shown to decide declarative notions: \<open>subclass_rel\<close> reachability, \<open>declared_property\<close> (the
  most specific declaration wins), \<open>conforms\<close> (the type and every enforced constraint hold) and
  \<open>node_admissible\<close> / \<open>edge_admissible\<close>.
\<close>

section \<open>Superclasses\<close>

definition subclass_rel :: "ontology \<Rightarrow> (string \<times> string) set" where
  "subclass_rel ont = {(x, y). parent_of ont x = Some y}"

lemma ancestors_loop_sound: "a \<in> set (ancestors_loop n ont t) \<Longrightarrow> (t, a) \<in> (subclass_rel ont)\<^sup>+"
proof (induction n arbitrary: t)
  case (Suc n)
  from Suc.prems obtain p where p: "(t, p) \<in> subclass_rel ont" "a = p \<or> a \<in> set (ancestors_loop n ont p)"
    by (cases "parent_of ont t") (auto simp: subclass_rel_def)
  with Suc.IH [of p] show ?case by (auto intro: trancl_into_trancl2)
qed simp

lemma ancestors_loop_complete:
  "(t, a) \<in> subclass_rel ont ^^ k \<Longrightarrow> 0 < k \<Longrightarrow> k \<le> n \<Longrightarrow> a \<in> set (ancestors_loop n ont t)"
proof (induction n arbitrary: t k)
  case (Suc n)
  then obtain j where k: "k = Suc j" by (cases k) auto
  with Suc.prems obtain p where p: "(t, p) \<in> subclass_rel ont" "(p, a) \<in> subclass_rel ont ^^ j"
    by (meson relpow_Suc_E2)
  show ?case
  proof (cases "j = 0")
    case True
    with p show ?thesis by (simp add: subclass_rel_def)
  next
    case False
    with Suc.IH [OF p(2)] Suc.prems k p show ?thesis by (simp add: subclass_rel_def)
  qed
qed simp

lemma subclass_rel_Domain: "(x, y) \<in> subclass_rel ont \<Longrightarrow> x \<in> hm_keys (on_node_types ont)"
  by (auto simp: subclass_rel_def parent_of_def split: option.splits dest: map_of_SomeD intro: rev_image_eqI)

lemma subclass_rel_right_unique: "(x, y) \<in> subclass_rel ont \<Longrightarrow> (x, z) \<in> subclass_rel ont \<Longrightarrow> y = z"
  by (simp add: subclass_rel_def)

text \<open>A shortest chain of superclasses never visits a type twice.\<close>

lemma subclass_short_path:
  assumes "(t, a) \<in> (subclass_rel ont)\<^sup>+"
  shows "\<exists>k. 0 < k \<and> k \<le> length (on_node_types ont) \<and> (t, a) \<in> subclass_rel ont ^^ k"
proof -
  let ?R = "subclass_rel ont"
  have "?R \<subseteq> (\<lambda>x. (x, the (parent_of ont x))) ` hm_keys (on_node_types ont)"
    using subclass_rel_Domain [of _ _ ont] by (force simp: subclass_rel_def)
  then have "finite ?R" by (rule finite_subset) simp
  then have "?R\<^sup>+ = (\<Union>n \<in> {n. 0 < n \<and> n \<le> card ?R}. ?R ^^ n)"
    by (rule trancl_finite_eq_relpow)
  then obtain k where "0 < k" "k \<le> card ?R" "(t, a) \<in> ?R ^^ k" using assms by auto
  moreover have "card ?R \<le> length (on_node_types ont)"
  proof -
    have "card ?R \<le> card (hm_keys (on_node_types ont))"
      by (rule card_inj_on_le [of fst])
        (auto intro!: inj_onI dest: subclass_rel_Domain subclass_rel_right_unique)
    also have "\<dots> \<le> length (on_node_types ont)"
      by (metis card_length length_map set_map)
    finally show ?thesis .
  qed
  ultimately show ?thesis by auto
qed

lemma ancestors_iff:
  assumes "length (on_node_types ont) \<le> 100"
  shows "parent \<in> set (ancestors ont child) \<longleftrightarrow> (child, parent) \<in> (subclass_rel ont)\<^sup>+"
  using ancestors_loop_sound ancestors_loop_complete subclass_short_path assms
  unfolding ancestors_def by (meson le_trans)

lemma is_subtype_of_iff:
  "length (on_node_types ont) \<le> 100 \<Longrightarrow>
    is_subtype_of ont child parent \<longleftrightarrow> (child, parent) \<in> (subclass_rel ont)\<^sup>*"
  by (auto simp: is_subtype_of_def rtrancl_eq_or_trancl ancestors_iff)

text \<open>
  C30. Subsumption is exactly the reflexive transitive closure of the declared parent relation, and the
  subclasses reported for a type are exactly the other declared types below it. The code walks at most
  100 parents to survive cyclic hierarchies; in an ontology of at most 100 node types the cut-off loses
  nothing, cycles included.
\<close>

theorem is_subtype_of_reachability:
  assumes "length (on_node_types ont) \<le> 100"
  shows "(is_subtype_of ont child parent \<longleftrightarrow> (child, parent) \<in> (subclass_rel ont)\<^sup>*) \<and>
    set (descendants ont parent) =
      {t \<in> hm_keys (on_node_types ont). t \<noteq> parent \<and> (t, parent) \<in> (subclass_rel ont)\<^sup>+}"
  using assms by (auto simp: is_subtype_of_iff descendants_def ancestors_iff)

definition demo_property :: property_def where
  "demo_property = \<lparr>pd_value_type = TString, pd_required = True, pd_description = None,
     pd_constraints = Some [(''max_length'', JNumber (PosInt 8))]\<rparr>"

definition demo_type :: "property_defs \<Rightarrow> string option \<Rightarrow> node_type_def" where
  "demo_type props parent = \<lparr>nd_description = None, nd_properties = props, nd_subtypes = None, nd_parent_type = parent\<rparr>"

definition demo_edge :: edge_type_def where
  "demo_edge = \<lparr>ed_description = None, ed_source_types = [''entity''], ed_target_types = [''server''], ed_properties = []\<rparr>"

text \<open>A schema with a class, a subclass and an edge type, on which the theorems are tried out.\<close>

definition demo_ontology :: ontology where
  "demo_ontology = \<lparr>
     on_node_types = [(''entity'', demo_type [(''name'', demo_property)] None),
                      (''server'', demo_type [] (Some ''entity''))],
     on_edge_types = [(''runs'', demo_edge)]\<rparr>"

text \<open>A regex engine that knows only literal patterns.\<close>

definition literal_regex :: regex_engine where
  "literal_regex p = Some (\<lambda>s. s = p)"

lemmas demo_defs = demo_ontology_def demo_type_def demo_property_def demo_edge_def

lemma demo_ancestors: "ancestors demo_ontology ''server'' = [''entity'']" "ancestors demo_ontology ''entity'' = []"
  by (simp_all add: ancestors_def numeral_nat parent_of_def demo_defs)

lemma demo_lookup:
  "bt_get (on_node_types demo_ontology) ''server'' = Some (demo_type [] (Some ''entity''))"
  "bt_get (on_edge_types demo_ontology) ''runs'' = Some demo_edge"
  "effective_properties demo_ontology ''server'' = [(''name'', demo_property)]"
  by (simp_all add: effective_properties_def demo_ancestors) (simp_all add: demo_ontology_def demo_type_def)

lemmas check_defs = check_enum_def check_numeric_bound_def check_string_length_def check_pattern_def
  number_as_u64_def check_declared_def value_matches_type_def validate_constraints_def validate_properties_def
  hm_contains_def

theorem is_subtype_of_reachability_witness:
  "is_subtype_of demo_ontology ''server'' ''entity'' \<and> (''server'', ''entity'') \<in> (subclass_rel demo_ontology)\<^sup>* \<and>
   ''server'' \<in> set (descendants demo_ontology ''entity'')"
  using is_subtype_of_reachability [of demo_ontology "''server''" "''entity''"]
  by (simp add: is_subtype_of_def descendants_def demo_ancestors) (simp add: demo_ontology_def)

section \<open>What the validators accept\<close>

definition bound_holds :: "silk_value \<Rightarrow> (string, json) btree_map \<Rightarrow> string \<Rightarrow> (f64 \<Rightarrow> f64 \<Rightarrow> bool) \<Rightarrow> bool" where
  "bound_holds v cs key within \<longleftrightarrow>
     (\<forall>j b n. bt_get cs key = Some j \<longrightarrow> json_as_f64 j = Some b \<longrightarrow> value_as_f64 v = Some n \<longrightarrow> within n b)"

definition length_holds :: "silk_value \<Rightarrow> (string, json) btree_map \<Rightarrow> string \<Rightarrow> (nat \<Rightarrow> nat \<Rightarrow> bool) \<Rightarrow> bool" where
  "length_holds v cs key within \<longleftrightarrow>
     (\<forall>b s. bt_get cs key = Some (JNumber (PosInt b)) \<longrightarrow> v = VString s \<longrightarrow> within (length s) (unat b))"

definition constraints_hold :: "regex_engine \<Rightarrow> silk_value \<Rightarrow> (string, json) btree_map \<Rightarrow> bool" where
  "constraints_hold rx v cs \<longleftrightarrow>
     (\<forall>allowed s. bt_get cs ''enum'' = Some (JArray allowed) \<longrightarrow> v = VString s \<longrightarrow> JString s \<in> set allowed) \<and>
     bound_holds v cs ''min'' (\<lambda>n b. \<not> f64_lt n b) \<and>
     bound_holds v cs ''max'' (\<lambda>n b. \<not> f64_lt b n) \<and>
     bound_holds v cs ''min_exclusive'' (\<lambda>n b. \<not> f64_le n b) \<and>
     bound_holds v cs ''max_exclusive'' (\<lambda>n b. \<not> f64_le b n) \<and>
     length_holds v cs ''min_length'' (\<lambda>len b. b \<le> len) \<and>
     length_holds v cs ''max_length'' (\<lambda>len b. len \<le> b) \<and>
     (\<forall>p s. bt_get cs ''pattern'' = Some (JString p) \<longrightarrow> v = VString s \<longrightarrow> (\<exists>m. rx p = Some m \<and> m s))"

definition conforms :: "regex_engine \<Rightarrow> silk_value \<Rightarrow> property_def \<Rightarrow> bool" where
  "conforms rx v d \<longleftrightarrow>
     (pd_value_type d = TAny \<or> value_matches_type v (pd_value_type d)) \<and>
     (\<forall>cs. pd_constraints d = Some cs \<longrightarrow> constraints_hold rx v cs)"

lemma check_enum_ok: "is_ok (check_enum tn pn v cs) \<longleftrightarrow>
  (\<forall>allowed s. bt_get cs ''enum'' = Some (JArray allowed) \<longrightarrow> v = VString s \<longrightarrow> JString s \<in> set allowed)"
proof -
  have *: "s \<in> set (List.map_filter json_as_str js) \<longleftrightarrow> JString s \<in> set js" for s js
    by (induction js) (auto simp: map_filter_simps json_as_str_def split: json.splits)
  show ?thesis
    by (auto simp: check_enum_def constraint_err_def Let_def *
        split: option.splits json.splits val_splits)
qed

lemma check_numeric_bound_ok:
  "is_ok (check_numeric_bound tn pn v cs key viol) \<longleftrightarrow> bound_holds v cs key (\<lambda>n b. \<not> viol n b)"
  by (auto simp: check_numeric_bound_def constraint_err_def bound_holds_def split: option.splits)

lemma check_string_length_ok:
  "is_ok (check_string_length tn pn v cs key viol) \<longleftrightarrow> length_holds v cs key (\<lambda>n b. \<not> viol n b)"
  by (auto simp: check_string_length_def constraint_err_def number_as_u64_def length_holds_def
      split: option.splits json.splits val_splits json_number.splits)

lemma check_pattern_ok: "is_ok (check_pattern rx tn pn v cs) \<longleftrightarrow>
  (\<forall>p s. bt_get cs ''pattern'' = Some (JString p) \<longrightarrow> v = VString s \<longrightarrow> (\<exists>m. rx p = Some m \<and> m s))"
  by (auto simp: check_pattern_def constraint_err_def split: option.splits json.splits val_splits)

lemmas check_ok = check_enum_ok check_numeric_bound_ok check_string_length_ok check_pattern_ok

lemma validate_constraints_ok: "is_ok (validate_constraints rx tn pn v cs) \<longleftrightarrow> constraints_hold rx v cs"
  unfolding validate_constraints_def constraints_hold_def is_ok_and_then check_ok not_less ..

lemma check_declared_ok: "is_ok (check_declared rx tn k v d) \<longleftrightarrow> conforms rx v d"
  by (auto simp: check_declared_def conforms_def validate_constraints_ok split: option.splits)

lemma validate_properties_ok:
  "is_ok (validate_properties rx tn defs vals mode) \<longleftrightarrow>
    (mode = Full \<longrightarrow> (\<forall>(k, d) \<in> set defs. pd_required d \<longrightarrow> k \<in> hm_keys vals)) \<and>
    (\<forall>(k, v) \<in> set vals. \<forall>d. bt_get defs k = Some d \<longrightarrow> conforms rx v d)"
  by (auto simp: validate_properties_def check_declared_ok hm_contains_iff split: option.splits if_splits)


section \<open>Inherited properties\<close>

definition ontology_wf :: "ontology \<Rightarrow> bool" where
  "ontology_wf ont \<longleftrightarrow>
     bt_wf (on_node_types ont) \<and> bt_wf (on_edge_types ont) \<and>
     (\<forall>(t, d) \<in> set (on_node_types ont). bt_wf (nd_properties d) \<and>
        (\<forall>subs. nd_subtypes d = Some subs \<longrightarrow> bt_wf subs \<and> (\<forall>(s, sd) \<in> set subs. bt_wf (sd_properties sd)))) \<and>
     (\<forall>(t, d) \<in> set (on_edge_types ont). bt_wf (ed_properties d))"

definition own_property :: "ontology \<Rightarrow> string \<Rightarrow> string \<Rightarrow> property_def option" where
  "own_property ont k t =
     (case bt_get (on_node_types ont) t of None \<Rightarrow> None | Some d \<Rightarrow> bt_get (nd_properties d) k)"

text \<open>The first type of the chain that declares the property decides.\<close>

fun first_declared :: "ontology \<Rightarrow> string \<Rightarrow> string list \<Rightarrow> property_def option" where
  "first_declared ont k [] = None"
| "first_declared ont k (t # ts) =
     (case own_property ont k t of Some d \<Rightarrow> Some d | None \<Rightarrow> first_declared ont k ts)"

lemma first_declared_append: "first_declared ont k (ts @ us) =
  (case first_declared ont k ts of Some d \<Rightarrow> Some d | None \<Rightarrow> first_declared ont k us)"
  by (induction ts) (auto split: option.splits)

lemma ontology_wf_nodeD:
  "ontology_wf ont \<Longrightarrow> bt_get (on_node_types ont) t = Some d \<Longrightarrow> bt_wf (nd_properties d)"
  by (force simp: ontology_wf_def dest: map_of_SomeD)

lemma ontology_wf_subtypeD:
  assumes "ontology_wf ont" "bt_get (on_node_types ont) t = Some d" "nd_subtypes d = Some subs"
    "bt_get subs st = Some sd"
  shows "bt_wf (sd_properties sd)"
proof -
  from assms(1,2) have "\<forall>subs. nd_subtypes d = Some subs \<longrightarrow> (\<forall>(s, sd) \<in> set subs. bt_wf (sd_properties sd))"
    by (force simp: ontology_wf_def dest: map_of_SomeD)
  with assms(3,4) show ?thesis by (auto dest: map_of_SomeD)
qed

lemma add_type_properties_lookup:
  assumes "ontology_wf ont" "bt_wf props"
  shows "bt_wf (add_type_properties ont props chain) \<and>
    bt_get (add_type_properties ont props chain) k
      = (case first_declared ont k (rev chain) of Some d \<Rightarrow> Some d | None \<Rightarrow> bt_get props k)"
  using assms(2)
proof (induction chain arbitrary: props)
  case (Cons t chain)
  let ?p = "case bt_get (on_node_types ont) t of None \<Rightarrow> props | Some d \<Rightarrow> bt_extend props (nd_properties d)"
  have wf: "bt_wf ?p" using Cons.prems by (auto simp: bt_wf_extend split: option.splits)
  have "bt_get ?p k = (case own_property ont k t of Some d \<Rightarrow> Some d | None \<Rightarrow> bt_get props k)"
    using Cons.prems ontology_wf_nodeD [OF assms(1)]
    by (auto simp: own_property_def bt_get_extend_wf split: option.splits)
  with Cons.IH [OF wf] show ?case
    by (auto simp: first_declared_append split: option.splits)
qed simp

lemma effective_properties_lookup:
  "ontology_wf ont \<Longrightarrow> bt_get (effective_properties ont t) k = first_declared ont k (t # ancestors ont t)"
  "ontology_wf ont \<Longrightarrow> bt_wf (effective_properties ont t)"
  using add_type_properties_lookup [of ont "[]" "rev (ancestors ont t) @ [t]" k]
  by (auto simp: effective_properties_def bt_wf_def split: option.splits)

definition declared_property :: "ontology \<Rightarrow> string \<Rightarrow> string option \<Rightarrow> string \<Rightarrow> property_def option" where
  "declared_property ont t st k =
     (case bt_get (on_node_types ont) t of None \<Rightarrow> None
      | Some d \<Rightarrow>
        (case (nd_subtypes d, st) of
           (Some subs, Some s) \<Rightarrow>
             (case bt_get subs s of
                Some sd \<Rightarrow> (case bt_get (sd_properties sd) k of
                             Some pd \<Rightarrow> Some pd | None \<Rightarrow> first_declared ont k (t # ancestors ont t))
              | None \<Rightarrow> first_declared ont k (t # ancestors ont t))
         | _ \<Rightarrow> first_declared ont k (t # ancestors ont t)))"

definition node_admissible :: "regex_engine \<Rightarrow> ontology \<Rightarrow> string \<Rightarrow> string option \<Rightarrow> properties \<Rightarrow> validation_mode \<Rightarrow> bool" where
  "node_admissible rx ont t st vals mode \<longleftrightarrow>
     (\<exists>d. bt_get (on_node_types ont) t = Some d \<and> (nd_subtypes d \<noteq> None \<longrightarrow> st \<noteq> None)) \<and>
     (mode = Full \<longrightarrow> (\<forall>k pd. declared_property ont t st k = Some pd \<longrightarrow> pd_required pd \<longrightarrow> k \<in> hm_keys vals)) \<and>
     (\<forall>(k, v) \<in> set vals. \<forall>pd. declared_property ont t st k = Some pd \<longrightarrow> conforms rx v pd)"

lemma validate_properties_ok_lookup:
  assumes "bt_wf defs"
  shows "is_ok (validate_properties rx tn defs vals mode) \<longleftrightarrow>
    (mode = Full \<longrightarrow> (\<forall>k d. bt_get defs k = Some d \<longrightarrow> pd_required d \<longrightarrow> k \<in> hm_keys vals)) \<and>
    (\<forall>(k, v) \<in> set vals. \<forall>d. bt_get defs k = Some d \<longrightarrow> conforms rx v d)"
  using assms by (auto simp: validate_properties_ok bt_wf_distinct map_of_eq_Some_iff dest!: map_of_SomeD)

lemma validate_node_mode_defs:
  assumes "ontology_wf ont" "bt_get (on_node_types ont) t = Some d" "nd_subtypes d = None \<or> st \<noteq> None"
  obtains defs where "bt_wf defs" "\<And>k. bt_get defs k = declared_property ont t st k"
    "validate_node_mode rx ont t st vals mode = validate_properties rx t defs vals mode"
proof (cases "\<exists>subs s sd. nd_subtypes d = Some subs \<and> st = Some s \<and> bt_get subs s = Some sd")
  case True
  then obtain subs s sd where *: "nd_subtypes d = Some subs" "st = Some s" "bt_get subs s = Some sd" by blast
  show ?thesis
    by (rule that [of "bt_extend (effective_properties ont t) (sd_properties sd)"])
      (use assms * ontology_wf_subtypeD [OF assms(1,2) *(1,3)] in
        \<open>simp_all add: bt_wf_extend effective_properties_lookup bt_get_extend_wf
           declared_property_def validate_node_mode_def split: option.splits\<close>)
next
  case False
  show ?thesis
    by (rule that [of "effective_properties ont t"])
      (use assms False in \<open>auto simp: effective_properties_lookup declared_property_def
          validate_node_mode_def Let_def split: option.splits\<close>)
qed

text \<open>
  C24. The node validator accepts exactly the admissible nodes: the type is declared, a type with
  subtypes is given one (any subtype is taken, also an undeclared one and one of a type without subtypes:
  decision D-026 in the comments of the match, against the doc comment of \<^verbatim>\<open>validate_node\<close>), every property
  required by the type, an ancestor (of those that \<open>ancestors\<close> lists, at most 100) or the subtype is present
  (unless required checks are skipped), and every given value of a declared property has the declared type
  and satisfies its constraints, where the most specific declaration of the property counts. The maps of
  the ontology are ordered, as a \<^verbatim>\<open>BTreeMap\<close> is (\<open>ontology_wf\<close>).
\<close>

theorem validate_node_accepts:
  assumes "ontology_wf ont"
  shows "validate_node_mode rx ont t st vals mode = Inr () \<longleftrightarrow> node_admissible rx ont t st vals mode"
proof (cases "\<exists>d. bt_get (on_node_types ont) t = Some d \<and> (nd_subtypes d = None \<or> st \<noteq> None)")
  case True
  then obtain d where d: "bt_get (on_node_types ont) t = Some d" "nd_subtypes d = None \<or> st \<noteq> None"
    by blast
  obtain defs where "bt_wf defs" "\<And>k. bt_get defs k = declared_property ont t st k"
    "validate_node_mode rx ont t st vals mode = validate_properties rx t defs vals mode"
    using validate_node_mode_defs [OF assms d] by metis
  with d show ?thesis
    by (auto simp: validate_properties_ok_lookup node_admissible_def simp flip: is_ok_unit)
next
  case False
  then show ?thesis
    by (auto simp: validate_node_mode_def node_admissible_def Let_def split: option.splits)
qed

theorem validate_node_accepts_witness:
  "ontology_wf demo_ontology \<and>
   node_admissible literal_regex demo_ontology ''server'' None [(''name'', VString ''web'')] Full \<and>
   \<not> node_admissible literal_regex demo_ontology ''server'' None [(''port'', VInt 80)] Full"
proof -
  have wf: "ontology_wf demo_ontology" by (simp add: ontology_wf_def demo_defs bt_wf_def)
  have "validate_node_mode literal_regex demo_ontology ''server'' None [(''name'', VString ''web'')] Full = Inr ()"
    by (simp add: validate_node_mode_def demo_lookup demo_type_def demo_property_def check_defs)
  moreover have "validate_node_mode literal_regex demo_ontology ''server'' None [(''port'', VInt 80)] Full \<noteq> Inr ()"
    by (simp add: validate_node_mode_def demo_lookup demo_type_def demo_property_def check_defs)
  ultimately show ?thesis
    using wf validate_node_accepts [OF wf] by blast
qed

section \<open>Edges\<close>

definition edge_admissible :: "regex_engine \<Rightarrow> ontology \<Rightarrow> string \<Rightarrow> string \<Rightarrow> string \<Rightarrow> properties \<Rightarrow> validation_mode \<Rightarrow> bool" where
  "edge_admissible rx ont e s t vals mode \<longleftrightarrow>
     (\<exists>d. bt_get (on_edge_types ont) e = Some d \<and>
        (\<exists>s' \<in> set (ed_source_types d). (s, s') \<in> (subclass_rel ont)\<^sup>*) \<and>
        (\<exists>t' \<in> set (ed_target_types d). (t, t') \<in> (subclass_rel ont)\<^sup>*) \<and>
        (mode = Full \<longrightarrow> (\<forall>k pd. bt_get (ed_properties d) k = Some pd \<longrightarrow> pd_required pd \<longrightarrow> k \<in> hm_keys vals)) \<and>
        (\<forall>(k, v) \<in> set vals. \<forall>pd. bt_get (ed_properties d) k = Some pd \<longrightarrow> conforms rx v pd))"

lemma ontology_wf_edgeD:
  "ontology_wf ont \<Longrightarrow> bt_get (on_edge_types ont) t = Some d \<Longrightarrow> bt_wf (ed_properties d)"
  by (force simp: ontology_wf_def dest: map_of_SomeD)

lemma validate_edge_mode_iff:
  assumes "ontology_wf ont" "length (on_node_types ont) \<le> 100"
  shows "validate_edge_mode rx ont e s t vals mode = Inr () \<longleftrightarrow> edge_admissible rx ont e s t vals mode"
proof (cases "bt_get (on_edge_types ont) e")
  case (Some d)
  have "validate_properties rx e (ed_properties d) vals mode = Inr () \<longleftrightarrow>
    (mode = Full \<longrightarrow> (\<forall>k pd. bt_get (ed_properties d) k = Some pd \<longrightarrow> pd_required pd \<longrightarrow> k \<in> hm_keys vals)) \<and>
    (\<forall>(k, v) \<in> set vals. \<forall>pd. bt_get (ed_properties d) k = Some pd \<longrightarrow> conforms rx v pd)"
    using validate_properties_ok_lookup [OF ontology_wf_edgeD [OF assms(1) Some]] by (simp add: is_ok_unit)
  with Some assms(2) show ?thesis
    by (simp add: validate_edge_mode_def edge_admissible_def list_ex_iff is_subtype_of_iff)
qed (simp add: validate_edge_mode_def edge_admissible_def)

text \<open>
  C25. The edge validator accepts exactly the admissible edges: the edge type is declared, the source
  and the target node type are equal to, or transitively subclasses of, one of the declared endpoint
  types, and the properties meet their declarations. The ontology has at most 100 node types, so that the
  walk along parent types is not cut off before it reaches a declared endpoint type.
\<close>

theorem validate_edge_accepts:
  assumes "ontology_wf ont" and "length (on_node_types ont) \<le> 100"
  shows "validate_edge_mode rx ont e s t vals mode = Inr () \<longleftrightarrow> edge_admissible rx ont e s t vals mode"
  using assms by (rule validate_edge_mode_iff)

theorem validate_edge_accepts_witness:
  "edge_admissible literal_regex demo_ontology ''runs'' ''server'' ''server'' [] Full \<and>
   \<not> edge_admissible literal_regex demo_ontology ''runs'' ''server'' ''entity'' [] Full"
proof -
  have wf: "ontology_wf demo_ontology" "length (on_node_types demo_ontology) \<le> 100"
    by (simp_all add: ontology_wf_def demo_defs bt_wf_def)
  have "validate_edge_mode literal_regex demo_ontology ''runs'' ''server'' ''server'' [] Full = Inr ()"
    "validate_edge_mode literal_regex demo_ontology ''runs'' ''server'' ''entity'' [] Full \<noteq> Inr ()"
    by (simp_all add: validate_edge_mode_def demo_lookup demo_edge_def is_subtype_of_def demo_ancestors
        validate_properties_def)
  then show ?thesis using validate_edge_accepts [OF wf] by blast
qed

section \<open>Where the checks are weaker than they look\<close>

text \<open>
  An update of a single property is checked against the node's own type and subtype only, not
  against what it inherits: there is an ontology and an admissible node for which the update of an
  inherited property is accepted although the node with the new value is rejected by the node
  validator.
\<close>

theorem property_update_ignores_inherited:
  "\<exists>ont node_type key old new.
     validate_node rx ont node_type None [(key, old)] = Inr () \<and>
     validate_property_update rx ont node_type None key new = Inr () \<and>
     validate_node rx ont node_type None [(key, new)] \<noteq> Inr ()"
proof (intro exI conjI)
  show "validate_node rx demo_ontology ''server'' None [(''name'', VString ''web'')] = Inr ()"
    by (simp add: validate_node_def validate_node_mode_def demo_lookup demo_type_def demo_property_def check_defs)
  show "validate_property_update rx demo_ontology ''server'' None ''name'' (VInt 7) = Inr ()"
    by (simp add: validate_property_update_def demo_lookup demo_type_def)
  show "validate_node rx demo_ontology ''server'' None [(''name'', VInt 7)] \<noteq> Inr ()"
    by (simp add: validate_node_def validate_node_mode_def demo_lookup demo_type_def demo_property_def check_defs)
qed

text \<open>A type that declares no subtypes, and a node of it that is accepted with one.\<close>

theorem undeclared_subtype_accepted:
  "\<exists>ont node_type d subtype vals. bt_get (on_node_types ont) node_type = Some d \<and> nd_subtypes d = None \<and>
     validate_node rx ont node_type (Some subtype) vals = Inr ()"
proof (intro exI conjI)
  show "bt_get (on_node_types demo_ontology) ''server'' = Some (demo_type [] (Some ''entity''))" "nd_subtypes (demo_type [] (Some ''entity'')) = None"
    by (simp_all add: demo_lookup demo_type_def)
  show "validate_node rx demo_ontology ''server'' (Some ''x'') [(''name'', VString ''web'')] = Inr ()"
    by (simp add: validate_node_def validate_node_mode_def demo_lookup demo_type_def demo_property_def check_defs)
qed

text \<open>
  Outside the exact range the numeric constraints round: the integer \<open>2 ^ 53 + 1\<close> satisfies
  \<^verbatim>\<open>max = 2^53\<close>, because both become the same double.
\<close>

theorem numeric_bound_rounds:
  "check_numeric_bound tn pn (VInt (2 ^ 53 + 1)) [(''max'', JNumber (PosInt (2 ^ 53)))] ''max'' (\<lambda>n b. f64_lt b n) = Inr ()"
proof -
  have "log2 9007199254740992 = 53" "log2 9007199254740993 = 53"
    by (simp_all add: log2.simps)
  then have "f64_of_int 9007199254740993 = f64_of_int 9007199254740992"
    by (simp add: f64_of_int_def magnitude_of_nat_def Let_def)
  then show ?thesis
    by (simp add: check_numeric_bound_def json_as_f64_def number_as_f64_def value_as_f64_def f64_lt_def)
qed

end
