(* ===== verification/Silk_Extension.thy ===== *)
theory Silk_Extension
  imports Silk_Validation
begin

text \<open>
  Evolution of the schema, \<^verbatim>\<open>src/ontology.rs\<close>: what \<^verbatim>\<open>merge_extension\<close> keeps of an ontology, and the
  compatibility verdict two peers reach from content hash and fingerprint. The content hash is a
  BLAKE3 hash of a JSON rendering, both made by third-party crates: \<open>json_hash\<close> and \<open>render\<close> are
  parameters.
\<close>

section \<open>Fingerprint and compatibility\<close>

datatype compatibility = Identical | Superset | Subset | Divergent

definition value_type_lower :: "value_type \<Rightarrow> string" where
  "value_type_lower t = (case t of TString \<Rightarrow> ''string'' | TInt \<Rightarrow> ''int'' | TFloat \<Rightarrow> ''float'' | TBool \<Rightarrow> ''bool''
     | TList \<Rightarrow> ''list'' | TMap \<Rightarrow> ''map'' | TAny \<Rightarrow> ''any'')"

definition property_fact :: "string \<Rightarrow> string \<Rightarrow> property_def \<Rightarrow> string" where
  "property_fact prefix prop_name prop_def =
     prefix @ '':'' @ prop_name @ '':'' @ value_type_lower (pd_value_type prop_def) @ '':'' @
     (if pd_required prop_def then ''required'' else ''optional'')"

definition fingerprint_constraints :: "(json \<Rightarrow> string) \<Rightarrow> string \<Rightarrow> string \<Rightarrow> property_def \<Rightarrow> string list" where
  "fingerprint_constraints render type_name prop_name prop_def =
     (case pd_constraints prop_def of None \<Rightarrow> []
      | Some constraints \<Rightarrow>
        concat (map (\<lambda>(cname, cvalue).
          let fact = (\<lambda>c v. ''constraint:'' @ type_name @ '':'' @ prop_name @ '':'' @ c @ '':'' @ v) in
          case cvalue of
            JArray items \<Rightarrow>
              if cname = ''enum''
              then map (\<lambda>val. fact ''enum'' (case json_as_str val of Some s \<Rightarrow> s | None \<Rightarrow> render val)) items
              else [fact cname (render cvalue)]
          | other \<Rightarrow> [fact cname (render other)]) constraints))"

definition node_type_facts :: "(json \<Rightarrow> string) \<Rightarrow> ontology \<Rightarrow> string \<times> node_type_def \<Rightarrow> string list" where
  "node_type_facts render ont = (\<lambda>(type_name, type_def).
     [''type:'' @ type_name] @
     (case nd_parent_type type_def of Some parent \<Rightarrow> [''type:'' @ type_name @ '':parent:'' @ parent] | None \<Rightarrow> []) @
     concat (map (\<lambda>(prop_name, prop_def).
         property_fact (''prop:'' @ type_name) prop_name prop_def #
         fingerprint_constraints render type_name prop_name prop_def) (effective_properties ont type_name)) @
     (case nd_subtypes type_def of None \<Rightarrow> []
      | Some subtypes \<Rightarrow>
        concat (map (\<lambda>(sub_name, sub_def).
          (''subtype:'' @ type_name @ '':'' @ sub_name) #
          concat (map (\<lambda>(prop_name, prop_def).
            property_fact (''subprop:'' @ type_name @ '':'' @ sub_name) prop_name prop_def #
            fingerprint_constraints render (type_name @ '':'' @ sub_name) prop_name prop_def)
            (sd_properties sub_def))) subtypes)))"

definition edge_type_facts :: "(json \<Rightarrow> string) \<Rightarrow> string \<times> edge_type_def \<Rightarrow> string list" where
  "edge_type_facts render = (\<lambda>(edge_name, edge_def).
     [''edge:'' @ edge_name] @
     map (\<lambda>src. ''edge:'' @ edge_name @ '':src:'' @ src) (ed_source_types edge_def) @
     map (\<lambda>tgt. ''edge:'' @ edge_name @ '':tgt:'' @ tgt) (ed_target_types edge_def) @
     concat (map (\<lambda>(prop_name, prop_def).
       property_fact (''edgeprop:'' @ edge_name) prop_name prop_def #
       fingerprint_constraints render (''edge:'' @ edge_name) prop_name prop_def) (ed_properties edge_def)))"

definition fingerprint :: "(json \<Rightarrow> string) \<Rightarrow> ontology \<Rightarrow> string hash_set" where
  "fingerprint render ont =
     remdups (''fingerprint_version:2'' #
       concat (map (node_type_facts render ont) (on_node_types ont)) @
       concat (map (edge_type_facts render) (on_edge_types ont)))"

definition check_compatibility :: "(ontology \<Rightarrow> hash) \<Rightarrow> (json \<Rightarrow> string) \<Rightarrow> ontology \<Rightarrow> hash \<Rightarrow> string hash_set \<Rightarrow>
    compatibility" where
  "check_compatibility json_hash render ont foreign_hash foreign_fingerprint =
     (if json_hash ont = foreign_hash then Identical
      else let my_fp = fingerprint render ont in
        if set my_fp = set foreign_fingerprint then Divergent
        else if set foreign_fingerprint \<subseteq> set my_fp then Superset
        else if set my_fp \<subseteq> set foreign_fingerprint then Subset
        else Divergent)"

section \<open>What an extension keeps\<close>

definition property_kept :: "property_def \<Rightarrow> property_def \<Rightarrow> bool" where
  "property_kept pd pd' \<longleftrightarrow> pd' = pd \<or> pd' = pd\<lparr>pd_required := False\<rparr>"

definition node_type_kept :: "node_type_def \<Rightarrow> node_type_def \<Rightarrow> bool" where
  "node_type_kept d d' \<longleftrightarrow>
     nd_parent_type d' = nd_parent_type d \<and>
     (\<forall>k pd. bt_get (nd_properties d) k = Some pd \<longrightarrow>
        (\<exists>pd'. bt_get (nd_properties d') k = Some pd' \<and> property_kept pd pd')) \<and>
     (\<forall>subs st sd. nd_subtypes d = Some subs \<longrightarrow> bt_get subs st = Some sd \<longrightarrow>
        (\<exists>subs'. nd_subtypes d' = Some subs' \<and> bt_get subs' st = Some sd))"

definition edge_type_kept :: "edge_type_def \<Rightarrow> edge_type_def \<Rightarrow> bool" where
  "edge_type_kept d d' \<longleftrightarrow>
     set (ed_source_types d) \<subseteq> set (ed_source_types d') \<and>
     set (ed_target_types d) \<subseteq> set (ed_target_types d') \<and>
     (\<forall>k pd. bt_get (ed_properties d) k = Some pd \<longrightarrow> bt_get (ed_properties d') k = Some pd)"

definition ontology_extends :: "ontology \<Rightarrow> ontology \<Rightarrow> bool" where
  "ontology_extends ont ont' \<longleftrightarrow>
     (\<forall>t d. bt_get (on_node_types ont) t = Some d \<longrightarrow>
        (\<exists>d'. bt_get (on_node_types ont') t = Some d' \<and> node_type_kept d d')) \<and>
     (\<forall>t d. bt_get (on_edge_types ont) t = Some d \<longrightarrow>
        (\<exists>d'. bt_get (on_edge_types ont') t = Some d' \<and> edge_type_kept d d'))"

lemma kept_refl [simp]: "property_kept pd pd" "node_type_kept d d" "edge_type_kept e e" "ontology_extends ont ont"
  by (simp_all add: property_kept_def node_type_kept_def edge_type_kept_def ontology_extends_def)

lemma parent_of_extends: "ontology_extends ont ont' \<Longrightarrow> parent_of ont t = Some p \<Longrightarrow> parent_of ont' t = Some p"
  by (force simp: ontology_extends_def node_type_kept_def parent_of_def split: option.splits)

lemma ancestors_loop_extends:
  "ontology_extends ont ont' \<Longrightarrow> set (ancestors_loop n ont t) \<subseteq> set (ancestors_loop n ont' t)"
proof (induction n arbitrary: t)
  case (Suc n)
  then show ?case
    by (cases "parent_of ont t") (auto simp: parent_of_extends)
qed simp

lemma is_subtype_of_extends: "ontology_extends ont ont' \<Longrightarrow> is_subtype_of ont a b \<Longrightarrow> is_subtype_of ont' a b"
  using ancestors_loop_extends [of ont ont' 100 a] by (auto simp: is_subtype_of_def ancestors_def)

lemma validate_properties_Nil [simp]: "validate_properties rx tn defs [] SkipRequired = Inr ()"
  by (simp add: validate_properties_def)

lemma endpoints_extends:
  assumes "ontology_extends ont ont'" "validate_edge_mode rx ont et s t [] SkipRequired = Inr ()"
  shows "validate_edge_mode rx ont' et s t [] SkipRequired = Inr ()"
proof -
  from assms(2) obtain d where d: "bt_get (on_edge_types ont) et = Some d"
    "list_ex (is_subtype_of ont s) (ed_source_types d)" "list_ex (is_subtype_of ont t) (ed_target_types d)"
    by (auto simp: validate_edge_mode_def split: option.splits if_splits)
  obtain d' where d': "bt_get (on_edge_types ont') et = Some d'" "edge_type_kept d d'"
    using assms(1) d(1) unfolding ontology_extends_def by blast
  have "list_ex (is_subtype_of ont' s) (ed_source_types d')" "list_ex (is_subtype_of ont' t) (ed_target_types d')"
    using d(2,3) d'(2) is_subtype_of_extends [OF assms(1)] 
    unfolding list_ex_iff edge_type_kept_def by blast+
  with d' show ?thesis by (simp add: validate_edge_mode_def)
qed

definition extension_wf :: "ontology_extension \<Rightarrow> bool" where
  "extension_wf ext \<longleftrightarrow>
     bt_wf (ex_node_types ext) \<and> bt_wf (ex_edge_types ext) \<and>
     bt_wf (ex_node_type_updates ext) \<and> bt_wf (ex_edge_type_updates ext) \<and>
     (\<forall>(t, u) \<in> set (ex_node_type_updates ext). bt_wf (nu_add_properties u) \<and> bt_wf (nu_add_subtypes u)) \<and>
     (\<forall>(t, u) \<in> set (ex_edge_type_updates ext). bt_wf (eu_add_properties u))"

lemma modify_entries_lookup:
  "distinct (map fst us) \<Longrightarrow> bt_get (modify_entries f us m) k =
    (case map_of us k of None \<Rightarrow> bt_get m k | Some u \<Rightarrow> map_option (f u) (bt_get m k))"
proof (induction us arbitrary: m)
  case (Cons nu us)
  obtain n u where [simp]: "nu = (n, u)" by (cases nu)
  have "map_of us n = None" using Cons.prems by (simp add: map_of_eq_None_iff)
  then show ?case
    using Cons by (auto simp: bt_get_insert split: option.splits)
qed simp

lemma extend_new_lookup:
  assumes "bt_wf m" "bt_wf m'" "\<forall>(k, v) \<in> set m'. \<not> hm_contains m k" "bt_get m k = Some v"
  shows "bt_get (bt_extend m m') k = Some v"
proof -
  have "k \<notin> fst ` set m'"
    using assms(3,4) by (fastforce simp: hm_contains_def)
  then have "bt_get m' k = None" by (simp add: map_of_eq_None_iff)
  with assms show ?thesis by (simp add: bt_get_extend_wf)
qed

lemma relax_properties_lookup:
  "bt_get props k = Some pd \<Longrightarrow> \<exists>pd'. bt_get (relax_properties props ps) k = Some pd' \<and> property_kept pd pd'"
proof (induction ps arbitrary: props pd)
  case (Cons p ps)
  show ?case
  proof (cases "p = k")
    case True
    with Cons.IH [of "bt_insert k (pd\<lparr>pd_required := False\<rparr>) props" "pd\<lparr>pd_required := False\<rparr>"] Cons.prems
    show ?thesis by (auto simp: bt_get_insert property_kept_def)
  next
    case False
    with Cons.IH [of "case bt_get props p of None \<Rightarrow> props | Some d \<Rightarrow> bt_insert p (d\<lparr>pd_required := False\<rparr>) props" pd]
      Cons.prems show ?thesis by (auto simp: bt_get_insert split: option.splits)
  qed
qed simp


text \<open>One validated update keeps what the type had.\<close>

lemma update_node_type_kept:
  assumes "bt_wf (nd_properties d)" "\<And>subs. nd_subtypes d = Some subs \<Longrightarrow> bt_wf subs"
    and "bt_wf (nu_add_properties u)" "bt_wf (nu_add_subtypes u)"
    and "is_ok (check_node_type_update ont (t, u))" "bt_get (on_node_types ont) t = Some d"
  shows "node_type_kept d (update_node_type u d)"
proof -
  have new: "\<forall>(k, v) \<in> set (nu_add_properties u). \<not> hm_contains (nd_properties d) k"
    using assms(5,6) by (auto simp: check_node_type_update_def split: if_splits)
  have "\<exists>pd'. bt_get (nd_properties (update_node_type u d)) k = Some pd' \<and> property_kept pd pd'"
    if "bt_get (nd_properties d) k = Some pd" for k pd
    using relax_properties_lookup [OF extend_new_lookup [OF assms(1,3) new that]]
    by (simp add: update_node_type_def)
  moreover have "\<exists>subs'. nd_subtypes (update_node_type u d) = Some subs' \<and> bt_get subs' st = Some sd"
    if "nd_subtypes d = Some subs" "bt_get subs st = Some sd" for subs st sd
  proof (cases "nu_add_subtypes u = []")
    case False
    have "\<forall>(k, v) \<in> set (nu_add_subtypes u). \<not> hm_contains subs k"
      using assms(5,6) False that(1) by (auto simp: check_node_type_update_def split: if_splits)
    then have "bt_get (bt_extend subs (nu_add_subtypes u)) st = Some sd"
      by (rule extend_new_lookup [OF assms(2) [OF that(1)] assms(4)]) (rule that(2))
    with False that(1) show ?thesis by (simp add: update_node_type_def)
  qed (simp add: update_node_type_def that)
  ultimately show ?thesis
    by (simp add: node_type_kept_def) (simp add: update_node_type_def)
qed

lemma widen_edge_type_kept:
  assumes "bt_wf (ed_properties d)" "bt_wf (eu_add_properties u)"
    and "is_ok (check_edge_type_update ont ext (e, u))" "bt_get (on_edge_types ont) e = Some d"
  shows "edge_type_kept d (widen_edge_type u d)"
proof -
  have "\<forall>(k, v) \<in> set (eu_add_properties u). \<not> hm_contains (ed_properties d) k"
    using assms(3,4) by (auto simp: check_edge_type_update_def split: if_splits)
  then show ?thesis
    using extend_new_lookup [OF assms(1,2)] by (simp add: edge_type_kept_def widen_edge_type_def)
qed

lemma ontology_wf_subtypes:
  "ontology_wf ont \<Longrightarrow> bt_get (on_node_types ont) t = Some d \<Longrightarrow> nd_subtypes d = Some subs \<Longrightarrow> bt_wf subs"
  by (force simp: ontology_wf_def dest: map_of_SomeD)

lemma check_before_mutation_ok:
  assumes "is_ok (check_before_mutation ont ext)"
  shows "\<forall>(k, v) \<in> set (ex_node_types ext). \<not> hm_contains (on_node_types ont) k"
    and "\<forall>(k, v) \<in> set (ex_edge_types ext). \<not> hm_contains (on_edge_types ont) k"
    and "\<forall>tu \<in> set (ex_node_type_updates ext). is_ok (check_node_type_update ont tu)"
  using assms by (auto simp: check_before_mutation_def split: if_splits)

lemma ontology_extendsI:
  assumes "\<And>t d. bt_get (on_node_types ont) t = Some d \<Longrightarrow>
      \<exists>d'. bt_get (on_node_types ont') t = Some d' \<and> node_type_kept d d'"
    and "\<And>t d. bt_get (on_edge_types ont) t = Some d \<Longrightarrow>
      \<exists>d'. bt_get (on_edge_types ont') t = Some d' \<and> edge_type_kept d d'"
  shows "ontology_extends ont ont'"
  using assms unfolding ontology_extends_def by blast

lemma nodes_added_extends:
  assumes "ontology_wf ont" "extension_wf ext" "is_ok (check_before_mutation ont ext)"
  shows "ontology_extends ont (ont\<lparr>on_node_types := bt_extend (on_node_types ont) (ex_node_types ext)\<rparr>)"
proof -
  have "bt_get (bt_extend (on_node_types ont) (ex_node_types ext)) t = Some d"
    if "bt_get (on_node_types ont) t = Some d" for t d
    using assms(1,2) check_before_mutation_ok(1) [OF assms(3)] that
    by (intro extend_new_lookup) (auto simp: ontology_wf_def extension_wf_def)
  then show ?thesis by (auto intro!: ontology_extendsI)
qed

lemma modified_lookup:
  assumes "distinct (map fst us)" "bt_get m t = Some d" "\<And>u. (t, u) \<in> set us \<Longrightarrow> P d (f u d)" "P d d"
  shows "\<exists>d'. bt_get (modify_entries f us m) t = Some d' \<and> P d d'"
  using assms by (auto simp: modify_entries_lookup split: option.splits dest: map_of_SomeD)

lemma updates_extends:
  assumes wf: "ontology_wf ont" "extension_wf ext" and ok: "is_ok (check_before_mutation ont ext)"
    and ont1: "ont1 = ont\<lparr>on_node_types := bt_extend (on_node_types ont) (ex_node_types ext)\<rparr>"
    and ok1: "for_each_ok (check_edge_type_update ont1 ext) (ex_edge_type_updates ext) = Inr ()"
  shows "ontology_extends ont (ont1\<lparr>
    on_edge_types := modify_entries widen_edge_type (ex_edge_type_updates ext)
      (bt_extend (on_edge_types ont1) (ex_edge_types ext)),
    on_node_types := modify_entries update_node_type (ex_node_type_updates ext) (on_node_types ont1)\<rparr>)"
proof (rule ontology_extendsI, goal_cases)
  case (1 t d)
  have "bt_get (on_node_types ont1) t = Some d"
    unfolding ont1 using wf check_before_mutation_ok(1) [OF ok] 1
    by (auto intro!: extend_new_lookup simp: ontology_wf_def extension_wf_def)
  moreover have "node_type_kept d (update_node_type u d)" if "(t, u) \<in> set (ex_node_type_updates ext)" for u
  proof (rule update_node_type_kept)
    show "bt_wf (nu_add_properties u)" "bt_wf (nu_add_subtypes u)"
      using wf(2) that by (auto simp: extension_wf_def)
  qed (use wf(1) 1 that check_before_mutation_ok(3) [OF ok] in
      \<open>auto intro: ontology_wf_nodeD ontology_wf_subtypes\<close>)
  ultimately show ?case
    using wf(2) by (auto intro!: modified_lookup simp: extension_wf_def bt_wf_distinct)
next
  case (2 e d)
  have "bt_get (bt_extend (on_edge_types ont1) (ex_edge_types ext)) e = Some d"
    unfolding ont1 using wf check_before_mutation_ok(2) [OF ok] 2
    by (auto intro!: extend_new_lookup simp: ontology_wf_def extension_wf_def)
  moreover have "edge_type_kept d (widen_edge_type u d)" if "(e, u) \<in> set (ex_edge_type_updates ext)" for u
  proof (rule widen_edge_type_kept)
    show "bt_wf (eu_add_properties u)" using wf(2) that by (auto simp: extension_wf_def)
    show "is_ok (check_edge_type_update ont1 ext (e, u))" using is_ok_for_each_ok ok1 that by (metis is_ok_unit)
    show "bt_get (on_edge_types ont1) e = Some d" using 2 by (simp add: ont1)
  qed (use wf(1) 2 in \<open>auto intro: ontology_wf_edgeD\<close>)
  ultimately show ?case
    using wf(2) by (auto intro!: modified_lookup simp: extension_wf_def bt_wf_distinct)
qed

lemma is_ok_Inr: "r = Inr u \<Longrightarrow> is_ok r" by simp

lemma merge_extension_extends:
  assumes "ontology_wf ont" "extension_wf ext"
  shows "ontology_extends ont (fst (merge_extension ont ext))"
  using nodes_added_extends [OF assms] updates_extends [OF assms]
  by (auto simp: merge_extension_def Let_def is_ok_Inr split: sum.splits)

text \<open>
  C26. An extension never takes anything away, whether it succeeds or fails half way: every node type
  keeps its parent, its properties (at most turned from required to optional) and its subtypes, every
  edge type keeps its endpoint types and properties, so an edge whose endpoints were allowed stays
  allowed; and an extension that succeeds leaves an ontology that passes its own consistency check.
\<close>

theorem merge_extension_monotone:
  assumes "ontology_wf ont" and "extension_wf ext" and "merge_extension ont ext = (ont', r)"
  shows "ontology_extends ont ont' \<and>
    (validate_edge_mode rx ont e s t [] SkipRequired = Inr () \<longrightarrow>
       validate_edge_mode rx ont' e s t [] SkipRequired = Inr ()) \<and>
    (r = Inr () \<longrightarrow> validate_self ont' = Inr ())"
proof -
  have "ontology_extends ont ont'" using merge_extension_extends [OF assms(1,2)] assms(3) by simp
  moreover have "validate_self ont' = Inr ()" if "r = Inr ()"
    using assms(3) that by (auto simp: merge_extension_def Let_def split: sum.splits)
  ultimately show ?thesis using endpoints_extends by blast
qed

definition demo_extension :: ontology_extension where
  "demo_extension = \<lparr>ex_node_types = [(''disk'', demo_type [] None)], ex_edge_types = [],
     ex_node_type_updates =
       [(''server'', \<lparr>nu_add_properties = [(''port'', demo_property)], nu_relax_properties = [], nu_add_subtypes = []\<rparr>)],
     ex_edge_type_updates =
       [(''runs'', \<lparr>eu_add_source_types = [''disk''], eu_add_target_types = [''disk''], eu_add_properties = []\<rparr>)]\<rparr>"

lemma demo_wf: "ontology_wf demo_ontology" "extension_wf demo_extension"
  by (simp_all add: ontology_wf_def extension_wf_def demo_extension_def demo_defs bt_wf_def)

lemmas merge_defs = merge_extension_def check_before_mutation_def extension_is_empty_def
  check_node_type_update_def check_edge_type_update_def check_bindings_def hm_contains_def validate_self_def
  check_constraint_names_def ENFORCED_CONSTRAINTS_def UNENFORCED_CONSTRAINT_PREFIX_def widen_edge_type_def
  update_node_type_def edge_update_is_empty_def

theorem merge_extension_monotone_witness:
  "snd (merge_extension demo_ontology demo_extension) = Inr () \<and>
   ontology_extends demo_ontology (fst (merge_extension demo_ontology demo_extension))"
proof -
  have "snd (merge_extension demo_ontology demo_extension) = Inr ()"
    by (simp add: merge_defs demo_extension_def demo_defs)
  then show ?thesis
    using merge_extension_monotone [OF demo_wf prod.collapse [symmetric]] by blast
qed

text \<open>
  An extension that is refused is not rolled back: there is a consistent ontology and an extension
  that returns an error although the ontology has already gained a node type.
\<close>

theorem merge_extension_not_atomic:
  "\<exists>ont ext e. validate_self ont = Inr () \<and> snd (merge_extension ont ext) = Inl e \<and>
     bt_get (on_node_types ont) ''disk'' = None \<and>
     bt_get (on_node_types (fst (merge_extension ont ext))) ''disk'' \<noteq> None"
proof (intro exI conjI)
  let ?ext = "\<lparr>ex_node_types = [(''disk'', demo_type [] None)], ex_edge_types = [], ex_node_type_updates = [],
     ex_edge_type_updates =
       [(''mounts'', \<lparr>eu_add_source_types = [''disk''], eu_add_target_types = [], eu_add_properties = []\<rparr>)]\<rparr>"
  show "validate_self demo_ontology = Inr ()"
    "snd (merge_extension demo_ontology ?ext) = Inl (MUnknownEdgeType ''mounts'')"
    "bt_get (on_node_types demo_ontology) ''disk'' = None"
    "bt_get (on_node_types (fst (merge_extension demo_ontology ?ext))) ''disk'' \<noteq> None"
    by (simp_all add: merge_defs demo_defs)
qed

text \<open>
  The extension is not monotonic for nodes: an accepted extension may add a required property, and
  then a node that the validator accepted before the extension is rejected after it.
\<close>

theorem extension_can_invalidate_nodes:
  "\<exists>ont ext ont' vals. merge_extension ont ext = (ont', Inr ()) \<and>
     validate_node rx ont ''server'' None vals = Inr () \<and> validate_node rx ont' ''server'' None vals \<noteq> Inr ()"
proof (intro exI conjI)
  let ?new = "fst (merge_extension demo_ontology demo_extension)"
  have new: "?new = \<lparr>on_node_types = [(''disk'', demo_type [] None), (''entity'', demo_type [(''name'', demo_property)] None),
      (''server'', demo_type [(''port'', demo_property)] (Some ''entity''))],
     on_edge_types = [(''runs'', demo_edge\<lparr>ed_source_types := [''entity'', ''disk''], ed_target_types := [''server'', ''disk'']\<rparr>)]\<rparr>"
    and ok: "snd (merge_extension demo_ontology demo_extension) = Inr ()"
    by (simp_all add: merge_defs demo_extension_def demo_defs)
  show "merge_extension demo_ontology demo_extension = (?new, Inr ())"
    using ok by (metis prod.collapse)
  show "validate_node rx demo_ontology ''server'' None [(''name'', VString ''web'')] = Inr ()"
    by (simp add: validate_node_def validate_node_mode_def demo_lookup demo_type_def demo_property_def check_defs)
  have "ancestors ?new ''server'' = [''entity'']"
    by (simp add: new ancestors_def numeral_nat parent_of_def demo_type_def)
  then have "effective_properties ?new ''server'' = [(''name'', demo_property), (''port'', demo_property)]"
    by (simp add: effective_properties_def) (simp add: new demo_type_def)
  moreover have "bt_get (on_node_types ?new) ''server'' = Some (demo_type [(''port'', demo_property)] (Some ''entity''))"
    by (simp add: new)
  ultimately show "validate_node rx ?new ''server'' None [(''name'', VString ''web'')] \<noteq> Inr ()"
    by (simp add: validate_node_def validate_node_mode_def demo_type_def demo_property_def check_defs)
qed

section \<open>Compatibility after an extension\<close>

text \<open>Where the parents of all types are declared, types that are only added never change what an old type inherits.\<close>

lemma add_type_properties_cong:
  "(\<And>t. t \<in> set chain \<Longrightarrow> bt_get (on_node_types ont') t = bt_get (on_node_types ont) t) \<Longrightarrow>
    add_type_properties ont' props chain = add_type_properties ont props chain"
  by (induction chain arbitrary: props) (auto split: option.splits)

lemma ancestors_loop_cong:
  assumes "\<And>t d. bt_get (on_node_types ont) t = Some d \<Longrightarrow> bt_get (on_node_types ont') t = Some d"
    and "\<And>t p. parent_of ont t = Some p \<Longrightarrow> bt_get (on_node_types ont) p \<noteq> None"
  shows "bt_get (on_node_types ont) t \<noteq> None \<Longrightarrow> ancestors_loop n ont' t = ancestors_loop n ont t \<and>
    (\<forall>a \<in> set (ancestors_loop n ont t). bt_get (on_node_types ont) a \<noteq> None)"
proof (induction n arbitrary: t)
  case (Suc n)
  then obtain d where "bt_get (on_node_types ont) t = Some d" by auto
  then have "parent_of ont' t = parent_of ont t" using assms(1) by (simp add: parent_of_def)
  with Suc.IH assms(2) show ?case by (cases "parent_of ont t") (auto, blast+)
qed simp

lemma effective_properties_cong:
  assumes "\<And>t d. bt_get (on_node_types ont) t = Some d \<Longrightarrow> bt_get (on_node_types ont') t = Some d"
    and "\<And>t p. parent_of ont t = Some p \<Longrightarrow> bt_get (on_node_types ont) p \<noteq> None"
    and "bt_get (on_node_types ont) t \<noteq> None"
  shows "effective_properties ont' t = effective_properties ont t"
proof -
  have a: "ancestors ont' t = ancestors ont t"
    "\<forall>a \<in> set (ancestors ont t). bt_get (on_node_types ont) a \<noteq> None"
    using ancestors_loop_cong [where n = 100, OF assms] by (auto simp: ancestors_def)
  have "bt_get (on_node_types ont') u = bt_get (on_node_types ont) u" if "bt_get (on_node_types ont) u \<noteq> None" for u
    using that assms(1) by (metis not_None_eq)
  then show ?thesis
    unfolding effective_properties_def a(1) using a(2) assms(3)
    by (intro add_type_properties_cong) auto
qed

lemma validate_self_parents:
  assumes "validate_self ont = Inr ()" "parent_of ont t = Some p"
  shows "bt_get (on_node_types ont) p \<noteq> None"
proof -
  obtain d where d: "(t, d) \<in> set (on_node_types ont)" "nd_parent_type d = Some p"
    using assms(2) by (auto simp: parent_of_def split: option.splits dest: map_of_SomeD)
  from assms(1) have "is_ok (validate_self ont)" by simp
  then have "\<forall>(t, d) \<in> set (on_node_types ont). \<forall>p. nd_parent_type d = Some p \<longrightarrow> hm_contains (on_node_types ont) p"
    by (auto simp: validate_self_def split: option.splits if_splits)
  with d show ?thesis by (auto simp: hm_contains_def)
qed

lemma edge_type_facts_kept:
  assumes "edge_type_kept d d'" "bt_wf (ed_properties d)"
  shows "set (edge_type_facts render (e, d)) \<subseteq> set (edge_type_facts render (e, d'))"
proof -
  have "(k, pd) \<in> set (ed_properties d')" if "(k, pd) \<in> set (ed_properties d)" for k pd
    using assms that by (intro map_of_SomeD) (simp add: edge_type_kept_def bt_wf_distinct)
  with assms(1) show ?thesis by (fastforce simp: edge_type_facts_def edge_type_kept_def)
qed

lemma merge_extension_node_types:
  assumes "ontology_wf ont" "extension_wf ext" "ex_node_type_updates ext = []"
    "bt_get (on_node_types ont) t = Some d"
  shows "bt_get (on_node_types (fst (merge_extension ont ext))) t = Some d"
proof (cases "check_before_mutation ont ext")
  case (Inr u)
  have "bt_get (bt_extend (on_node_types ont) (ex_node_types ext)) t = Some d"
    using assms(1,2,4) check_before_mutation_ok(1) [OF is_ok_Inr [OF Inr]]
    by (intro extend_new_lookup) (auto simp: ontology_wf_def extension_wf_def)
  with Inr assms(3) show ?thesis by (simp add: merge_extension_def Let_def split: sum.splits)
qed (use assms(4) in \<open>simp add: merge_extension_def\<close>)

lemma set_fingerprint: "set (fingerprint render ont) = insert ''fingerprint_version:2''
  ((\<Union>td \<in> set (on_node_types ont). set (node_type_facts render ont td)) \<union>
   (\<Union>ed \<in> set (on_edge_types ont). set (edge_type_facts render ed)))"
  unfolding fingerprint_def set_remdups by simp

lemma fingerprint_mono:
  assumes wf: "ontology_wf ont" and self: "validate_self ont = Inr ()"
    and nodes: "\<And>t d. bt_get (on_node_types ont) t = Some d \<Longrightarrow> bt_get (on_node_types ont') t = Some d"
    and "ontology_extends ont ont'"
  shows "set (fingerprint render ont) \<subseteq> set (fingerprint render ont')"
proof -
  have "set (node_type_facts render ont (t, d)) \<subseteq> (\<Union>td \<in> set (on_node_types ont'). set (node_type_facts render ont' td))"
    if "(t, d) \<in> set (on_node_types ont)" for t d
  proof -
    have get: "bt_get (on_node_types ont) t = Some d"
      using that wf by (simp add: ontology_wf_def bt_wf_distinct)
    have "effective_properties ont' t = effective_properties ont t"
      using get validate_self_parents [OF self] by (intro effective_properties_cong nodes) auto
    then have "node_type_facts render ont' (t, d) = node_type_facts render ont (t, d)"
      by (simp add: node_type_facts_def)
    with UN_upper [OF map_of_SomeD [OF nodes [OF get]], of "\<lambda>td. set (node_type_facts render ont' td)"]
    show ?thesis by simp
  qed
  moreover have "set (edge_type_facts render (e, d)) \<subseteq> (\<Union>ed \<in> set (on_edge_types ont'). set (edge_type_facts render ed))"
    if "(e, d) \<in> set (on_edge_types ont)" for e d
  proof -
    have get: "bt_get (on_edge_types ont) e = Some d"
      using that wf by (simp add: ontology_wf_def bt_wf_distinct)
    then obtain d' where d': "bt_get (on_edge_types ont') e = Some d'" "edge_type_kept d d'"
      using assms(4) unfolding ontology_extends_def by blast
    show ?thesis
      using edge_type_facts_kept [OF d'(2) ontology_wf_edgeD [OF wf get], of render e]
        UN_upper [OF map_of_SomeD [OF d'(1)], of "\<lambda>ed. set (edge_type_facts render ed)"] by simp
  qed
  ultimately show ?thesis
    unfolding set_fingerprint by (intro insert_mono Un_mono UN_least) (simp_all only: split_paired_all)
qed

text \<open>
  Adding node types, edge types, endpoint types and edge properties only adds facts to the
  fingerprint, so a peer that has such an extension classifies one that has not as the older version of
  the same schema (verdict \<open>Superset\<close>), never as a fork, provided hash and facts tell the two apart at
  all; and the peer without it reaches the mirror-image verdict \<open>Subset\<close>.
\<close>

theorem extension_is_superset:
  assumes "ontology_wf ont" and "extension_wf ext" and "validate_self ont = Inr ()"
    and "ex_node_type_updates ext = []" and "merge_extension ont ext = (ont', r)"
    and "json_hash ont \<noteq> json_hash ont'" and "set (fingerprint render ont) \<noteq> set (fingerprint render ont')"
  shows "check_compatibility json_hash render ont' (json_hash ont) (fingerprint render ont) = Superset \<and>
    check_compatibility json_hash render ont (json_hash ont') (fingerprint render ont') = Subset"
proof -
  have "set (fingerprint render ont) \<subseteq> set (fingerprint render ont')"
    using merge_extension_extends [OF assms(1,2)] merge_extension_node_types [OF assms(1,2,4)] assms(5)
    by (intro fingerprint_mono assms(1,3)) auto
  with assms(6,7) show ?thesis by (auto simp: check_compatibility_def Let_def)
qed

definition demo_addition :: ontology_extension where
  "demo_addition = demo_extension\<lparr>ex_node_type_updates := []\<rparr>"

lemma demo_addition_wf: "extension_wf demo_addition" "ex_node_type_updates demo_addition = []"
  by (simp_all add: demo_addition_def demo_extension_def extension_wf_def bt_wf_def)

lemma demo_addition_result: "fst (merge_extension demo_ontology demo_addition) =
  \<lparr>on_node_types = (''disk'', demo_type [] None) # on_node_types demo_ontology,
   on_edge_types = [(''runs'', demo_edge\<lparr>ed_source_types := [''entity'', ''disk''], ed_target_types := [''server'', ''disk'']\<rparr>)]\<rparr>"
  by (simp add: merge_defs demo_addition_def demo_extension_def demo_defs)

lemma demo_effective: "effective_properties demo_ontology ''entity'' = [(''name'', demo_property)]"
  by (simp add: effective_properties_def demo_ancestors) (simp add: demo_ontology_def demo_type_def)

theorem extension_is_superset_witness:
  "check_compatibility (\<lambda>ont. of_nat (length (on_node_types ont))) (\<lambda>_. ''8'')
     (fst (merge_extension demo_ontology demo_addition)) 2 (fingerprint (\<lambda>_. ''8'') demo_ontology) = Superset"
proof -
  let ?new = "fst (merge_extension demo_ontology demo_addition)" and ?h = "\<lambda>ont. of_nat (length (on_node_types ont)) :: hash"
  have "''type:disk'' \<in> set (fingerprint (\<lambda>_. ''8'') ?new)"
    unfolding demo_addition_result by (simp add: fingerprint_def node_type_facts_def)
  moreover have "''type:disk'' \<notin> set (node_type_facts (\<lambda>_. ''8'') demo_ontology (t, demo_type props parent))"
    if "t = ''entity'' \<or> t = ''server''" for t props parent
  proof -
    have "effective_properties demo_ontology t = [(''name'', demo_property)]"
      using that demo_lookup demo_effective by auto
    with that show ?thesis
      by (auto simp: node_type_facts_def demo_type_def property_fact_def fingerprint_constraints_def
          demo_property_def split: option.splits)
  qed
  then have "''type:disk'' \<notin> set (fingerprint (\<lambda>_. ''8'') demo_ontology)"
    unfolding set_fingerprint by (auto simp: demo_ontology_def [THEN arg_cong, of on_node_types]
        demo_ontology_def [THEN arg_cong, of on_edge_types] edge_type_facts_def demo_edge_def)
  ultimately have fp: "set (fingerprint (\<lambda>_. ''8'') demo_ontology) \<noteq> set (fingerprint (\<lambda>_. ''8'') ?new)" by blast
  have self: "validate_self demo_ontology = Inr ()" by (simp add: merge_defs demo_defs)
  have h: "?h demo_ontology = 2" "?h ?new = 3"
    unfolding demo_addition_result by (simp_all add: demo_ontology_def)
  show ?thesis
    using extension_is_superset [OF demo_wf(1) demo_addition_wf(1) self demo_addition_wf(2) prod.collapse [symmetric], of ?h]
      h fp by simp
qed

text \<open>
  The superset guarantee does not extend to node type updates: relaxing a required property is an
  accepted extension, yet it replaces a fact of the fingerprint, so the two versions of the same schema
  are classified as incompatible forks.
\<close>

theorem relaxing_is_divergent:
  "\<exists>ont ext ont'. merge_extension ont ext = (ont', Inr ()) \<and> validate_self ont = Inr () \<and>
     check_compatibility json_hash render ont' (json_hash ont) (fingerprint render ont) =
       (if json_hash ont' = json_hash ont then Identical else Divergent)"
proof (intro exI conjI)
  let ?pd = "\<lambda>req. \<lparr>pd_value_type = TInt, pd_required = req, pd_description = None, pd_constraints = None\<rparr>"
  let ?ont = "\<lambda>req. \<lparr>on_node_types = [(''a'', demo_type [(''p'', ?pd req)] None)], on_edge_types = []\<rparr>"
  let ?ext = "\<lparr>ex_node_types = [], ex_edge_types = [], ex_node_type_updates =
      [(''a'', \<lparr>nu_add_properties = [], nu_relax_properties = [''p''], nu_add_subtypes = []\<rparr>)], ex_edge_type_updates = []\<rparr>"
  show "merge_extension (?ont True) ?ext = (?ont False, Inr ())" "validate_self (?ont True) = Inr ()"
    by (simp_all add: merge_defs demo_type_def)
  have "effective_properties (?ont req) ''a'' = [(''p'', ?pd req)]" for req
    by (simp add: effective_properties_def ancestors_def numeral_nat parent_of_def demo_type_def)
  then have "set (fingerprint render (?ont req)) =
      {''fingerprint_version:2'', ''type:a'', ''prop:a:p:int:'' @ (if req then ''required'' else ''optional'')}" for req
    by (simp add: fingerprint_def node_type_facts_def demo_type_def property_fact_def value_type_lower_def
        fingerprint_constraints_def)
  then have "\<not> set (fingerprint render (?ont True)) \<subseteq> set (fingerprint render (?ont False))"
    "\<not> set (fingerprint render (?ont False)) \<subseteq> set (fingerprint render (?ont True))" by simp_all
  then show "check_compatibility json_hash render (?ont False) (json_hash (?ont True)) (fingerprint render (?ont True)) =
      (if json_hash (?ont False) = json_hash (?ont True) then Identical else Divergent)"
    unfolding check_compatibility_def Let_def by auto
qed

end
