(* ===== verification/Silk_Graph.thy ===== *)
theory Silk_Graph
  imports Silk_Extension Silk_Topo
begin

text \<open>
  The materialized graph, \<^verbatim>\<open>src/graph.rs\<close>: nodes and edges with tombstones and per-property clocks, their
  indexes, quarantine and pending edges, the incremental \<^verbatim>\<open>apply\<close>, the two-pass \<^verbatim>\<open>rebuild\<close> and the queries.

  The record \<open>env\<close> collects what the graph needs from outside: the regex engine, the content hashes, and
  the order in which a hash map hands out its values where the code's effect could depend on it
  (\<open>env_iter\<close>). That order is a parameter of the environment, one function for all the maps of one process: the
  theorems hold for every such function, and two processes are two environments (\<^verbatim>\<open>Silk_Iteration\<close>). Lists that a
  query reads off a hash map come in no particular order in the code; the theorems about them speak of sets
  or multisets. Messages of quarantine records are kept as the values they format.
\<close>

section \<open>State\<close>

record env =
  env_regex :: regex_engine
  env_hash :: content_hash
  env_ontology_hash :: "ontology \<Rightarrow> hash"
  env_iter :: "entry list \<Rightarrow> entry list"

record node =
  n_id :: string
  n_type :: string
  n_subtype :: "string option"
  n_label :: string
  n_properties :: properties
  n_property_clocks :: "(string, hybrid_clock) hash_map"
  n_last_clock :: hybrid_clock
  n_last_add_clock :: hybrid_clock
  n_tombstoned :: bool

record edge =
  e_id :: string
  e_type :: string
  e_source :: string
  e_target :: string
  e_properties :: properties
  e_property_clocks :: "(string, hybrid_clock) hash_map"
  e_last_clock :: hybrid_clock
  e_last_add_clock :: hybrid_clock
  e_tombstoned :: bool

datatype quarantine_reason =
    QValidation validation_error
  | QMonotonicity monotonicity_error
  | QEndpointMissing string string

record quarantine_record =
  q_op_kind :: string
  q_reason :: quarantine_reason
  q_ontology_hash :: hash

record graph =
  gr_nodes :: "(string, node) hash_map"
  gr_edges :: "(string, edge) hash_map"
  gr_outgoing :: "(string, string hash_set) hash_map"
  gr_incoming :: "(string, string hash_set) hash_map"
  gr_by_type :: "(string, string hash_set) hash_map"
  gr_ontology :: ontology
  gr_base_ontology :: ontology
  gr_quarantined :: "(hash, quarantine_record) hash_map"
  gr_pending :: "(hash, entry) hash_map"

definition graph_new :: "ontology \<Rightarrow> graph" where
  "graph_new ont =
     \<lparr>gr_nodes = [], gr_edges = [], gr_outgoing = [], gr_incoming = [], gr_by_type = [],
      gr_ontology = ont, gr_base_ontology = ont, gr_quarantined = [], gr_pending = []\<rparr>"

section \<open>Last writer wins\<close>

definition clock_wins :: "hybrid_clock \<Rightarrow> hybrid_clock \<Rightarrow> bool" where
  "clock_wins new_clock existing_clock \<longleftrightarrow> cmp_order new_clock existing_clock = Greater"

text \<open>Whether a write of a key with this clock takes effect: the key is new or its last write is older.\<close>

definition dominated :: "(string, hybrid_clock) hash_map \<Rightarrow> string \<Rightarrow> hybrid_clock \<Rightarrow> bool" where
  "dominated clocks k clock \<longleftrightarrow> (case hm_get clocks k of Some c \<Rightarrow> clock_wins clock c | None \<Rightarrow> True)"

fun merge_properties_lww :: "properties \<Rightarrow> (string, hybrid_clock) hash_map \<Rightarrow> (string \<times> silk_value) list \<Rightarrow> hybrid_clock \<Rightarrow>
    properties \<times> (string, hybrid_clock) hash_map" where
  "merge_properties_lww props clocks [] clock = (props, clocks)"
| "merge_properties_lww props clocks ((k, v) # kvs) clock =
     (if dominated clocks k clock
      then merge_properties_lww (bt_insert k v props) (hm_insert k clock clocks) kvs clock
      else merge_properties_lww props clocks kvs clock)"

text \<open>\<^verbatim>\<open>entry(k).or_default().insert(x)\<close>\<close>

definition index_insert :: "string \<Rightarrow> string \<Rightarrow> (string, string hash_set) hash_map \<Rightarrow> (string, string hash_set) hash_map" where
  "index_insert k x m = hm_insert k (hs_insert x (case hm_get m k of None \<Rightarrow> [] | Some s \<Rightarrow> s)) m"

definition apply_add_node :: "graph \<Rightarrow> string \<Rightarrow> string \<Rightarrow> string option \<Rightarrow> string \<Rightarrow> properties \<Rightarrow> hybrid_clock \<Rightarrow> graph" where
  "apply_add_node g node_id node_type subtype label properties clock =
     (case hm_get (gr_nodes g) node_id of
        Some existing \<Rightarrow>
          (let n1 = existing\<lparr>n_tombstoned := False\<rparr>;
               n2 = (if clock_wins clock (n_last_add_clock n1) then n1\<lparr>n_last_add_clock := clock\<rparr> else n1);
               n3 = (if clock_wins clock (n_last_clock n2)
                     then n2\<lparr>n_label := label, n_subtype := subtype, n_last_clock := clock\<rparr> else n2);
               (props, clocks) = merge_properties_lww (n_properties n3) (n_property_clocks n3) properties clock
           in g\<lparr>gr_nodes := hm_insert node_id (n3\<lparr>n_properties := props, n_property_clocks := clocks\<rparr>) (gr_nodes g)\<rparr>)
      | None \<Rightarrow>
          g\<lparr>gr_by_type := index_insert node_type node_id (gr_by_type g),
            gr_nodes := hm_insert node_id
              \<lparr>n_id = node_id, n_type = node_type, n_subtype = subtype, n_label = label, n_properties = properties,
               n_property_clocks = map (\<lambda>(k, _). (k, clock)) properties, n_last_clock = clock,
               n_last_add_clock = clock, n_tombstoned = False\<rparr> (gr_nodes g)\<rparr>)"

definition apply_add_edge :: "graph \<Rightarrow> string \<Rightarrow> string \<Rightarrow> string \<Rightarrow> string \<Rightarrow> properties \<Rightarrow> hybrid_clock \<Rightarrow> graph" where
  "apply_add_edge g edge_id edge_type source_id target_id properties clock =
     (case hm_get (gr_edges g) edge_id of
        Some existing \<Rightarrow>
          (let e1 = existing\<lparr>e_tombstoned := False\<rparr>;
               e2 = (if clock_wins clock (e_last_add_clock e1) then e1\<lparr>e_last_add_clock := clock\<rparr> else e1);
               e3 = (if clock_wins clock (e_last_clock e2) then e2\<lparr>e_last_clock := clock\<rparr> else e2);
               (props, clocks) = merge_properties_lww (e_properties e3) (e_property_clocks e3) properties clock
           in g\<lparr>gr_edges := hm_insert edge_id (e3\<lparr>e_properties := props, e_property_clocks := clocks\<rparr>) (gr_edges g)\<rparr>)
      | None \<Rightarrow>
          g\<lparr>gr_outgoing := index_insert source_id edge_id (gr_outgoing g),
            gr_incoming := index_insert target_id edge_id (gr_incoming g),
            gr_edges := hm_insert edge_id
              \<lparr>e_id = edge_id, e_type = edge_type, e_source = source_id, e_target = target_id, e_properties = properties,
               e_property_clocks = map (\<lambda>(k, _). (k, clock)) properties, e_last_clock = clock,
               e_last_add_clock = clock, e_tombstoned = False\<rparr> (gr_edges g)\<rparr>)"

definition apply_update_property :: "graph \<Rightarrow> string \<Rightarrow> string \<Rightarrow> silk_value \<Rightarrow> hybrid_clock \<Rightarrow> graph" where
  "apply_update_property g entity_id key v clock =
     (case hm_get (gr_nodes g) entity_id of
        Some n \<Rightarrow>
          (let n1 = (if dominated (n_property_clocks n) key clock
                     then n\<lparr>n_properties := bt_insert key v (n_properties n),
                            n_property_clocks := hm_insert key clock (n_property_clocks n)\<rparr> else n);
               n2 = (if clock_wins clock (n_last_clock n1) then n1\<lparr>n_last_clock := clock\<rparr> else n1)
           in g\<lparr>gr_nodes := hm_insert entity_id n2 (gr_nodes g)\<rparr>)
      | None \<Rightarrow>
        (case hm_get (gr_edges g) entity_id of
           Some e \<Rightarrow>
             (let e1 = (if dominated (e_property_clocks e) key clock
                        then e\<lparr>e_properties := bt_insert key v (e_properties e),
                               e_property_clocks := hm_insert key clock (e_property_clocks e)\<rparr> else e);
                  e2 = (if clock_wins clock (e_last_clock e1) then e1\<lparr>e_last_clock := clock\<rparr> else e1)
              in g\<lparr>gr_edges := hm_insert entity_id e2 (gr_edges g)\<rparr>)
         | None \<Rightarrow> g))"

definition apply_remove_node :: "graph \<Rightarrow> string \<Rightarrow> hybrid_clock \<Rightarrow> graph" where
  "apply_remove_node g node_id clock =
     (case hm_get (gr_nodes g) node_id of
        Some n \<Rightarrow>
          if clock_wins clock (n_last_add_clock n)
          then g\<lparr>gr_nodes := hm_insert node_id (n\<lparr>n_tombstoned := True, n_last_clock := clock\<rparr>) (gr_nodes g)\<rparr>
          else g
      | None \<Rightarrow> g)"

definition apply_remove_edge :: "graph \<Rightarrow> string \<Rightarrow> hybrid_clock \<Rightarrow> graph" where
  "apply_remove_edge g edge_id clock =
     (case hm_get (gr_edges g) edge_id of
        Some e \<Rightarrow>
          if clock_wins clock (e_last_add_clock e)
          then g\<lparr>gr_edges := hm_insert edge_id (e\<lparr>e_tombstoned := True, e_last_clock := clock\<rparr>) (gr_edges g)\<rparr>
          else g
      | None \<Rightarrow> g)"

section \<open>Applying entries\<close>

definition quarantine :: "env \<Rightarrow> graph \<Rightarrow> entry \<Rightarrow> string \<Rightarrow> quarantine_reason \<Rightarrow> graph" where
  "quarantine E g e kind reason =
     g\<lparr>gr_quarantined := hm_insert (en_hash e)
         \<lparr>q_op_kind = kind, q_reason = reason, q_ontology_hash = env_ontology_hash E (gr_ontology g)\<rparr> (gr_quarantined g)\<rparr>"

definition unquarantine :: "graph \<Rightarrow> entry \<Rightarrow> graph" where
  "unquarantine g e = g\<lparr>gr_quarantined := hm_remove (en_hash e) (gr_quarantined g)\<rparr>"

text \<open>The \<^verbatim>\<open>AddEdge\<close> arm.\<close>

definition admit_edge :: "env \<Rightarrow> graph \<Rightarrow> entry \<Rightarrow> string \<Rightarrow> string \<Rightarrow> string \<Rightarrow> string \<Rightarrow> properties \<Rightarrow> validation_mode \<Rightarrow> graph" where
  "admit_edge E g e edge_id edge_type source_id target_id properties mode =
     (if \<not> hm_contains (on_edge_types (gr_ontology g)) edge_type
      then quarantine E g e ''add_edge'' (QValidation (UnknownEdgeType edge_type))
      else case (hm_get (gr_nodes g) source_id, hm_get (gr_nodes g) target_id) of
        (Some src, Some tgt) \<Rightarrow>
          (case validate_edge_mode (env_regex E) (gr_ontology g) edge_type (n_type src) (n_type tgt) properties mode of
             Inl err \<Rightarrow> quarantine E g e ''add_edge'' (QValidation err)
           | Inr _ \<Rightarrow> apply_add_edge (unquarantine g e) edge_id edge_type source_id target_id properties (en_clock e))
      | _ \<Rightarrow>
          quarantine E (g\<lparr>gr_pending := hm_insert (en_hash e) e (gr_pending g)\<rparr>) e ''add_edge''
            (QEndpointMissing source_id target_id))"

text \<open>
  \<^verbatim>\<open>retry_pending_edges\<close>. Only \<^verbatim>\<open>AddEdge\<close> entries are ever selected, so the recursive \<^verbatim>\<open>apply_entry\<close> is the
  \<^verbatim>\<open>AddEdge\<close> arm.
\<close>

definition edge_ready :: "graph \<Rightarrow> entry \<Rightarrow> bool" where
  "edge_ready g e =
     (case en_payload e of
        AddEdge _ _ source_id target_id _ \<Rightarrow> hm_contains (gr_nodes g) source_id \<and> hm_contains (gr_nodes g) target_id
      | _ \<Rightarrow> False)"

definition retry_edge :: "env \<Rightarrow> entry \<Rightarrow> graph \<Rightarrow> graph" where
  "retry_edge E e g =
     (let g1 = g\<lparr>gr_pending := hm_remove (en_hash e) (gr_pending g)\<rparr> in
      case en_payload e of
        AddEdge edge_id edge_type source_id target_id properties \<Rightarrow>
          admit_edge E g1 e edge_id edge_type source_id target_id properties Full
      | _ \<Rightarrow> g1)"

text \<open>
  \<^verbatim>\<open>retry_pending_edges\<close> collects the waiting edges whose endpoints exist by iterating over a hash map, and admits
  them in that order, \<open>env_iter\<close>.
\<close>

definition retry_pending_edges :: "env \<Rightarrow> graph \<Rightarrow> graph" where
  "retry_pending_edges E g =
     (if gr_pending g = [] then g
      else fold (retry_edge E) (filter (edge_ready g) (env_iter E (map snd (gr_pending g)))) g)"

definition apply_add_node_entry :: "env \<Rightarrow> graph \<Rightarrow> entry \<Rightarrow> string \<Rightarrow> string \<Rightarrow> string option \<Rightarrow> string \<Rightarrow> properties \<Rightarrow>
    validation_mode \<Rightarrow> graph" where
  "apply_add_node_entry E g e node_id node_type subtype label properties mode =
     (case validate_node_mode (env_regex E) (gr_ontology g) node_type subtype properties mode of
        Inl err \<Rightarrow> quarantine E g e ''add_node'' (QValidation err)
      | Inr _ \<Rightarrow>
          retry_pending_edges E
            (apply_add_node (unquarantine g e) node_id node_type subtype label properties (en_clock e)))"

definition apply_update_entry :: "env \<Rightarrow> graph \<Rightarrow> entry \<Rightarrow> string \<Rightarrow> string \<Rightarrow> silk_value \<Rightarrow> graph" where
  "apply_update_entry E g e entity_id key v =
     (let verdict =
        (case hm_get (gr_nodes g) entity_id of
           Some n \<Rightarrow> validate_property_update (env_regex E) (gr_ontology g) (n_type n) (n_subtype n) key v
         | None \<Rightarrow>
           (case hm_get (gr_edges g) entity_id of
              Some ed \<Rightarrow> validate_edge_property_update (env_regex E) (gr_ontology g) (e_type ed) key v
            | None \<Rightarrow> Inr ()))
      in case verdict of
           Inl err \<Rightarrow> quarantine E g e ''update_property'' (QValidation err)
         | Inr _ \<Rightarrow> apply_update_property (unquarantine g e) entity_id key v (en_clock e))"

definition apply_extend :: "env \<Rightarrow> graph \<Rightarrow> entry \<Rightarrow> ontology_extension \<Rightarrow> graph" where
  "apply_extend E g e extension =
     (case merge_extension (gr_ontology g) extension of
        (ont, Inl err) \<Rightarrow> quarantine E (g\<lparr>gr_ontology := ont\<rparr>) e ''extend_ontology'' (QMonotonicity err)
      | (ont, Inr _) \<Rightarrow> unquarantine (g\<lparr>gr_ontology := ont\<rparr>) e)"

text \<open>
  \<^verbatim>\<open>apply_inner\<close> and, mutually recursive with it, the loop over the operations of a checkpoint from position
  \<open>i\<close> on.
\<close>

function apply_inner :: "env \<Rightarrow> graph \<Rightarrow> entry \<Rightarrow> validation_mode \<Rightarrow> bool \<Rightarrow> graph"
  and apply_checkpoint :: "env \<Rightarrow> graph \<Rightarrow> entry \<Rightarrow> bool \<Rightarrow> nat \<Rightarrow> graph_op list \<Rightarrow> (u64 \<times> u32) list \<Rightarrow> graph" where
  "apply_inner E g e mode adopt =
     (case en_payload e of
        Checkpoint ops op_clocks _ _ \<Rightarrow> unquarantine (apply_checkpoint E g e adopt 0 ops op_clocks) e
      | DefineOntology _ \<Rightarrow> g
      | ExtendOntology extension \<Rightarrow> apply_extend E g e extension
      | AddNode node_id node_type subtype label properties \<Rightarrow>
          apply_add_node_entry E g e node_id node_type subtype label properties mode
      | AddEdge edge_id edge_type source_id target_id properties \<Rightarrow>
          admit_edge E g e edge_id edge_type source_id target_id properties mode
      | UpdateProperty entity_id key v \<Rightarrow> apply_update_entry E g e entity_id key v
      | RemoveNode node_id \<Rightarrow> apply_remove_node (unquarantine g e) node_id (en_clock e)
      | RemoveEdge edge_id \<Rightarrow> apply_remove_edge (unquarantine g e) edge_id (en_clock e)
      | DefineLens _ \<Rightarrow> g)"
| "apply_checkpoint E g e adopt i [] op_clocks = g"
| "apply_checkpoint E g e adopt i (op # ops) op_clocks =
     (case op of
        DefineOntology ont \<Rightarrow>
          apply_checkpoint E (if adopt then g\<lparr>gr_ontology := ont\<rparr> else g) e adopt (Suc i) ops op_clocks
      | _ \<Rightarrow>
          (let clock = (if i < length op_clocks
                        then with_values (en_author e) (fst (op_clocks ! i)) (snd (op_clocks ! i)) else en_clock e)
           in apply_checkpoint E
                (apply_inner E g (entry_new (env_hash E) op [] [] clock (en_author e)) SkipRequired True)
                e adopt (Suc i) ops op_clocks))"
  by pat_completeness auto

termination
  by (relation "measure (\<lambda>x. case x of
       Inl (E, g, e, mode, adopt) \<Rightarrow> 2 * size (en_payload e)
     | Inr (E, g, e, adopt, i, ops, clks) \<Rightarrow> 1 + 2 * size_list size ops)")
    (auto simp: entry_new_def)

definition graph_apply :: "env \<Rightarrow> graph \<Rightarrow> entry \<Rightarrow> graph" where
  "graph_apply E g e = apply_inner E g e Full True"

definition apply_all :: "env \<Rightarrow> graph \<Rightarrow> entry list \<Rightarrow> graph" where
  "apply_all E g es = fold (\<lambda>e g. graph_apply E g e) es g"

text \<open>Pass 1 of \<^verbatim>\<open>rebuild\<close>: the effective ontology, with the refused extensions quarantined.\<close>

definition fold_checkpoint_ontology :: "graph_op list \<Rightarrow> ontology \<Rightarrow> ontology" where
  "fold_checkpoint_ontology ops ont = fold (\<lambda>op ont. case op of DefineOntology o' \<Rightarrow> o' | _ \<Rightarrow> ont) ops ont"

definition fold_ontology_step :: "env \<Rightarrow> entry \<Rightarrow> graph \<Rightarrow> graph" where
  "fold_ontology_step E e g =
     (case en_payload e of
        ExtendOntology extension \<Rightarrow>
          (case merge_extension (gr_ontology g) extension of
             (ont, Inl err) \<Rightarrow> quarantine E (g\<lparr>gr_ontology := ont\<rparr>) e ''extend_ontology'' (QMonotonicity err)
           | (ont, Inr _) \<Rightarrow> g\<lparr>gr_ontology := ont\<rparr>)
      | Checkpoint ops _ _ _ \<Rightarrow> g\<lparr>gr_ontology := fold_checkpoint_ontology ops (gr_ontology g)\<rparr>
      | _ \<Rightarrow> g)"

definition is_extend :: "graph_op \<Rightarrow> bool" where
  "is_extend op = (case op of ExtendOntology _ \<Rightarrow> True | _ \<Rightarrow> False)"

definition rebuild :: "env \<Rightarrow> graph \<Rightarrow> entry list \<Rightarrow> graph" where
  "rebuild E g es =
     (let g0 = g\<lparr>gr_nodes := [], gr_edges := [], gr_outgoing := [], gr_incoming := [], gr_by_type := [],
                 gr_quarantined := [], gr_pending := [], gr_ontology := gr_base_ontology g\<rparr>;
          g1 = fold (fold_ontology_step E) es g0
      in fold (\<lambda>e g. if is_extend (en_payload e) then g else apply_inner E g e Full False) es g1)"

section \<open>Queries\<close>

definition get_node :: "graph \<Rightarrow> string \<Rightarrow> node option" where
  "get_node g node_id =
     (case hm_get (gr_nodes g) node_id of Some n \<Rightarrow> if \<not> n_tombstoned n then Some n else None | None \<Rightarrow> None)"

definition get_edge :: "graph \<Rightarrow> string \<Rightarrow> edge option" where
  "get_edge g edge_id =
     (case hm_get (gr_edges g) edge_id of Some e \<Rightarrow> if \<not> e_tombstoned e then Some e else None | None \<Rightarrow> None)"

definition is_node_live :: "graph \<Rightarrow> string \<Rightarrow> bool" where
  "is_node_live g node_id = (case hm_get (gr_nodes g) node_id of Some n \<Rightarrow> \<not> n_tombstoned n | None \<Rightarrow> False)"

definition index_get :: "(string, string hash_set) hash_map \<Rightarrow> string \<Rightarrow> string list" where
  "index_get m k = (case hm_get m k of None \<Rightarrow> [] | Some s \<Rightarrow> s)"

definition nodes_by_type :: "graph \<Rightarrow> string \<Rightarrow> node list" where
  "nodes_by_type g node_type =
     List.map_filter (get_node g)
       (concat (map (index_get (gr_by_type g)) (node_type # descendants (gr_ontology g) node_type)))"

definition nodes_by_subtype :: "graph \<Rightarrow> string \<Rightarrow> node list" where
  "nodes_by_subtype g subtype =
     filter (\<lambda>n. \<not> n_tombstoned n \<and> n_subtype n = Some subtype) (map snd (gr_nodes g))"

definition nodes_by_property :: "graph \<Rightarrow> string \<Rightarrow> silk_value \<Rightarrow> node list" where
  "nodes_by_property g key v =
     filter (\<lambda>n. \<not> n_tombstoned n \<and>
        (case bt_get (n_properties n) key of Some w \<Rightarrow> value_eq w v | None \<Rightarrow> False)) (map snd (gr_nodes g))"

definition outgoing_edges :: "graph \<Rightarrow> string \<Rightarrow> edge list" where
  "outgoing_edges g node_id =
     filter (\<lambda>e. is_node_live g (e_target e)) (List.map_filter (get_edge g) (index_get (gr_outgoing g) node_id))"

definition incoming_edges :: "graph \<Rightarrow> string \<Rightarrow> edge list" where
  "incoming_edges g node_id =
     filter (\<lambda>e. is_node_live g (e_source e)) (List.map_filter (get_edge g) (index_get (gr_incoming g) node_id))"

definition all_nodes :: "graph \<Rightarrow> node list" where
  "all_nodes g = filter (\<lambda>n. \<not> n_tombstoned n) (map snd (gr_nodes g))"

definition all_edges :: "graph \<Rightarrow> edge list" where
  "all_edges g =
     filter (\<lambda>e. \<not> e_tombstoned e \<and> is_node_live g (e_source e) \<and> is_node_live g (e_target e)) (map snd (gr_edges g))"

definition neighbors :: "graph \<Rightarrow> string \<Rightarrow> string list" where
  "neighbors g node_id = map e_target (outgoing_edges g node_id)"

definition reverse_neighbors :: "graph \<Rightarrow> string \<Rightarrow> string list" where
  "reverse_neighbors g node_id = map e_source (incoming_edges g node_id)"

text \<open>\<^verbatim>\<open>estimated_memory_bytes\<close>; \<open>value_size\<close> is \<^verbatim>\<open>size_of::<Value>()\<close>.\<close>

definition properties_memory :: "nat \<Rightarrow> properties \<Rightarrow> nat" where
  "properties_memory value_size props = sum_list (map (\<lambda>(k, _). length k + value_size + 48) props)"

definition graph_estimated_memory_bytes :: "nat \<Rightarrow> graph \<Rightarrow> nat" where
  "graph_estimated_memory_bytes value_size g =
     sum_list (map (\<lambda>(_, n). length (n_id n) + length (n_type n) + length (n_label n) +
        (case n_subtype n of None \<Rightarrow> 0 | Some s \<Rightarrow> length s) + properties_memory value_size (n_properties n) + 128)
        (gr_nodes g)) +
     sum_list (map (\<lambda>(_, e). length (e_id e) + length (e_type e) + length (e_source e) + length (e_target e) +
        properties_memory value_size (e_properties e) + 128) (gr_edges g)) +
     sum_list (map (\<lambda>(k, s). length k + length s * 32) (gr_outgoing g)) +
     sum_list (map (\<lambda>(k, s). length k + length s * 32) (gr_incoming g)) +
     sum_list (map (\<lambda>(k, s). length k + length s * 32) (gr_by_type g)) +
     length (gr_quarantined g) * 48"

end
