(* ===== verification/Silk_Materialize.thy ===== *)
theory Silk_Materialize
  imports Silk_Graph
begin

text \<open>
  Properties of the materialized graph: the index invariants of every reachable graph, the exactness of the
  queries, last-writer-wins and the add/remove rule, what a rebuild depends on, and where arrival or
  iteration order shows through.
\<close>


declare map_of_eq_Some_iff [simp del] Some_eq_map_of_iff [simp del]

section \<open>Index invariants\<close>

definition iter_ok :: "env \<Rightarrow> bool" where
  "iter_ok E \<longleftrightarrow> (\<forall>xs. mset (env_iter E xs) = mset xs)"

definition node_inv :: "graph \<Rightarrow> bool" where
  "node_inv g \<longleftrightarrow>
     hm_wf (gr_nodes g) \<and>
     (\<forall>id n. hm_get (gr_nodes g) id = Some n \<longrightarrow> n_id n = id \<and> hm_keys (n_property_clocks n) = hm_keys (n_properties n)) \<and>
     (\<forall>t. distinct (index_get (gr_by_type g) t)) \<and>
     (\<forall>t id. id \<in> set (index_get (gr_by_type g) t) \<longleftrightarrow> (\<exists>n. hm_get (gr_nodes g) id = Some n \<and> n_type n = t))"

definition edge_inv :: "graph \<Rightarrow> bool" where
  "edge_inv g \<longleftrightarrow>
     hm_wf (gr_edges g) \<and>
     (\<forall>id e. hm_get (gr_edges g) id = Some e \<longrightarrow> e_id e = id \<and> hm_keys (e_property_clocks e) = hm_keys (e_properties e) \<and>
        e_source e \<in> hm_keys (gr_nodes g) \<and> e_target e \<in> hm_keys (gr_nodes g)) \<and>
     (\<forall>s. distinct (index_get (gr_outgoing g) s) \<and> distinct (index_get (gr_incoming g) s)) \<and>
     (\<forall>s id. id \<in> set (index_get (gr_outgoing g) s) \<longleftrightarrow> (\<exists>e. hm_get (gr_edges g) id = Some e \<and> e_source e = s)) \<and>
     (\<forall>t id. id \<in> set (index_get (gr_incoming g) t) \<longleftrightarrow> (\<exists>e. hm_get (gr_edges g) id = Some e \<and> e_target e = t))"

text \<open>A pending edge is an edge addition that still lacks an endpoint.\<close>

definition pending_inv :: "graph \<Rightarrow> bool" where
  "pending_inv g \<longleftrightarrow>
     hm_wf (gr_pending g) \<and>
     (\<forall>(h, e) \<in> set (gr_pending g). en_hash e = h \<and> \<not> edge_ready g e \<and>
        (\<exists>i t s d ps. en_payload e = AddEdge i t s d ps))"

definition graph_inv :: "graph \<Rightarrow> bool" where
  "graph_inv g \<longleftrightarrow> node_inv g \<and> edge_inv g \<and> pending_inv g"

lemma index_get_insert: "index_get (index_insert k x m) j = (if j = k then hs_insert x (index_get m k) else index_get m j)"
  by (simp add: index_get_def index_insert_def update_conv')

lemma graph_new_inv: "graph_inv (graph_new ont)"
  by (simp add: graph_inv_def node_inv_def edge_inv_def pending_inv_def graph_new_def index_get_def)

text \<open>The invariants read the topology only.\<close>

lemma inv_frame [simp]:
  "node_inv (g\<lparr>gr_quarantined := q\<rparr>) = node_inv g" "edge_inv (g\<lparr>gr_quarantined := q\<rparr>) = edge_inv g"
  "pending_inv (g\<lparr>gr_quarantined := q\<rparr>) = pending_inv g"
  "node_inv (g\<lparr>gr_ontology := ont\<rparr>) = node_inv g" "edge_inv (g\<lparr>gr_ontology := ont\<rparr>) = edge_inv g"
  "pending_inv (g\<lparr>gr_ontology := ont\<rparr>) = pending_inv g"
  "node_inv (g\<lparr>gr_pending := p\<rparr>) = node_inv g" "edge_inv (g\<lparr>gr_pending := p\<rparr>) = edge_inv g"
  "node_inv (g\<lparr>gr_edges := es\<rparr>) = node_inv g" "pending_inv (g\<lparr>gr_edges := es\<rparr>) = pending_inv g"
  "node_inv (g\<lparr>gr_outgoing := es'\<rparr>) = node_inv g" "pending_inv (g\<lparr>gr_outgoing := es'\<rparr>) = pending_inv g"
  "node_inv (g\<lparr>gr_incoming := es'\<rparr>) = node_inv g" "pending_inv (g\<lparr>gr_incoming := es'\<rparr>) = pending_inv g"
  by (simp_all add: node_inv_def edge_inv_def pending_inv_def edge_ready_def cong: graph_op.case_cong)

lemma quarantine_inv [inv_intros]: "graph_inv g \<Longrightarrow> graph_inv (quarantine E g e k r)"
  by (simp add: quarantine_def graph_inv_def)

lemma unquarantine_inv [inv_intros]: "graph_inv g \<Longrightarrow> graph_inv (unquarantine g e)"
  by (simp add: unquarantine_def graph_inv_def)

lemma unquarantine_none: "gr_quarantined g = [] \<Longrightarrow> unquarantine g e = g"
  by (cases g) (simp add: unquarantine_def)

lemma replace_node_inv:
  assumes "graph_inv g" "hm_get (gr_nodes g) i = Some n" "n_id n' = n_id n" "n_type n' = n_type n"
    "hm_keys (n_property_clocks n') = hm_keys (n_properties n')"
  shows "graph_inv (g\<lparr>gr_nodes := hm_insert i n' (gr_nodes g)\<rparr>)" (is "graph_inv ?g")
proof -
  have keys: "hm_keys (gr_nodes ?g) = hm_keys (gr_nodes g)"
    using get_in_keys [OF assms(2)] by (simp add: dom_update insert_absorb)
  have "node_inv ?g" using assms by (auto simp: graph_inv_def node_inv_def update_conv' distinct_update)
  moreover have "edge_inv ?g" using assms(1) keys by (simp add: graph_inv_def edge_inv_def)
  moreover have "edge_ready ?g e = edge_ready g e" for e
    using keys by (simp add: edge_ready_def hm_contains_iff cong: graph_op.case_cong)
  then have "pending_inv ?g" using assms(1) by (simp add: graph_inv_def pending_inv_def)
  ultimately show ?thesis by (simp add: graph_inv_def)
qed

lemma replace_edge_inv:
  assumes "graph_inv g" "hm_get (gr_edges g) i = Some e" "e_id e' = e_id e" "e_source e' = e_source e"
    "e_target e' = e_target e" "hm_keys (e_property_clocks e') = hm_keys (e_properties e')"
  shows "graph_inv (g\<lparr>gr_edges := hm_insert i e' (gr_edges g)\<rparr>)" (is "graph_inv ?g")
proof -
  have "edge_inv ?g" using assms by (auto simp: graph_inv_def edge_inv_def update_conv' distinct_update)
  with assms(1) show ?thesis by (simp add: graph_inv_def)
qed

lemma merge_properties_keys:
  assumes "hm_keys clocks = hm_keys props" "merge_properties_lww props clocks kvs clock = (props', clocks')"
  shows "hm_keys clocks' = hm_keys props'"
  using assms
proof (induction props clocks kvs clock rule: merge_properties_lww.induct)
  case (2 props clocks k v kvs clock)
  then show ?case by (simp add: bt_keys_insert dom_update split: if_splits)
qed simp

lemma graph_invD:
  "graph_inv g \<Longrightarrow> hm_get (gr_nodes g) i = Some n \<Longrightarrow> n_id n = i \<and> hm_keys (n_property_clocks n) = hm_keys (n_properties n)"
  "graph_inv g \<Longrightarrow> hm_get (gr_edges g) i = Some e \<Longrightarrow> e_id e = i \<and> hm_keys (e_property_clocks e) = hm_keys (e_properties e)"
  by (simp_all add: graph_inv_def node_inv_def edge_inv_def)

lemmas clock_keys = conjunct2 [OF graph_invD(1)] conjunct2 [OF graph_invD(2)]

lemma apply_update_property_inv [inv_intros]: "graph_inv g \<Longrightarrow> graph_inv (apply_update_property g i k v c)"
  by (simp add: apply_update_property_def Let_def bt_keys_insert dom_update clock_keys
      replace_node_inv replace_edge_inv split: option.splits)

lemma apply_remove_node_inv [inv_intros]: "graph_inv g \<Longrightarrow> graph_inv (apply_remove_node g i c)"
  by (simp add: apply_remove_node_def replace_node_inv clock_keys split: option.splits)

lemma apply_remove_edge_inv [inv_intros]: "graph_inv g \<Longrightarrow> graph_inv (apply_remove_edge g i c)"
  by (simp add: apply_remove_edge_def replace_edge_inv clock_keys split: option.splits)

text \<open>A new node: the pending edges that now have both endpoints are the ones to be retried.\<close>

definition almost_inv :: "graph \<Rightarrow> bool" where
  "almost_inv g \<longleftrightarrow> node_inv g \<and> edge_inv g \<and> hm_wf (gr_pending g) \<and>
     (\<forall>(h, e) \<in> set (gr_pending g). en_hash e = h \<and> (\<exists>i t s d ps. en_payload e = AddEdge i t s d ps))"

lemma graph_inv_almost: "graph_inv g \<longleftrightarrow> almost_inv g \<and> (\<forall>(h, e) \<in> set (gr_pending g). \<not> edge_ready g e)"
  by (auto simp: graph_inv_def almost_inv_def pending_inv_def)

lemma new_node_inv:
  assumes "almost_inv g" "hm_get (gr_nodes g) (n_id n) = None" "hm_keys (n_property_clocks n) = hm_keys (n_properties n)"
  shows "almost_inv (g\<lparr>gr_by_type := index_insert (n_type n) (n_id n) (gr_by_type g),
    gr_nodes := hm_insert (n_id n) n (gr_nodes g)\<rparr>)" (is "almost_inv ?g")
proof -
  have "node_inv ?g"
    using assms by (auto simp: almost_inv_def node_inv_def update_conv' distinct_update index_get_insert)
  moreover have "edge_inv ?g"
    using assms(1) by (auto simp: almost_inv_def edge_inv_def dom_update)
  ultimately show ?thesis using assms(1) by (simp add: almost_inv_def)
qed

lemma apply_add_node_inv:
  assumes "graph_inv g"
  shows "almost_inv (apply_add_node g i t st l ps c)"
proof (cases "hm_get (gr_nodes g) i")
  case None
  have "almost_inv g" using assms by (simp add: graph_inv_almost)
  then show ?thesis
    using new_node_inv [of g "\<lparr>n_id = i, n_type = t, n_subtype = st, n_label = l, n_properties = ps,
        n_property_clocks = map (\<lambda>(k, _). (k, c)) ps, n_last_clock = c, n_last_add_clock = c, n_tombstoned = False\<rparr>"] None
    by (simp add: apply_add_node_def image_image case_prod_beta)
next
  case (Some n)
  let ?n = "(if clock_wins c (n_last_clock n) then n\<lparr>n_label := l, n_subtype := st, n_last_clock := c\<rparr> else n)"
  obtain props clocks where m: "merge_properties_lww (n_properties n) (n_property_clocks n) ps c = (props, clocks)"
    by fastforce
  have "hm_keys clocks = hm_keys props"
    using merge_properties_keys [OF _ m] clock_keys(1) [OF assms Some] by simp
  then have "graph_inv (apply_add_node g i t st l ps c)"
    using assms Some m by (simp add: apply_add_node_def Let_def replace_node_inv)
  then show ?thesis by (simp add: graph_inv_almost)
qed

lemma new_edge_inv:
  assumes "almost_inv g" "hm_get (gr_edges g) (e_id e) = None" "hm_keys (e_property_clocks e) = hm_keys (e_properties e)"
    "e_source e \<in> hm_keys (gr_nodes g)" "e_target e \<in> hm_keys (gr_nodes g)"
  shows "almost_inv (g\<lparr>gr_outgoing := index_insert (e_source e) (e_id e) (gr_outgoing g),
    gr_incoming := index_insert (e_target e) (e_id e) (gr_incoming g), gr_edges := hm_insert (e_id e) e (gr_edges g)\<rparr>)"
    (is "almost_inv ?g")
proof -
  have "edge_inv ?g"
    using assms by (auto simp: almost_inv_def edge_inv_def update_conv' distinct_update index_get_insert)
  then show ?thesis using assms(1) by (simp add: almost_inv_def)
qed

lemma replace_edge_almost:
  assumes "almost_inv g" "hm_get (gr_edges g) i = Some e" "e_id e' = e_id e" "e_source e' = e_source e"
    "e_target e' = e_target e" "hm_keys (e_property_clocks e') = hm_keys (e_properties e')"
  shows "almost_inv (g\<lparr>gr_edges := hm_insert i e' (gr_edges g)\<rparr>)" (is "almost_inv ?g")
proof -
  have "edge_inv ?g" using assms by (auto simp: almost_inv_def edge_inv_def update_conv' distinct_update)
  with assms(1) show ?thesis by (simp add: almost_inv_def)
qed

lemma apply_add_edge_frame [simp]:
  "gr_nodes (apply_add_edge g i t s d ps c) = gr_nodes g" "gr_pending (apply_add_edge g i t s d ps c) = gr_pending g"
  "gr_ontology (apply_add_edge g i t s d ps c) = gr_ontology g"
  by (simp_all add: apply_add_edge_def Let_def case_prod_beta split: option.splits)

lemma quarantine_frame [simp]:
  "gr_nodes (quarantine E g e k r) = gr_nodes g" "gr_pending (quarantine E g e k r) = gr_pending g"
  "gr_ontology (quarantine E g e k r) = gr_ontology g" "gr_edges (quarantine E g e k r) = gr_edges g"
  "gr_nodes (unquarantine g e) = gr_nodes g" "gr_pending (unquarantine g e) = gr_pending g"
  "gr_ontology (unquarantine g e) = gr_ontology g" "gr_edges (unquarantine g e) = gr_edges g"
  by (simp_all add: quarantine_def unquarantine_def)

lemma quarantine_almost [simp]:
  "almost_inv (quarantine E g e k r) = almost_inv g" "almost_inv (unquarantine g e) = almost_inv g"
  by (simp_all add: almost_inv_def quarantine_def unquarantine_def)

lemma apply_add_edge_inv:
  assumes "almost_inv g" "s \<in> hm_keys (gr_nodes g)" "d \<in> hm_keys (gr_nodes g)"
  shows "almost_inv (apply_add_edge g i t s d ps c)"
proof (cases "hm_get (gr_edges g) i")
  case None
  show ?thesis
    using new_edge_inv [of g "\<lparr>e_id = i, e_type = t, e_source = s, e_target = d, e_properties = ps,
        e_property_clocks = map (\<lambda>(k, _). (k, c)) ps, e_last_clock = c, e_last_add_clock = c, e_tombstoned = False\<rparr>"]
      None assms by (simp add: apply_add_edge_def image_image case_prod_beta)
next
  case (Some e)
  obtain props clocks where m: "merge_properties_lww (e_properties e) (e_property_clocks e) ps c = (props, clocks)"
    by fastforce
  have "hm_keys (e_property_clocks e) = hm_keys (e_properties e)"
    using assms(1) Some by (simp add: almost_inv_def edge_inv_def)
  then have "hm_keys clocks = hm_keys props" using merge_properties_keys [OF _ m] by simp
  then show ?thesis using assms(1) Some m by (simp add: apply_add_edge_def Let_def replace_edge_almost)
qed

lemma edge_ready_cong: "hm_keys (gr_nodes g) = hm_keys (gr_nodes g') \<Longrightarrow> edge_ready g e = edge_ready g' e"
  by (simp add: edge_ready_def hm_contains_iff cong: graph_op.case_cong)

lemma edge_readyE:
  assumes "edge_ready g e"
  obtains i t s d ps where "en_payload e = AddEdge i t s d ps" "s \<in> hm_keys (gr_nodes g)" "d \<in> hm_keys (gr_nodes g)"
  using assms by (auto simp: edge_ready_def hm_contains_iff split: graph_op.splits)

lemma admit_edge_ready:
  assumes "almost_inv g" "s \<in> hm_keys (gr_nodes g)" "d \<in> hm_keys (gr_nodes g)"
  shows "almost_inv (admit_edge E g e i t s d ps mode) \<and> gr_nodes (admit_edge E g e i t s d ps mode) = gr_nodes g \<and>
    gr_pending (admit_edge E g e i t s d ps mode) = gr_pending g"
proof -
  obtain src tgt where "hm_get (gr_nodes g) s = Some src" "hm_get (gr_nodes g) d = Some tgt"
    using in_keys_get [OF assms(2)] in_keys_get [OF assms(3)] by blast
  then show ?thesis using assms
    by (auto simp: admit_edge_def intro!: apply_add_edge_inv split: sum.splits)
qed

lemma retry_edge_step:
  assumes "almost_inv g" "edge_ready g e"
  shows "almost_inv (retry_edge E e g) \<and> gr_nodes (retry_edge E e g) = gr_nodes g \<and>
    gr_pending (retry_edge E e g) = hm_remove (en_hash e) (gr_pending g)"
proof -
  obtain i t s d ps where p: "en_payload e = AddEdge i t s d ps" "s \<in> hm_keys (gr_nodes g)" "d \<in> hm_keys (gr_nodes g)"
    using edge_readyE [OF assms(2)] .
  let ?g = "g\<lparr>gr_pending := hm_remove (en_hash e) (gr_pending g)\<rparr>"
  have "almost_inv ?g" using assms(1) by (auto simp: almost_inv_def distinct_delete set_hm_remove)
  then show ?thesis using admit_edge_ready [of ?g s d] p by (simp add: retry_edge_def Let_def)
qed

lemma retry_edges_fold:
  assumes "almost_inv g" "\<And>e. e \<in> set es \<Longrightarrow> edge_ready g e"
  shows "almost_inv (fold (retry_edge E) es g) \<and> gr_nodes (fold (retry_edge E) es g) = gr_nodes g \<and>
    set (gr_pending (fold (retry_edge E) es g)) = {(h, e) \<in> set (gr_pending g). h \<notin> en_hash ` set es}"
  using assms
proof (induction es arbitrary: g)
  case (Cons e es)
  have s: "almost_inv (retry_edge E e g)" "gr_nodes (retry_edge E e g) = gr_nodes g"
    "gr_pending (retry_edge E e g) = hm_remove (en_hash e) (gr_pending g)"
    using retry_edge_step [OF Cons.prems(1)] Cons.prems(2) by auto
  have "edge_ready (retry_edge E e g) x" if "x \<in> set es" for x
    using Cons.prems(2) that s(2) edge_ready_cong [of g "retry_edge E e g" x] by auto
  with Cons.IH [OF s(1)] s show ?case by (auto simp: set_hm_remove)
qed auto

lemma retry_pending_edges_inv:
  assumes "iter_ok E" "almost_inv g"
  shows "graph_inv (retry_pending_edges E g)"
proof (cases "gr_pending g = []")
  case True
  then show ?thesis using assms by (simp add: retry_pending_edges_def graph_inv_almost)
next
  case False
  let ?es = "filter (edge_ready g) (env_iter E (map snd (gr_pending g)))"
  have iter: "set (env_iter E xs) = set xs" for xs
    using assms(1) by (metis iter_ok_def set_mset_mset)
  note f = retry_edges_fold [OF assms(2), of ?es E]
  have "\<not> edge_ready (retry_pending_edges E g) e" if "(h, e) \<in> set (gr_pending (retry_pending_edges E g))" for h e
  proof -
    have "gr_nodes (retry_pending_edges E g) = gr_nodes g"
      "(h, e) \<in> set (gr_pending g)" "h \<notin> en_hash ` set ?es"
      using f that False by (auto simp: retry_pending_edges_def)
    moreover have "en_hash e = h" using calculation(2) assms(2) by (auto simp: almost_inv_def)
    ultimately show ?thesis using edge_ready_cong [of "retry_pending_edges E g" g e] iter by force
  qed
  moreover have "almost_inv (retry_pending_edges E g)" using f False by (simp add: retry_pending_edges_def)
  ultimately show ?thesis by (auto simp: graph_inv_almost)
qed

lemma apply_add_node_entry_inv [inv_intros]:
  "iter_ok E \<Longrightarrow> graph_inv g \<Longrightarrow> graph_inv (apply_add_node_entry E g e i t st l ps m)"
  by (auto simp: apply_add_node_entry_def split: sum.splits
      intro: retry_pending_edges_inv apply_add_node_inv inv_intros)

lemma admit_edge_inv [inv_intros]:
  assumes "graph_inv g" "en_payload e = AddEdge i t s d ps"
  shows "graph_inv (admit_edge E g e i t s d ps m)"
proof (cases "s \<in> hm_keys (gr_nodes g) \<and> d \<in> hm_keys (gr_nodes g)")
  case True
  then have "almost_inv (admit_edge E g e i t s d ps m)" "gr_nodes (admit_edge E g e i t s d ps m) = gr_nodes g"
    "gr_pending (admit_edge E g e i t s d ps m) = gr_pending g"
    using admit_edge_ready [of g s d] assms(1) by (auto simp: graph_inv_almost)
  then show ?thesis
    using assms(1) edge_ready_cong [of g "admit_edge E g e i t s d ps m"] by (auto simp: graph_inv_almost)
next
  case False
  then have none: "hm_get (gr_nodes g) s = None \<or> hm_get (gr_nodes g) d = None" by (simp add: hm_get_None_iff)
  let ?g = "g\<lparr>gr_pending := hm_insert (en_hash e) e (gr_pending g)\<rparr>"
  have "\<not> edge_ready ?g e" using False assms(2) by (simp add: edge_ready_def hm_contains_iff)
  moreover have "edge_ready ?g x = edge_ready g x" for x by (rule edge_ready_cong) simp
  ultimately have "pending_inv ?g"
    using assms by (auto simp: graph_inv_def pending_inv_def distinct_update dest!: set_hm_insert)
  then have "graph_inv ?g" using assms(1) by (simp add: graph_inv_def)
  then show ?thesis
    using assms(1) none by (auto simp: admit_edge_def intro!: quarantine_inv split: option.splits)
qed

lemma apply_extend_inv [inv_intros]: "graph_inv g \<Longrightarrow> graph_inv (apply_extend E g e ext)"
proof -
  assume "graph_inv g"
  then have "graph_inv (g\<lparr>gr_ontology := ont\<rparr>)" for ont by (simp add: graph_inv_def)
  then show ?thesis by (auto simp: apply_extend_def intro: inv_intros split: prod.splits sum.splits)
qed

lemma apply_update_entry_inv [inv_intros]: "graph_inv g \<Longrightarrow> graph_inv (apply_update_entry E g e i k v)"
  by (auto simp: apply_update_entry_def Let_def intro: inv_intros split: sum.splits)

declare apply_inner.simps [simp del]

lemma apply_inner_inv:
  "iter_ok E \<Longrightarrow> graph_inv g \<Longrightarrow> graph_inv (apply_inner E g e mode adopt)"
  "iter_ok E \<Longrightarrow> graph_inv g \<Longrightarrow> graph_inv (apply_checkpoint E g e adopt i ops clks)"
proof (induction E g e mode adopt and E g e adopt i ops clks rule: apply_inner_apply_checkpoint.induct)
  case (1 E g e mode adopt)
  then show ?case
    by (auto simp: apply_inner.simps [of E g e] intro: inv_intros split: graph_op.splits)
next
  case (3 E g e adopt i op ops clks)
  have "graph_inv (if adopt then g\<lparr>gr_ontology := ont\<rparr> else g)" for ont
    using "3.prems"(2) by (simp add: graph_inv_def)
  with 3 show ?case by (cases op) (simp_all add: Let_def)
qed simp

section \<open>Reachable graphs\<close>

text \<open>The states of a graph: empty over some ontology, then entries applied or the log replayed.\<close>

inductive graph_run :: "env \<Rightarrow> graph \<Rightarrow> bool" for E where
  start: "graph_run E (graph_new ont)"
| step: "graph_run E g \<Longrightarrow> graph_run E (graph_apply E g e)"
| replay: "graph_run E g \<Longrightarrow> graph_run E (rebuild E g es)"

lemma fold_ontology_step_inv: "graph_inv g \<Longrightarrow> graph_inv (fold_ontology_step E e g)"
  by (auto simp: fold_ontology_step_def quarantine_def graph_inv_def split: graph_op.splits prod.splits sum.splits)

lemma rebuild_inv [inv_intros]:
  assumes "iter_ok E" shows "graph_inv (rebuild E g es)"
proof -
  have "graph_inv (g\<lparr>gr_nodes := [], gr_edges := [], gr_outgoing := [], gr_incoming := [], gr_by_type := [],
      gr_quarantined := [], gr_pending := [], gr_ontology := gr_base_ontology g\<rparr>)"
    by (simp add: graph_inv_def node_inv_def edge_inv_def pending_inv_def index_get_def)
  then show ?thesis
    unfolding rebuild_def Let_def
    by (intro fold_inv [where P = graph_inv] fold_ontology_step_inv) (auto intro: apply_inner_inv(1) [OF assms])
qed

lemma graph_run_inv: "graph_run E g \<Longrightarrow> iter_ok E \<Longrightarrow> graph_inv g"
  by (induction rule: graph_run.induct)
    (auto simp: graph_apply_def intro: graph_new_inv apply_inner_inv inv_intros)

section \<open>A small graph\<close>

text \<open>An ontology with one node type and one edge type, and entries over it, for the concrete statements.\<close>

definition tiny_ontology :: ontology where
  "tiny_ontology = \<lparr>on_node_types = [(''n'', demo_type [] None)],
     on_edge_types = [(''l'', \<lparr>ed_description = None, ed_source_types = [''n''], ed_target_types = [''n''], ed_properties = []\<rparr>)]\<rparr>"

definition tiny_env :: "(entry list \<Rightarrow> entry list) \<Rightarrow> env" where
  "tiny_env iter = \<lparr>env_regex = literal_regex, env_hash = demo_hash, env_ontology_hash = (\<lambda>_. 0), env_iter = iter\<rparr>"

definition tiny_entry :: "hash \<Rightarrow> graph_op \<Rightarrow> entry" where
  "tiny_entry h op = \<lparr>en_hash = h, en_payload = op, en_next = [], en_refs = [], en_clock = with_values ''a'' (ucast h) 0,
     en_author = ''a'', en_signature = None\<rparr>"

definition add_n :: "hash \<Rightarrow> string \<Rightarrow> entry" where
  "add_n h i = tiny_entry h (AddNode i ''n'' None i [])"

definition add_l :: "hash \<Rightarrow> string \<Rightarrow> string \<Rightarrow> string \<Rightarrow> entry" where
  "add_l h i s d = tiny_entry h (AddEdge i ''l'' s d [])"

lemma tiny_valid [simp]:
  "validate_node_mode rx tiny_ontology ''n'' None [] m = Inr ()"
  "validate_edge_mode rx tiny_ontology ''l'' ''n'' ''n'' [] m = Inr ()"
  "\<exists>d. bt_get (on_edge_types tiny_ontology) ''l'' = Some d"
proof -
  have "ancestors tiny_ontology ''n'' = []"
    by (simp add: ancestors_def numeral_nat parent_of_def tiny_ontology_def demo_type_def)
  then have "effective_properties tiny_ontology ''n'' = []"
    by (simp add: effective_properties_def) (simp add: tiny_ontology_def demo_type_def)
  moreover have "bt_get (on_node_types tiny_ontology) ''n'' = Some (demo_type [] None)" by (simp add: tiny_ontology_def)
  ultimately show "validate_node_mode rx tiny_ontology ''n'' None [] m = Inr ()"
    by (simp add: validate_node_mode_def demo_type_def validate_properties_def)
qed (simp_all add: validate_edge_mode_def is_subtype_of_def validate_properties_def hm_contains_def tiny_ontology_def)

lemma tiny_frame [simp]:
  "gr_ontology (graph_new ont) = ont" "gr_nodes (graph_new ont) = []" "gr_edges (graph_new ont) = []"
  "gr_pending (graph_new ont) = []" "gr_quarantined (graph_new ont) = []" "gr_by_type (graph_new ont) = []"
  "gr_outgoing (graph_new ont) = []" "gr_incoming (graph_new ont) = []"
  by (simp_all add: graph_new_def)

lemmas tiny_defs = add_n_def add_l_def tiny_entry_def tiny_env_def graph_apply_def apply_inner.simps apply_add_node_entry_def
  apply_add_node_def admit_edge_def apply_add_edge_def retry_pending_edges_def retry_edge_def edge_ready_def
  quarantine_def unquarantine_def index_insert_def hs_insert_def Let_def hm_contains_def

lemma tiny_iter_ok: "iter_ok (tiny_env id)" "iter_ok (tiny_env rev)"
  by (simp_all add: iter_ok_def tiny_env_def)

definition tiny_graph :: graph where
  "tiny_graph = apply_all (tiny_env id) (graph_new tiny_ontology) [add_n 1 ''a'', add_n 2 ''b'', add_l 3 ''e'' ''a'' ''b'']"

lemma tiny_graph_run: "graph_run (tiny_env id) tiny_graph"
  unfolding tiny_graph_def apply_all_def by (simp add: graph_run.intros)

lemma tiny_graph_nodes: "\<exists>n. hm_get (gr_nodes tiny_graph) ''a'' = Some n \<and> n_type n = ''n'' \<and> n_properties n = [] \<and>
    n_property_clocks n = [] \<and> n_last_add_clock n = with_values ''a'' 1 0 \<and> \<not> n_tombstoned n"
  by (simp add: tiny_graph_def apply_all_def tiny_defs)

lemma tiny_graph_topology:
  "gr_outgoing tiny_graph = [(''a'', [''e''])]"
  "\<exists>ed. hm_get (gr_edges tiny_graph) ''e'' = Some ed \<and> e_target ed = ''b'' \<and> \<not> e_tombstoned ed"
  "\<exists>n. hm_get (gr_nodes tiny_graph) ''b'' = Some n \<and> \<not> n_tombstoned n"
  by (simp_all add: tiny_graph_def apply_all_def tiny_defs)

section \<open>Queries\<close>

lemma get_node_Some: "get_node g i = Some n \<longleftrightarrow> hm_get (gr_nodes g) i = Some n \<and> \<not> n_tombstoned n"
  by (auto simp: get_node_def split: option.splits if_splits)

lemma get_edge_Some: "get_edge g i = Some e \<longleftrightarrow> hm_get (gr_edges g) i = Some e \<and> \<not> e_tombstoned e"
  by (auto simp: get_edge_def split: option.splits if_splits)

lemma is_node_live_iff: "is_node_live g i \<longleftrightarrow> get_node g i \<noteq> None"
  by (auto simp: is_node_live_def get_node_def split: option.splits)

text \<open>
  C23. The indexes never drift. In every reachable graph a node query by type returns exactly the live nodes
  whose type is the given one or one of its transitive subclasses, a query by subtype or by property
  exactly the live nodes with that subtype or property value, an adjacency query for a live node exactly
  the live edges at that end, both of whose endpoints are live, and a scan of all edges exactly the live
  edges between live nodes. (For a removed node see \<open>removed_node_keeps_edges\<close>.) The ontology has at most 100
  node types, so that the walk along parent types is not cut off.
\<close>

theorem queries_exact:
  assumes "graph_run E g" and "iter_ok E" and "length (on_node_types (gr_ontology g)) \<le> 100"
  shows "set (nodes_by_type g t) =
      {n. \<exists>i. get_node g i = Some n \<and> (n_type n, t) \<in> (subclass_rel (gr_ontology g))\<^sup>*} \<and>
    (get_node g s \<noteq> None \<longrightarrow> set (outgoing_edges g s) =
      {e. \<exists>i. get_edge g i = Some e \<and> e_source e = s \<and> get_node g (e_source e) \<noteq> None \<and> get_node g (e_target e) \<noteq> None}) \<and>
    (get_node g s \<noteq> None \<longrightarrow> set (incoming_edges g s) =
      {e. \<exists>i. get_edge g i = Some e \<and> e_target e = s \<and> get_node g (e_source e) \<noteq> None \<and> get_node g (e_target e) \<noteq> None}) \<and>
    set (all_edges g) = {e. \<exists>i. get_edge g i = Some e \<and> get_node g (e_source e) \<noteq> None \<and> get_node g (e_target e) \<noteq> None} \<and>
    set (all_nodes g) = {n. \<exists>i. get_node g i = Some n} \<and>
    set (nodes_by_subtype g st) = {n. \<exists>i. get_node g i = Some n \<and> n_subtype n = Some st} \<and>
    set (nodes_by_property g k v) = {n. \<exists>i w. get_node g i = Some n \<and> bt_get (n_properties n) k = Some w \<and> value_eq w v}"
proof -
  have inv: "node_inv g" "edge_inv g" using graph_run_inv [OF assms(1,2)] by (auto simp: graph_inv_def)
  have sub: "u = t \<or> u \<in> set (descendants (gr_ontology g) t) \<longleftrightarrow> (u, t) \<in> (subclass_rel (gr_ontology g))\<^sup>*" for u
    using subclass_rel_Domain [of u _ "gr_ontology g"]
    by (auto simp: descendants_def ancestors_iff [OF assms(3)] rtrancl_eq_or_trancl dest: tranclD)
  have "set (nodes_by_type g t) = {n. \<exists>i u. (u = t \<or> u \<in> set (descendants (gr_ontology g) t)) \<and>
      i \<in> set (index_get (gr_by_type g) u) \<and> get_node g i = Some n}"
    by (auto simp: nodes_by_type_def set_map_filter)
  also have "\<dots> = {n. \<exists>i. get_node g i = Some n \<and> (n_type n, t) \<in> (subclass_rel (gr_ontology g))\<^sup>*}"
    unfolding sub using inv(1) by (auto simp: node_inv_def get_node_Some)
  finally have 1: "set (nodes_by_type g t) =
      {n. \<exists>i. get_node g i = Some n \<and> (n_type n, t) \<in> (subclass_rel (gr_ontology g))\<^sup>*}" .
  have 2: "get_node g s \<noteq> None \<longrightarrow> set (outgoing_edges g s) =
      {e. \<exists>i. get_edge g i = Some e \<and> e_source e = s \<and> get_node g (e_source e) \<noteq> None \<and> get_node g (e_target e) \<noteq> None}"
    using inv(2) by (auto simp: outgoing_edges_def set_map_filter is_node_live_iff get_edge_Some edge_inv_def)
  have 3: "get_node g s \<noteq> None \<longrightarrow> set (incoming_edges g s) =
      {e. \<exists>i. get_edge g i = Some e \<and> e_target e = s \<and> get_node g (e_source e) \<noteq> None \<and> get_node g (e_target e) \<noteq> None}"
    using inv(2) by (auto simp: incoming_edges_def set_map_filter is_node_live_iff get_edge_Some edge_inv_def)
  have 4: "set (all_edges g) =
      {e. \<exists>i. get_edge g i = Some e \<and> get_node g (e_source e) \<noteq> None \<and> get_node g (e_target e) \<noteq> None}"
    using set_values [of "gr_edges g"] inv(2)
    by (auto simp: all_edges_def is_node_live_iff get_edge_Some edge_inv_def simp del: not_None_eq)
  have 5: "set (all_nodes g) = {n. \<exists>i. get_node g i = Some n}"
    using set_values [of "gr_nodes g"] inv(1) by (auto simp: all_nodes_def get_node_Some node_inv_def)
  have "set (nodes_by_subtype g st) = {n \<in> set (all_nodes g). n_subtype n = Some st}"
    "set (nodes_by_property g k v) = {n \<in> set (all_nodes g). \<exists>w. bt_get (n_properties n) k = Some w \<and> value_eq w v}"
    by (auto simp: nodes_by_subtype_def nodes_by_property_def all_nodes_def split: option.splits)
  then have 6: "set (nodes_by_subtype g st) = {n. \<exists>i. get_node g i = Some n \<and> n_subtype n = Some st}"
    "set (nodes_by_property g k v) = {n. \<exists>i w. get_node g i = Some n \<and> bt_get (n_properties n) k = Some w \<and> value_eq w v}"
    unfolding 5 by blast+
  show ?thesis by (intro conjI 1 2 3 4 5 6)
qed

theorem queries_exact_witness:
  "\<exists>n \<in> set (nodes_by_type tiny_graph ''n''). n_id n = ''a''"
proof -
  obtain n where n: "hm_get (gr_nodes tiny_graph) ''a'' = Some n" "n_type n = ''n''" "\<not> n_tombstoned n"
    using tiny_graph_nodes by blast
  have "n_id n = ''a''" using graph_invD(1) [OF graph_run_inv [OF tiny_graph_run tiny_iter_ok(1)] n(1)] by simp
  moreover have "length (on_node_types (gr_ontology tiny_graph)) \<le> 100"
    by (simp add: tiny_graph_def apply_all_def tiny_defs) (simp add: tiny_ontology_def)
  ultimately show ?thesis
    using queries_exact [OF tiny_graph_run tiny_iter_ok(1), of "''n''"] n by (auto simp: get_node_Some)
qed

text \<open>
  C15. In every reachable graph the type index and both adjacency indexes list exactly the stored nodes and
  edges, each once; every materialized edge has both endpoints materialized; and no edge that waits for an
  endpoint is left waiting once both endpoints are there, whatever order the hash maps iterate in.
\<close>

theorem materialization_invariant:
  assumes "graph_run E g" and "iter_ok E"
  shows "graph_inv g"
  using assms by (rule graph_run_inv)

theorem materialization_invariant_witness: "graph_inv tiny_graph"
  by (rule materialization_invariant [OF tiny_graph_run tiny_iter_ok(1)])

section \<open>Conflict resolution\<close>

lemma clock_wins_iff: "clock_wins a b \<longleftrightarrow> b < a"
  by (simp add: clock_wins_def cmp_order_Greater_iff)

lemma apply_update_property_node:
  assumes "hm_get (gr_nodes g) i = Some n"
  obtains n' where "hm_get (gr_nodes (apply_update_property g i k v c)) i = Some n'"
    "dominated (n_property_clocks n) k c \<Longrightarrow>
       map_of (n_properties n') = (map_of (n_properties n))(k \<mapsto> v) \<and>
       map_of (n_property_clocks n') = (map_of (n_property_clocks n))(k \<mapsto> c)"
    "\<not> dominated (n_property_clocks n) k c \<Longrightarrow>
       n_properties n' = n_properties n \<and> n_property_clocks n' = n_property_clocks n"
  using assms by (simp add: apply_update_property_def Let_def update_conv' bt_get_insert)

definition write_all :: "string \<Rightarrow> (string \<times> silk_value \<times> hybrid_clock) list \<Rightarrow> graph \<Rightarrow> graph" where
  "write_all i ws g = fold (\<lambda>(k, v, c) g. apply_update_property g i k v c) ws g"

lemma write_all_wins:
  assumes "hm_get (gr_nodes g) i = Some n"
    and "\<forall>(k', v', c') \<in> set ws. k' = k \<longrightarrow> c' < c \<or> v' = v \<and> c' = c"
    and "(map_of (n_property_clocks n) k = Some c \<and> map_of (n_properties n) k = Some v) \<or>
      ((k, v, c) \<in> set ws \<and> (\<forall>c0. map_of (n_property_clocks n) k = Some c0 \<longrightarrow> c0 < c))"
  shows "\<exists>n'. hm_get (gr_nodes (write_all i ws g)) i = Some n' \<and>
    map_of (n_property_clocks n') k = Some c \<and> map_of (n_properties n') k = Some v"
  using assms
proof (induction ws arbitrary: g n)
  case (Cons w ws)
  obtain k1 v1 c1 where w: "w = (k1, v1, c1)" by (cases w)
  let ?g = "apply_update_property g i k1 v1 c1"
  obtain n1 where n1: "hm_get (gr_nodes ?g) i = Some n1"
    "dominated (n_property_clocks n) k1 c1 \<Longrightarrow> map_of (n_properties n1) = (map_of (n_properties n))(k1 \<mapsto> v1) \<and>
       map_of (n_property_clocks n1) = (map_of (n_property_clocks n))(k1 \<mapsto> c1)"
    "\<not> dominated (n_property_clocks n) k1 c1 \<Longrightarrow> n_properties n1 = n_properties n \<and> n_property_clocks n1 = n_property_clocks n"
    using apply_update_property_node [OF Cons.prems(1)] by metis
  have step: "(map_of (n_property_clocks n1) k = Some c \<and> map_of (n_properties n1) k = Some v) \<or>
      ((k, v, c) \<in> set ws \<and> (\<forall>c0. map_of (n_property_clocks n1) k = Some c0 \<longrightarrow> c0 < c))"
  proof (cases "dominated (n_property_clocks n) k1 c1")
    case True
    with Cons.prems(2,3) n1(2) w show ?thesis
      by (cases "k1 = k") (auto simp: dominated_def clock_wins_iff)
  next
    case False
    with Cons.prems(2,3) n1(3) w show ?thesis
      by (cases "k1 = k") (auto simp: dominated_def clock_wins_iff split: option.splits)
  qed
  have "write_all i (w # ws) g = write_all i ws ?g" by (simp add: write_all_def w)
  with Cons.IH [OF n1(1) _ step] Cons.prems(2) show ?case by auto
qed (auto simp: write_all_def)

text \<open>
  C16. Last writer wins, per property and independently of the order of arrival: if one write of a key has a
  clock that beats every other write of that key and the value stored before, then after applying the
  writes in any order the node holds that write's value and clock.
\<close>

theorem lww_order_independent:
  assumes "hm_get (gr_nodes g) i = Some n"
    and "(k, v, c) \<in> set ws"
    and "\<forall>(k', v', c') \<in> set ws. k' = k \<longrightarrow> clock_wins c c' \<or> v' = v \<and> c' = c"
    and "\<forall>c0. hm_get (n_property_clocks n) k = Some c0 \<longrightarrow> clock_wins c c0"
    and "mset ws' = mset ws"
  shows "\<exists>n'. hm_get (gr_nodes (fold (\<lambda>(k, v, c) g. apply_update_property g i k v c) ws' g)) i = Some n' \<and>
    bt_get (n_properties n') k = Some v \<and> hm_get (n_property_clocks n') k = Some c"
proof -
  have "set ws' = set ws" using assms(5) by (metis set_mset_mset)
  then show ?thesis
    using write_all_wins [OF assms(1), of ws' k c v] assms(2-4) by (auto simp: write_all_def clock_wins_iff)
qed

theorem lww_order_independent_witness:
  "\<exists>n. hm_get (gr_nodes (fold (\<lambda>(k, v, c) g. apply_update_property g ''a'' k v c)
       [(''k'', VInt 7, with_values ''x'' 5 0), (''k'', VInt 6, with_values ''y'' 4 0)] tiny_graph)) ''a'' = Some n \<and>
     bt_get (n_properties n) ''k'' = Some (VInt 7)"
proof -
  obtain n where n: "hm_get (gr_nodes tiny_graph) ''a'' = Some n" "n_property_clocks n = []"
    using tiny_graph_nodes by blast
  have w: "clock_wins (with_values ''x'' 5 0) (with_values ''y'' 4 0)"
    by (simp add: clock_wins_def cmp_order_def cmp_def with_values_def)
  show ?thesis
    using lww_order_independent [OF n(1), of "''k''" "VInt 7" "with_values ''x'' 5 0"
        "[(''k'', VInt 6, with_values ''y'' 4 0), (''k'', VInt 7, with_values ''x'' 5 0)]"
        "[(''k'', VInt 7, with_values ''x'' 5 0), (''k'', VInt 6, with_values ''y'' 4 0)]"] n(2) w by auto
qed

lemma apply_add_node_existing:
  assumes "hm_get (gr_nodes g) i = Some n"
  obtains n' where "hm_get (gr_nodes (apply_add_node g i t st l ps c)) i = Some n'" "\<not> n_tombstoned n'"
    "n_last_add_clock n' = max c (n_last_add_clock n)" "n_type n' = n_type n"
  using assms by (simp add: apply_add_node_def Let_def case_prod_beta update_conv' clock_wins_iff max_def not_less
      split: if_splits)

text \<open>
  Concurrent re-addition and removal of a node are resolved by arrival order when the removal is the
  newer operation. If the removal arrives last the node is gone exactly when the removal's clock beats the
  addition and all earlier additions; if the addition arrives last the node is live, whatever the clocks.
  So two peers that apply the same two operations in different orders disagree exactly when the removal is
  newer.
\<close>

theorem add_remove_arrival_order:
  assumes "hm_get (gr_nodes g) i = Some n"
  shows "(get_node (apply_remove_node (apply_add_node g i t st l ps ca) i cr) i = None \<longleftrightarrow>
      clock_wins cr ca \<and> clock_wins cr (n_last_add_clock n)) \<and>
    get_node (apply_add_node (apply_remove_node g i cr) i t st l ps ca) i \<noteq> None"
proof
  obtain n1 where n1: "hm_get (gr_nodes (apply_add_node g i t st l ps ca)) i = Some n1" "\<not> n_tombstoned n1"
    "n_last_add_clock n1 = max ca (n_last_add_clock n)"
    using apply_add_node_existing [OF assms] by metis
  show "get_node (apply_remove_node (apply_add_node g i t st l ps ca) i cr) i = None \<longleftrightarrow>
      clock_wins cr ca \<and> clock_wins cr (n_last_add_clock n)"
    using n1 by (simp add: get_node_def apply_remove_node_def update_conv' clock_wins_iff)
  obtain m where "hm_get (gr_nodes (apply_remove_node g i cr)) i = Some m"
    using assms by (cases "clock_wins cr (n_last_add_clock n)") (simp_all add: apply_remove_node_def update_conv')
  then obtain n2 where "hm_get (gr_nodes (apply_add_node (apply_remove_node g i cr) i t st l ps ca)) i = Some n2"
    "\<not> n_tombstoned n2"
    using apply_add_node_existing by metis
  then show "get_node (apply_add_node (apply_remove_node g i cr) i t st l ps ca) i \<noteq> None"
    by (simp add: get_node_def)
qed

theorem add_remove_arrival_order_witness:
  "get_node (apply_remove_node (apply_add_node tiny_graph ''a'' ''n'' None ''a'' [] (with_values ''x'' 5 0)) ''a''
      (with_values ''y'' 6 0)) ''a'' = None \<and>
   get_node (apply_add_node (apply_remove_node tiny_graph ''a'' (with_values ''y'' 6 0)) ''a'' ''n'' None ''a'' []
      (with_values ''x'' 5 0)) ''a'' \<noteq> None"
proof -
  obtain n where n: "hm_get (gr_nodes tiny_graph) ''a'' = Some n" "n_last_add_clock n = with_values ''a'' 1 0"
    using tiny_graph_nodes by blast
  have "clock_wins (with_values ''y'' 6 0) (with_values ''x'' 5 0)" "clock_wins (with_values ''y'' 6 0) (with_values ''a'' 1 0)"
    by (simp_all add: clock_wins_def cmp_order_def cmp_def with_values_def)
  then show ?thesis using add_remove_arrival_order [OF n(1)] n(2) by simp
qed

section \<open>Replay\<close>

lemma retry_edge_base [simp]: "gr_base_ontology (retry_edge E e g) = gr_base_ontology g"
  by (auto simp: retry_edge_def Let_def admit_edge_def quarantine_def unquarantine_def apply_add_edge_def case_prod_beta
      split: graph_op.splits option.splits sum.splits)

lemma fold_retry_base: "gr_base_ontology (fold (retry_edge E) es g) = gr_base_ontology g"
  by (induction es arbitrary: g) simp_all

lemma apply_inner_base:
  "gr_base_ontology (apply_inner E g e mode adopt) = gr_base_ontology g"
  "gr_base_ontology (apply_checkpoint E g e adopt i ops clks) = gr_base_ontology g"
proof (induction E g e mode adopt and E g e adopt i ops clks rule: apply_inner_apply_checkpoint.induct)
  case (1 E g e mode adopt)
  then show ?case
    by (auto simp: apply_inner.simps [of E g e] quarantine_def unquarantine_def apply_extend_def apply_add_node_entry_def
        retry_pending_edges_def fold_retry_base apply_add_node_def admit_edge_def apply_add_edge_def apply_update_entry_def
        apply_update_property_def apply_remove_node_def apply_remove_edge_def Let_def case_prod_beta
        split: graph_op.splits option.splits sum.splits)
next
  case (3 E g e adopt i op ops clks)
  then show ?case by (cases op) (simp_all add: Let_def)
qed simp

lemma rebuild_base [simp]: "gr_base_ontology (rebuild E g es) = gr_base_ontology g"
proof -
  have "gr_base_ontology (fold (fold_ontology_step E) es g') = gr_base_ontology g'" for g'
    by (induction es arbitrary: g')
      (auto simp: fold_ontology_step_def quarantine_def split: graph_op.splits prod.splits sum.splits)
  moreover have "gr_base_ontology (fold (\<lambda>e g. if is_extend (en_payload e) then g else apply_inner E g e Full False) es g') =
      gr_base_ontology g'" for g'
    by (induction es arbitrary: g') (auto simp: apply_inner_base)
  ultimately show ?thesis by (simp add: rebuild_def Let_def)
qed

lemma graph_new_base [simp]: "gr_base_ontology (graph_new ont) = ont"
  by (simp add: graph_new_def)

lemma rebuild_from_base: "rebuild E g es = rebuild E (graph_new (gr_base_ontology g)) es"
  by (cases g) (simp add: rebuild_def graph_new_def)

text \<open>
  A rebuild forgets: its result is a function of the base ontology and the entries alone, not of the
  graph it starts from (quarantined entries, pending edges and already merged extensions included), so
  replaying the same log again changes nothing.
\<close>

theorem rebuild_forgets:
  "rebuild E g es = rebuild E (graph_new (gr_base_ontology g)) es \<and> rebuild E (rebuild E g es) es = rebuild E g es"
  using rebuild_from_base [of E g es] rebuild_from_base [of E "rebuild E g es" es] by simp

lemma rebuild_incremental:
  assumes "\<forall>e \<in> set es. \<not> is_extend (en_payload e) \<and> \<not> is_checkpoint (en_payload e)"
  shows "rebuild E g es = apply_all E (graph_new (gr_base_ontology g)) es"
proof -
  have 1: "fold (fold_ontology_step E) es g' = g'" for g'
    using assms by (induction es arbitrary: g')
      (auto simp: fold_ontology_step_def is_extend_def is_checkpoint_def split: graph_op.splits)
  have 2: "fold (\<lambda>e g. if is_extend (en_payload e) then g else apply_inner E g e Full False) es g' =
      fold (\<lambda>e g. graph_apply E g e) es g'" for g'
    using assms
  proof (induction es arbitrary: g')
    case (Cons e es)
    have "apply_inner E g' e Full False = graph_apply E g' e"
      using Cons.prems by (auto simp: graph_apply_def apply_inner.simps is_checkpoint_def split: graph_op.splits)
    with Cons show ?case by simp
  qed simp
  show ?thesis
    by (cases g) (simp add: rebuild_def 1 2 apply_all_def graph_new_def)
qed

text \<open>
  On a log without schema changes and checkpoints the two-pass rebuild and the incremental application
  of the entries one after the other build the same graph.
\<close>

theorem rebuild_is_incremental:
  assumes "\<forall>e \<in> set es. \<not> is_extend (en_payload e) \<and> \<not> is_checkpoint (en_payload e)"
  shows "rebuild E g es = apply_all E (graph_new (gr_base_ontology g)) es"
  using assms by (rule rebuild_incremental)

theorem rebuild_is_incremental_witness: "rebuild (tiny_env id) tiny_graph [add_n 1 ''a'', add_n 2 ''b'', add_l 3 ''e'' ''a'' ''b''] = tiny_graph"
proof -
  have "gr_base_ontology tiny_graph = tiny_ontology"
    by (simp add: tiny_graph_def apply_all_def graph_apply_def apply_inner_base)
  then show ?thesis
    using rebuild_is_incremental [of "[add_n 1 ''a'', add_n 2 ''b'', add_l 3 ''e'' ''a'' ''b'']" "tiny_env id" tiny_graph]
    by (simp add: tiny_graph_def add_n_def add_l_def tiny_entry_def is_extend_def is_checkpoint_def)
qed

section \<open>What the queries and the replay let through\<close>

text \<open>
  The adjacency queries check the far endpoint only: there is a reachable graph in which a removed node
  still has an outgoing edge.
\<close>

theorem removed_node_keeps_edges:
  "\<exists>E g i. graph_run E g \<and> iter_ok E \<and> get_node g i = None \<and> outgoing_edges g i \<noteq> []"
proof (intro exI conjI)
  let ?g = "graph_apply (tiny_env id) tiny_graph (tiny_entry 9 (RemoveNode ''a''))"
  show "graph_run (tiny_env id) ?g" by (intro graph_run.step tiny_graph_run)
  show "iter_ok (tiny_env id)" by (rule tiny_iter_ok)
  have w: "clock_wins (with_values ''a'' 9 0) (with_values ''a'' 1 0)"
    by (simp add: clock_wins_def cmp_order_def cmp_def with_values_def)
  obtain n where "hm_get (gr_nodes tiny_graph) ''a'' = Some n" "n_last_add_clock n = with_values ''a'' 1 0"
    using tiny_graph_nodes by blast
  then have g: "gr_nodes ?g = hm_insert ''a'' (n\<lparr>n_tombstoned := True, n_last_clock := with_values ''a'' 9 0\<rparr>) (gr_nodes tiny_graph)"
    "gr_edges ?g = gr_edges tiny_graph" "gr_outgoing ?g = gr_outgoing tiny_graph"
    using w by (simp_all add: graph_apply_def apply_inner.simps tiny_entry_def unquarantine_def apply_remove_node_def)
  show "get_node ?g ''a'' = None" by (simp add: get_node_def g update_conv')
  show "outgoing_edges ?g ''a'' \<noteq> []"
    using tiny_graph_topology(2,3)
    by (auto simp: outgoing_edges_def index_get_def get_edge_def is_node_live_def map_filter_simps g update_conv'
        tiny_graph_topology(1))
qed

text \<open>An admitted edge keeps its endpoints when the same id is added again.\<close>

lemma retry_edge_target:
  assumes "hm_get (gr_edges g) i = Some ed"
  shows "\<exists>ed'. hm_get (gr_edges (retry_edge E e g)) i = Some ed' \<and> e_target ed' = e_target ed"
  using assms by (auto simp: retry_edge_def Let_def admit_edge_def apply_add_edge_def update_conv' case_prod_beta
      split: graph_op.splits option.splits sum.splits)

lemma retry_edge_admits:
  assumes "hm_get (gr_nodes g) s = Some ns" "hm_get (gr_nodes g) d = Some nd" "n_type ns = ''n''" "n_type nd = ''n''"
    "gr_edges g = []" "gr_ontology g = tiny_ontology"
  shows "\<exists>ed. hm_get (gr_edges (retry_edge E (add_l h i s d) g)) i = Some ed \<and> e_target ed = d"
  using assms by (simp add: retry_edge_def Let_def admit_edge_def hm_contains_def apply_add_edge_def add_l_def tiny_entry_def)

lemma retry_none_ready:
  assumes "iter_ok E" "\<forall>(h, e) \<in> set (gr_pending g). \<not> edge_ready g e"
  shows "retry_pending_edges E g = g"
proof -
  have "set (env_iter E (map snd (gr_pending g))) = snd ` set (gr_pending g)"
    using assms(1) by (metis iter_ok_def set_map set_mset_mset)
  then have "filter (edge_ready g) (env_iter E (map snd (gr_pending g))) = []"
    using assms(2) by (auto simp: filter_empty_conv)
  then show ?thesis by (simp add: retry_pending_edges_def)
qed

lemma add_n_step:
  assumes "gr_ontology g = tiny_ontology"
  shows "graph_apply E g (add_n h i) = retry_pending_edges E
    (apply_add_node (unquarantine g (add_n h i)) i ''n'' None i [] (with_values ''a'' (ucast h) 0))"
  using assms by (simp add: graph_apply_def apply_inner.simps add_n_def tiny_entry_def apply_add_node_entry_def)

lemma released_edge:
  assumes "it = id \<or> it = rev"
  shows "map_option e_target (hm_get (gr_edges (apply_all (tiny_env it) (graph_new tiny_ontology)
    [add_l 1 ''e'' ''a'' ''b'', add_l 2 ''e'' ''a'' ''c'', add_n 3 ''b'', add_n 4 ''c'', add_n 5 ''a''])) ''e'') =
    (case en_payload (hd (it [add_l 1 ''e'' ''a'' ''b'', add_l 2 ''e'' ''a'' ''c''])) of AddEdge _ _ _ d _ \<Rightarrow> Some d)"
proof -
  let ?x = "add_l 1 ''e'' ''a'' ''b''" and ?y = "add_l 2 ''e'' ''a'' ''c''"
  let ?g = "apply_all (tiny_env it) (graph_new tiny_ontology) [?x, ?y, add_n 3 ''b'', add_n 4 ''c'']"
  have g: "gr_pending ?g = [(1, ?x), (2, ?y)]" "gr_edges ?g = []" "gr_ontology ?g = tiny_ontology"
    "hm_get (gr_nodes ?g) ''a'' = None" "\<exists>n. hm_get (gr_nodes ?g) ''b'' = Some n \<and> n_type n = ''n''"
    "\<exists>n. hm_get (gr_nodes ?g) ''c'' = Some n \<and> n_type n = ''n''"
  proof -
    let ?q = "\<lparr>q_op_kind = ''add_edge'', q_reason = QEndpointMissing ''a'' ''b'', q_ontology_hash = 0\<rparr>"
    let ?add = "\<lambda>g h i. apply_add_node (unquarantine g (add_n h i)) i ''n'' None i [] (with_values ''a'' (ucast h) 0)"
    define g2 where "g2 = (graph_new tiny_ontology)\<lparr>gr_pending := [(1, ?x), (2, ?y)],
      gr_quarantined := [(1, ?q), (2, ?q\<lparr>q_reason := QEndpointMissing ''a'' ''c''\<rparr>)]\<rparr>"
    have 2: "apply_all (tiny_env it) (graph_new tiny_ontology) [?x, ?y] = g2"
      by (simp add: apply_all_def graph_apply_def apply_inner.simps add_l_def tiny_entry_def admit_edge_def
          hm_contains_def quarantine_def g2_def tiny_env_def)
    have ok: "iter_ok (tiny_env it)" using assms tiny_iter_ok by blast
    have nr: "\<not> edge_ready g ?x" "\<not> edge_ready g ?y" if "hm_get (gr_nodes g) ''a'' = None" for g
      using that by (simp_all add: edge_ready_def add_l_def tiny_entry_def hm_contains_def)
    have 3: "graph_apply (tiny_env it) g2 (add_n 3 ''b'') = ?add g2 3 ''b''"
      using nr by (subst add_n_step, simp add: g2_def) (intro retry_none_ready [OF ok],
        simp add: g2_def apply_add_node_def unquarantine_def)
    have 4: "graph_apply (tiny_env it) (?add g2 3 ''b'') (add_n 4 ''c'') = ?add (?add g2 3 ''b'') 4 ''c''"
      using nr by (subst add_n_step, simp add: g2_def apply_add_node_def unquarantine_def)
        (intro retry_none_ready [OF ok], simp add: g2_def apply_add_node_def unquarantine_def)
    have "?g = ?add (?add g2 3 ''b'') 4 ''c''" using 2 3 4 by (simp add: apply_all_def)
    then show "gr_pending ?g = [(1, ?x), (2, ?y)]" "gr_edges ?g = []" "gr_ontology ?g = tiny_ontology"
      "hm_get (gr_nodes ?g) ''a'' = None" "\<exists>n. hm_get (gr_nodes ?g) ''b'' = Some n \<and> n_type n = ''n''"
      "\<exists>n. hm_get (gr_nodes ?g) ''c'' = Some n \<and> n_type n = ''n''"
      by (simp_all add: g2_def apply_add_node_def unquarantine_def)
  qed
  define g5 where "g5 = apply_add_node (unquarantine ?g (add_n 5 ''a'')) ''a'' ''n'' None ''a'' [] (with_values ''a'' 5 0)"
  obtain na nb nc where n: "hm_get (gr_nodes g5) ''a'' = Some na" "hm_get (gr_nodes g5) ''b'' = Some nb"
      "hm_get (gr_nodes g5) ''c'' = Some nc" "n_type na = ''n''" "n_type nb = ''n''" "n_type nc = ''n''"
    using g(4-6) by (auto simp: g5_def apply_add_node_def update_conv')
  have h: "gr_pending g5 = [(1, ?x), (2, ?y)]" "gr_edges g5 = []" "gr_ontology g5 = tiny_ontology"
    using g by (simp_all add: g5_def apply_add_node_def)
  have "edge_ready g5 ?x" "edge_ready g5 ?y"
    using n by (simp_all add: edge_ready_def add_l_def tiny_entry_def hm_contains_def)
  then have "retry_pending_edges (tiny_env it) g5 = fold (retry_edge (tiny_env it)) (it [?x, ?y]) g5"
    using assms h(1) by (auto simp: retry_pending_edges_def tiny_env_def)
  moreover have "apply_all (tiny_env it) (graph_new tiny_ontology) [?x, ?y, add_n 3 ''b'', add_n 4 ''c'', add_n 5 ''a''] =
      retry_pending_edges (tiny_env it) g5"
    using add_n_step [OF g(3), of "tiny_env it" 5 "''a''"] by (simp add: apply_all_def g5_def)
  moreover have "\<exists>ed. hm_get (gr_edges (retry_edge E ?x g5)) ''e'' = Some ed \<and> e_target ed = ''b''"
    "\<exists>ed. hm_get (gr_edges (retry_edge E ?y g5)) ''e'' = Some ed \<and> e_target ed = ''c''" for E
    using n h by (auto intro!: retry_edge_admits)
  ultimately show ?thesis
    using assms retry_edge_target [of _ "''e''"] by (fastforce simp: add_l_def tiny_entry_def)
qed

text \<open>
  Edges released by the arrival of an endpoint are admitted in the iteration order of a hash map. If two
  of them carry the same edge id, the first one fixes the edge's endpoints, so two replays of the very same
  entries can build different graphs.
\<close>

theorem replay_depends_on_iteration:
  "\<exists>E E' es. iter_ok E \<and> iter_ok E' \<and>
     map_option e_target (hm_get (gr_edges (rebuild E (graph_new tiny_ontology) es)) ''e'') \<noteq>
     map_option e_target (hm_get (gr_edges (rebuild E' (graph_new tiny_ontology) es)) ''e'')"
proof (intro exI conjI)
  let ?es = "[add_l 1 ''e'' ''a'' ''b'', add_l 2 ''e'' ''a'' ''c'', add_n 3 ''b'', add_n 4 ''c'', add_n 5 ''a'']"
  show "iter_ok (tiny_env id)" "iter_ok (tiny_env rev)" by (rule tiny_iter_ok)+
  have r: "rebuild E (graph_new tiny_ontology) ?es = apply_all E (graph_new tiny_ontology) ?es" for E
    using rebuild_incremental [of ?es E "graph_new tiny_ontology"]
    by (simp add: add_n_def add_l_def tiny_entry_def is_extend_def is_checkpoint_def)
  have t: "map_option e_target (hm_get (gr_edges (rebuild (tiny_env id) (graph_new tiny_ontology) ?es)) ''e'') = Some ''b''"
    "map_option e_target (hm_get (gr_edges (rebuild (tiny_env rev) (graph_new tiny_ontology) ?es)) ''e'') = Some ''c''"
    unfolding r using released_edge [of id] released_edge [of rev] by (simp_all add: add_l_def tiny_entry_def)
  show "map_option e_target (hm_get (gr_edges (rebuild (tiny_env id) (graph_new tiny_ontology) ?es)) ''e'') \<noteq>
     map_option e_target (hm_get (gr_edges (rebuild (tiny_env rev) (graph_new tiny_ontology) ?es)) ''e'')"
    unfolding t by simp
qed

end
