(* ===== verification/Silk_Iteration.thy ===== *)
theory Silk_Iteration
  imports Silk_Materialize
begin


text \<open>
  When the iteration order of hash maps does not matter (\<^verbatim>\<open>src/src/graph.rs\<close>). The only place where the effect
  of the graph code follows the order of a hash map is \<^verbatim>\<open>retry_pending_edges\<close>. Here the graph is seen as finite
  maps and sets (\<open>graph_view\<close>), without the order that its representation has, and every operation is shown to
  respect that view, for any two orders of iteration, on entries in which an edge id always names the same
  edge (\<open>edges_agree\<close>). So two processes with orders of their own build the same graph from the same entries.
\<close>

declare map_of_eq_Some_iff [simp del] Some_eq_map_of_iff [simp del]

section \<open>The graph as maps and sets\<close>

record edge_view =
  ev_name :: "string \<times> string \<times> string \<times> string"
  ev_properties :: "string \<Rightarrow> silk_value option"
  ev_clocks :: "string \<Rightarrow> hybrid_clock option"
  ev_last_clock :: hybrid_clock
  ev_last_add_clock :: hybrid_clock
  ev_tombstoned :: bool

record graph_view =
  vw_nodes :: "string \<Rightarrow> node option"
  vw_edges :: "string \<Rightarrow> edge_view option"
  vw_outgoing :: "string \<Rightarrow> string set"
  vw_incoming :: "string \<Rightarrow> string set"
  vw_by_type :: "string \<Rightarrow> string set"
  vw_ontology :: ontology
  vw_base_ontology :: ontology
  vw_quarantined :: "hash \<Rightarrow> quarantine_record option"
  vw_pending :: "hash \<Rightarrow> entry option"

definition view_edge :: "edge \<Rightarrow> edge_view" where
  "view_edge e = \<lparr>ev_name = (e_id e, e_type e, e_source e, e_target e), ev_properties = bt_get (e_properties e),
     ev_clocks = hm_get (e_property_clocks e), ev_last_clock = e_last_clock e, ev_last_add_clock = e_last_add_clock e,
     ev_tombstoned = e_tombstoned e\<rparr>"

definition view :: "graph \<Rightarrow> graph_view" where
  "view g = \<lparr>vw_nodes = hm_get (gr_nodes g), vw_edges = (\<lambda>i. map_option view_edge (hm_get (gr_edges g) i)),
     vw_outgoing = (\<lambda>i. set (index_get (gr_outgoing g) i)), vw_incoming = (\<lambda>i. set (index_get (gr_incoming g) i)),
     vw_by_type = (\<lambda>t. set (index_get (gr_by_type g) t)), vw_ontology = gr_ontology g, vw_base_ontology = gr_base_ontology g,
     vw_quarantined = hm_get (gr_quarantined g), vw_pending = hm_get (gr_pending g)\<rparr>"

lemma view_simps [simp]:
  "vw_nodes (view g) = hm_get (gr_nodes g)" "vw_edges (view g) i = map_option view_edge (hm_get (gr_edges g) i)"
  "vw_ontology (view g) = gr_ontology g" "vw_base_ontology (view g) = gr_base_ontology g"
  "vw_quarantined (view g) = hm_get (gr_quarantined g)" "vw_pending (view g) = hm_get (gr_pending g)"
  by (simp_all add: view_def)

lemma view_eqD:
  assumes "view g = view g'"
  shows "hm_get (gr_nodes g) = hm_get (gr_nodes g')" "map_option view_edge (hm_get (gr_edges g) i) = map_option view_edge (hm_get (gr_edges g') i)"
    "set (index_get (gr_outgoing g) i) = set (index_get (gr_outgoing g') i)" "set (index_get (gr_incoming g) i) = set (index_get (gr_incoming g') i)"
    "set (index_get (gr_by_type g) i) = set (index_get (gr_by_type g') i)" "gr_ontology g = gr_ontology g'"
    "gr_base_ontology g = gr_base_ontology g'" "hm_get (gr_quarantined g) = hm_get (gr_quarantined g')" "hm_get (gr_pending g) = hm_get (gr_pending g')"
  using assms by (simp_all add: view_def fun_eq_iff)

section \<open>Edges on the view\<close>

text \<open>The last writer wins, key by key; the first occurrence of a repeated key counts.\<close>

definition wins_at :: "(string \<Rightarrow> hybrid_clock option) \<Rightarrow> hybrid_clock \<Rightarrow> string \<Rightarrow> bool" where
  "wins_at clocks c k \<longleftrightarrow> (case clocks k of Some c' \<Rightarrow> c' < c | None \<Rightarrow> True)"

lemma merge_properties_view:
  "map_of (fst (merge_properties_lww props clocks kvs c)) k =
     (if map_of kvs k \<noteq> None \<and> wins_at (map_of clocks) c k then map_of kvs k else map_of props k)"
  "map_of (snd (merge_properties_lww props clocks kvs c)) k =
     (if map_of kvs k \<noteq> None \<and> wins_at (map_of clocks) c k then Some c else map_of clocks k)"
  by (induction props clocks kvs c rule: merge_properties_lww.induct)
    (auto simp: dominated_def wins_at_def clock_wins_iff bt_get_insert update_conv' split: option.splits)

fun edge_added :: "string \<times> string \<times> string \<times> string \<Rightarrow> properties \<Rightarrow> hybrid_clock \<Rightarrow> edge_view option \<Rightarrow> edge_view" where
  "edge_added name ps c None = \<lparr>ev_name = name, ev_properties = bt_get ps, ev_clocks = (\<lambda>k. map_option (\<lambda>_. c) (bt_get ps k)),
     ev_last_clock = c, ev_last_add_clock = c, ev_tombstoned = False\<rparr>"
| "edge_added name ps c (Some v) = v\<lparr>
     ev_properties := (\<lambda>k. if bt_get ps k \<noteq> None \<and> wins_at (ev_clocks v) c k then bt_get ps k else ev_properties v k),
     ev_clocks := (\<lambda>k. if bt_get ps k \<noteq> None \<and> wins_at (ev_clocks v) c k then Some c else ev_clocks v k),
     ev_last_clock := max (ev_last_clock v) c, ev_last_add_clock := max (ev_last_add_clock v) c, ev_tombstoned := False\<rparr>"

text \<open>Two additions of the same edge at different times commute.\<close>

lemma edge_added_commute:
  assumes "c \<noteq> c'"
  shows "edge_added name ps c (Some (edge_added name ps' c' v)) = edge_added name ps' c' (Some (edge_added name ps c v))"
proof (cases v)
  case None
  then show ?thesis using assms by (auto simp: wins_at_def fun_eq_iff max.commute split: option.splits)
next
  case (Some w)
  then show ?thesis
    by (intro edge_view.equality; simp add: wins_at_def fun_eq_iff max.commute max.left_commute) (use assms in \<open>auto split: option.splits\<close>)
qed

definition view_add_edge :: "string \<Rightarrow> string \<Rightarrow> string \<Rightarrow> string \<Rightarrow> properties \<Rightarrow> hybrid_clock \<Rightarrow> graph_view \<Rightarrow> graph_view" where
  "view_add_edge i t s d ps c v = v\<lparr>vw_edges := (vw_edges v)(i \<mapsto> edge_added (i, t, s, d) ps c (vw_edges v i)),
     vw_outgoing := (if vw_edges v i = None then (vw_outgoing v)(s := insert i (vw_outgoing v s)) else vw_outgoing v),
     vw_incoming := (if vw_edges v i = None then (vw_incoming v)(d := insert i (vw_incoming v d)) else vw_incoming v)\<rparr>"

lemma map_of_const: "map_of (map (\<lambda>(k, _). (k, c)) ps) = (\<lambda>k. map_option (\<lambda>_. c) (map_of ps k))"
  by (induction ps) (auto simp: fun_eq_iff)

lemma view_apply_add_edge: "view (apply_add_edge g i t s d ps c) = view_add_edge i t s d ps c (view g)"
proof (cases "hm_get (gr_edges g) i")
  case None
  then show ?thesis
    by (simp add: apply_add_edge_def view_def view_add_edge_def view_edge_def index_get_insert update_conv' map_of_const fun_eq_iff)
next
  case (Some e)
  then show ?thesis
    by (simp add: apply_add_edge_def view_def view_add_edge_def view_edge_def update_conv' Let_def case_prod_beta fun_eq_iff
        merge_properties_view clock_wins_iff max_def not_less)
qed

section \<open>Waiting edges on the view\<close>

text \<open>Why an edge is turned away, if it is: the \<^verbatim>\<open>AddEdge\<close> arm up to its effects.\<close>

definition edge_verdict :: "env \<Rightarrow> (string \<Rightarrow> node option) \<Rightarrow> ontology \<Rightarrow> string \<Rightarrow> string \<Rightarrow> string \<Rightarrow> properties \<Rightarrow> validation_mode \<Rightarrow>
    quarantine_reason option" where
  "edge_verdict E nodes ont t s d ps mode =
     (if \<not> hm_contains (on_edge_types ont) t then Some (QValidation (UnknownEdgeType t))
      else case (nodes s, nodes d) of
        (Some src, Some tgt) \<Rightarrow>
          (case validate_edge_mode (env_regex E) ont t (n_type src) (n_type tgt) ps mode of
             Inl err \<Rightarrow> Some (QValidation err) | Inr _ \<Rightarrow> None)
      | _ \<Rightarrow> Some (QEndpointMissing s d))"

definition view_quarantine :: "env \<Rightarrow> entry \<Rightarrow> string \<Rightarrow> quarantine_reason \<Rightarrow> graph_view \<Rightarrow> graph_view" where
  "view_quarantine E e kind reason v = v\<lparr>vw_quarantined := (vw_quarantined v)(en_hash e \<mapsto>
     \<lparr>q_op_kind = kind, q_reason = reason, q_ontology_hash = env_ontology_hash E (vw_ontology v)\<rparr>)\<rparr>"

definition view_unquarantine :: "entry \<Rightarrow> graph_view \<Rightarrow> graph_view" where
  "view_unquarantine e v = v\<lparr>vw_quarantined := (vw_quarantined v)(en_hash e := None)\<rparr>"

definition waits :: "quarantine_reason \<Rightarrow> bool" where
  "waits reason = (case reason of QEndpointMissing _ _ \<Rightarrow> True | _ \<Rightarrow> False)"

definition view_admit :: "env \<Rightarrow> entry \<Rightarrow> string \<Rightarrow> string \<Rightarrow> string \<Rightarrow> string \<Rightarrow> properties \<Rightarrow> validation_mode \<Rightarrow> graph_view \<Rightarrow> graph_view" where
  "view_admit E e i t s d ps mode v =
     (case edge_verdict E (vw_nodes v) (vw_ontology v) t s d ps mode of
        Some reason \<Rightarrow> view_quarantine E e ''add_edge'' reason
          (if waits reason then v\<lparr>vw_pending := (vw_pending v)(en_hash e \<mapsto> e)\<rparr> else v)
      | None \<Rightarrow> view_add_edge i t s d ps (en_clock e) (view_unquarantine e v))"

definition view_forget :: "hash \<Rightarrow> graph_view \<Rightarrow> graph_view" where
  "view_forget h v = v\<lparr>vw_pending := (vw_pending v)(h := None)\<rparr>"

definition view_retry :: "env \<Rightarrow> entry \<Rightarrow> graph_view \<Rightarrow> graph_view" where
  "view_retry E e v =
     (case en_payload e of
        AddEdge i t s d ps \<Rightarrow> view_admit E e i t s d ps Full (view_forget (en_hash e) v)
      | _ \<Rightarrow> view_forget (en_hash e) v)"

lemma view_quarantine_eq: "view (quarantine E g e kind reason) = view_quarantine E e kind reason (view g)"
  by (simp add: view_def quarantine_def view_quarantine_def update_conv')

lemma view_unquarantine_eq: "view (unquarantine g e) = view_unquarantine e (view g)"
  by (simp add: view_def unquarantine_def view_unquarantine_def delete_conv')

lemma view_pending:
  "view (g\<lparr>gr_pending := hm_insert h e (gr_pending g)\<rparr>) = (view g)\<lparr>vw_pending := (hm_get (gr_pending g))(h \<mapsto> e)\<rparr>"
  "view (g\<lparr>gr_pending := hm_remove h (gr_pending g)\<rparr>) = view_forget h (view g)"
  by (simp_all add: view_forget_def view_def update_conv' delete_conv')

lemma view_admit_edge: "view (admit_edge E g e i t s d ps mode) = view_admit E e i t s d ps mode (view g)"
  by (simp add: admit_edge_def view_admit_def edge_verdict_def view_quarantine_eq view_apply_add_edge view_unquarantine_eq view_pending waits_def
      split: option.splits sum.splits)

lemma view_retry_edge: "view (retry_edge E e g) = view_retry E e (view g)"
  by (simp add: retry_edge_def view_retry_def view_admit_edge view_pending(2) Let_def split: graph_op.splits)

lemma view_retry_fold: "view (fold (retry_edge E) es g) = fold (view_retry E) es (view g)"
  by (induction es arbitrary: g) (simp_all add: view_retry_edge)

text \<open>
  Two additions agree unless they give different endpoints, another type or the same time to one edge id.
\<close>

definition adds_agree :: "entry \<Rightarrow> entry \<Rightarrow> bool" where
  "adds_agree e e' = (case (en_payload e, en_payload e') of
     (AddEdge i t s d _, AddEdge i' t' s' d' _) \<Rightarrow> i = i' \<longrightarrow> t = t' \<and> s = s' \<and> d = d' \<and> en_clock e \<noteq> en_clock e'
   | _ \<Rightarrow> True)"

lemma view_add_edge_commute:
  assumes "i = i' \<Longrightarrow> t = t' \<and> s = s' \<and> d = d' \<and> c \<noteq> c'"
  shows "view_add_edge i t s d ps c (view_add_edge i' t' s' d' ps' c' v) = view_add_edge i' t' s' d' ps' c' (view_add_edge i t s d ps c v)"
proof (cases "i = i'")
  case True
  with assms have same: "t = t'" "s = s'" "d = d'" "c \<noteq> c'" by blast+
  from edge_added_commute [OF this(4), of "(i', t', s', d')" ps ps' "vw_edges v i'"] same(1-3) True show ?thesis
    by (intro graph_view.equality) (simp_all add: view_add_edge_def del: edge_added.simps)
next
  case False
  then show ?thesis
    by (intro graph_view.equality) (auto simp: view_add_edge_def fun_eq_iff)
qed

lemma view_admit_frame [simp]:
  "vw_nodes (view_admit E e i t s d ps mode v) = vw_nodes v" "vw_ontology (view_admit E e i t s d ps mode v) = vw_ontology v"
  by (simp_all add: view_admit_def view_quarantine_def view_unquarantine_def view_add_edge_def split: option.splits)

lemma view_admit_commute:
  assumes "en_hash e \<noteq> en_hash e'" and "i = i' \<Longrightarrow> t = t' \<and> s = s' \<and> d = d' \<and> en_clock e \<noteq> en_clock e'"
  shows "view_admit E e i t s d ps mode (view_admit E e' i' t' s' d' ps' mode v) = view_admit E e' i' t' s' d' ps' mode (view_admit E e i t s d ps mode v)"
proof -
  note add = view_add_edge_commute [OF assms(2)]
  have swap: "view_add_edge i t s d ps c (v\<lparr>vw_quarantined := q\<rparr>) = (view_add_edge i t s d ps c v)\<lparr>vw_quarantined := q\<rparr>"
    "view_add_edge i t s d ps c (v\<lparr>vw_pending := p\<rparr>) = (view_add_edge i t s d ps c v)\<lparr>vw_pending := p\<rparr>"
    "vw_quarantined (view_add_edge i t s d ps c v) = vw_quarantined v" "vw_pending (view_add_edge i t s d ps c v) = vw_pending v"
    "vw_ontology (view_add_edge i t s d ps c v) = vw_ontology v" for i t s d ps c v q p
    by (simp_all add: view_add_edge_def)
  show ?thesis
    unfolding view_admit_def [of E e i t s d ps mode "view_admit E e' i' t' s' d' ps' mode v"]
      view_admit_def [of E e' i' t' s' d' ps' mode "view_admit E e i t s d ps mode v"] view_admit_frame
    using assms(1) by (simp add: view_admit_def view_quarantine_def view_unquarantine_def swap add fun_upd_twist split: option.splits)
qed

lemma view_forget_commute:
  "view_forget h (view_forget h' v) = view_forget h' (view_forget h v)"
  "h \<noteq> en_hash e \<Longrightarrow> view_forget h (view_admit E e i t s d ps mode v) = view_admit E e i t s d ps mode (view_forget h v)"
  "h \<noteq> en_hash e \<Longrightarrow> view_forget h (view_retry E e v) = view_retry E e (view_forget h v)"
proof -
  show 1: "view_forget h (view_forget h' v) = view_forget h' (view_forget h v)" for h' v
    by (intro graph_view.equality) (auto simp: view_forget_def fun_eq_iff)
  show 2: "view_forget h (view_admit E e i t s d ps mode v) = view_admit E e i t s d ps mode (view_forget h v)" if "h \<noteq> en_hash e" for i t s d ps mode v
    using that by (simp add: view_admit_def view_forget_def view_quarantine_def view_unquarantine_def view_add_edge_def fun_upd_twist split: option.splits)
  show "view_forget h (view_retry E e v) = view_retry E e (view_forget h v)" if "h \<noteq> en_hash e"
    using 1 [of "en_hash e" v] 2 [OF that] by (simp add: view_retry_def split: graph_op.splits)
qed

lemma view_retry_commute:
  assumes "en_hash e \<noteq> en_hash e'" "adds_agree e e'"
  shows "view_retry E e (view_retry E e' v) = view_retry E e' (view_retry E e v)"
proof (cases "\<exists>i t s d ps i' t' s' d' ps'. en_payload e = AddEdge i t s d ps \<and> en_payload e' = AddEdge i' t' s' d' ps'")
  case True
  then obtain i t s d ps i' t' s' d' ps' where p: "en_payload e = AddEdge i t s d ps" "en_payload e' = AddEdge i' t' s' d' ps'" by blast
  have agree: "i = i' \<Longrightarrow> t = t' \<and> s = s' \<and> d = d' \<and> en_clock e \<noteq> en_clock e'" using assms(2) p by (simp add: adds_agree_def)
  show ?thesis
    unfolding view_retry_def p graph_op.case view_forget_commute(2) [OF assms(1)] view_forget_commute(2) [OF assms(1) [symmetric]]
      view_forget_commute(1) [of "en_hash e"]
    by (rule view_admit_commute [OF assms(1) agree])
next
  case False
  then have "(\<forall>v. view_retry E e v = view_forget (en_hash e) v) \<or> (\<forall>v. view_retry E e' v = view_forget (en_hash e') v)"
    by (simp add: view_retry_def split: graph_op.splits) blast
  then show ?thesis using view_forget_commute(3) assms(1) by metis
qed

section \<open>Operations respect the view\<close>

definition same_env :: "env \<Rightarrow> env \<Rightarrow> bool" where
  "same_env E E' \<longleftrightarrow> env_regex E = env_regex E' \<and> env_hash E = env_hash E' \<and> env_ontology_hash E = env_ontology_hash E'"

lemma view_edges_eq:
  assumes "view g = view g'"
  shows "(hm_get (gr_edges g) i = None \<and> hm_get (gr_edges g') i = None) \<or>
    (\<exists>e e'. hm_get (gr_edges g) i = Some e \<and> hm_get (gr_edges g') i = Some e' \<and> view_edge e = view_edge e')"
  using view_eqD(2) [OF assms, of i] by (cases "hm_get (gr_edges g) i"; cases "hm_get (gr_edges g') i") auto

lemma view_put_node:
  assumes "view g = view g'"
  shows "view (g\<lparr>gr_nodes := hm_insert i n (gr_nodes g)\<rparr>) = view (g'\<lparr>gr_nodes := hm_insert i n (gr_nodes g')\<rparr>)"
  using assms by (simp add: view_def update_conv' fun_eq_iff)

lemma view_put_type:
  assumes "view g = view g'"
  shows "view (g\<lparr>gr_by_type := index_insert t i (gr_by_type g)\<rparr>) = view (g'\<lparr>gr_by_type := index_insert t i (gr_by_type g')\<rparr>)"
  using assms by (simp add: view_def index_get_insert fun_eq_iff)

lemma view_apply_add_node_cong:
  assumes "view g = view g'"
  shows "view (apply_add_node g i t st l ps c) = view (apply_add_node g' i t st l ps c)"
proof (cases "hm_get (gr_nodes g) i")
  case None
  then show ?thesis
    using view_eqD(1) [OF assms] view_put_node [OF view_put_type [OF assms]] by (simp add: apply_add_node_def)
next
  case (Some n)
  then show ?thesis using view_eqD(1) [OF assms] view_put_node [OF assms] by (simp add: apply_add_node_def Let_def case_prod_beta)
qed

lemma view_apply_remove_node_cong:
  assumes "view g = view g'"
  shows "view (apply_remove_node g i c) = view (apply_remove_node g' i c)"
  using view_eqD(1) [OF assms] view_put_node [OF assms] assms by (cases "hm_get (gr_nodes g) i") (simp_all add: apply_remove_node_def)

lemma view_edge_eqD:
  assumes "view_edge e = view_edge e'"
  shows "e_id e = e_id e'" "e_type e = e_type e'" "e_source e = e_source e'" "e_target e = e_target e'"
    "bt_get (e_properties e) = bt_get (e_properties e')" "hm_get (e_property_clocks e) = hm_get (e_property_clocks e')"
    "e_last_clock e = e_last_clock e'" "e_last_add_clock e = e_last_add_clock e'" "e_tombstoned e = e_tombstoned e'"
  using assms by (simp_all add: view_edge_def)

lemma view_put_edge:
  assumes "view g = view g'" "view_edge e = view_edge e'"
  shows "view (g\<lparr>gr_edges := hm_insert i e (gr_edges g)\<rparr>) = view (g'\<lparr>gr_edges := hm_insert i e' (gr_edges g')\<rparr>)"
  using assms by (simp add: view_def update_conv' fun_eq_iff)

lemma view_apply_remove_edge_cong:
  assumes "view g = view g'"
  shows "view (apply_remove_edge g i c) = view (apply_remove_edge g' i c)"
  using view_edges_eq [OF assms, of i] assms
  by (auto simp: apply_remove_edge_def dest: view_edge_eqD(8) intro!: view_put_edge) (simp add: view_edge_def)+

lemma view_apply_update_property_cong:
  assumes "view g = view g'"
  shows "view (apply_update_property g i k v c) = view (apply_update_property g' i k v c)"
proof (cases "hm_get (gr_nodes g) i")
  case (Some n)
  then have n: "hm_get (gr_nodes g) i = Some n" "hm_get (gr_nodes g') i = Some n" using view_eqD(1) [OF assms] by simp_all
  show ?thesis unfolding apply_update_property_def n option.case Let_def by (rule view_put_node [OF assms])
next
  case None
  then have n: "hm_get (gr_nodes g) i = None" "hm_get (gr_nodes g') i = None" using view_eqD(1) [OF assms] by simp_all
  from view_edges_eq [OF assms, of i] show ?thesis
  proof (elim disjE exE conjE)
    fix e e' assume e: "hm_get (gr_edges g) i = Some e" "hm_get (gr_edges g') i = Some e'" "view_edge e = view_edge e'"
    have d: "dominated (e_property_clocks e) k c = dominated (e_property_clocks e') k c" using view_edge_eqD(6) [OF e(3)] by (simp add: dominated_def)
    show ?thesis
      unfolding apply_update_property_def n e(1,2) option.case Let_def d
      by (rule view_put_edge [OF assms]) (simp add: view_edge_def view_edge_eqD [OF e(3)] bt_get_insert update_conv')
  qed (use n assms in \<open>simp add: apply_update_property_def\<close>)
qed

lemma view_edge_verdict_env:
  assumes "same_env E E'" shows "edge_verdict E = edge_verdict E'"
proof -
  have "env_regex E = env_regex E'" using assms by (simp add: same_env_def)
  then show ?thesis unfolding edge_verdict_def [abs_def] by (rule arg_cong)
qed

lemma view_ops_env:
  assumes "same_env E E'"
  shows "view_quarantine E = view_quarantine E'" "view_admit E = view_admit E'" "view_retry E = view_retry E'"
proof -
  show 1: "view_quarantine E = view_quarantine E'" using assms by (intro ext) (simp add: same_env_def view_quarantine_def)
  show 2: "view_admit E = view_admit E'" unfolding view_admit_def [abs_def] view_edge_verdict_env [OF assms] 1 by (rule refl)
  show "view_retry E = view_retry E'" unfolding view_retry_def [abs_def] 2 by (rule refl)
qed

section \<open>Any order of the waiting edges\<close>

text \<open>Additions, no two of which disagree about an edge id.\<close>

definition edges_agree :: "entry set \<Rightarrow> bool" where
  "edges_agree S \<longleftrightarrow> (\<forall>e \<in> S. \<forall>e' \<in> S. en_hash e \<noteq> en_hash e' \<longrightarrow> adds_agree e e')"

definition waiting_in :: "entry set \<Rightarrow> graph \<Rightarrow> bool" where
  "waiting_in S g \<longleftrightarrow> (\<forall>(h, e) \<in> set (gr_pending g). e \<in> S)"

lemma retry_pending_fold:
  assumes "iter_ok E"
  shows "retry_pending_edges E g = fold (retry_edge E) (filter (edge_ready g) (env_iter E (map snd (gr_pending g)))) g"
proof -
  have "env_iter E [] = []" using assms by (metis iter_ok_def mset_zero_iff)
  then show ?thesis by (simp add: retry_pending_edges_def)
qed

lemma same_pending:
  assumes "hm_wf m" "hm_wf m'" "hm_get m = hm_get m'"
  shows "mset m = mset m'"
proof -
  have "set m = set m'" using assms by (metis map_of_inject_set)
  moreover have "distinct m" "distinct m'" using assms(1,2) by (simp_all add: distinct_map)
  ultimately show ?thesis by (simp add: set_eq_iff_mset_eq_distinct)
qed

lemma retry_any_order:
  assumes "iter_ok E" "iter_ok E'" "same_env E E'" and inv: "almost_inv g" "almost_inv g'" and v: "view g = view g'"
    and S: "edges_agree S" "waiting_in S g"
  shows "view (retry_pending_edges E g) = view (retry_pending_edges E' g')"
proof -
  let ?es = "filter (edge_ready g) (env_iter E (map snd (gr_pending g)))"
    and ?es' = "filter (edge_ready g') (env_iter E' (map snd (gr_pending g')))"
  have "hm_keys (gr_nodes g) = hm_keys (gr_nodes g')" using view_eqD(1) [OF v] by (metis dom_map_of_conv_image_fst)
  then have ready: "edge_ready g = edge_ready g'" using edge_ready_cong by blast
  have "mset (gr_pending g) = mset (gr_pending g')" using inv view_eqD(9) [OF v] by (intro same_pending) (auto simp: almost_inv_def)
  then have "mset (map snd (gr_pending g)) = mset (map snd (gr_pending g'))" by (simp only: mset_map)
  then have m: "mset ?es = mset ?es'" using assms(1,2) ready by (simp add: iter_ok_def)
  have pend: "\<exists>h. (h, e) \<in> set (gr_pending g) \<and> en_hash e = h \<and> e \<in> S" if "e \<in> set ?es" for e
  proof -
    have "e \<in> snd ` set (gr_pending g)" using that assms(1) by (metis filter_is_subset iter_ok_def mset_eq_setD set_map subsetD)
    then show ?thesis using inv(1) S(2) by (fastforce simp: almost_inv_def waiting_in_def)
  qed
  have commute: "view_retry E x \<circ> view_retry E y = view_retry E y \<circ> view_retry E x" if "x \<in> set ?es" "y \<in> set ?es" for x y
  proof (cases "en_hash x = en_hash y")
    case True
    then have "x = y" using pend [OF that(1)] pend [OF that(2)] inv(1) by (auto simp: almost_inv_def intro: eq_key_imp_eq_value)
    then show ?thesis by simp
  next
    case False
    then have "adds_agree x y" using pend [OF that(1)] pend [OF that(2)] S(1) by (auto simp: edges_agree_def)
    with False show ?thesis unfolding o_def by (intro ext view_retry_commute)
  qed
  have "view (retry_pending_edges E g) = fold (view_retry E) ?es (view g)" by (simp only: retry_pending_fold [OF assms(1)] view_retry_fold)
  also have "\<dots> = fold (view_retry E) ?es' (view g)" by (rule fun_cong [OF fold_multiset_equiv [OF commute m]])
  also have "\<dots> = view (retry_pending_edges E' g')"
    by (simp only: retry_pending_fold [OF assms(2)] view_retry_fold view_ops_env(3) [OF assms(3)] v)
  finally show ?thesis .
qed

section \<open>Replays with different orders\<close>

text \<open>The edge additions of an entry: itself, or those inside a checkpoint, as \<^verbatim>\<open>apply_inner\<close> builds them.\<close>

definition checkpoint_item :: "content_hash \<Rightarrow> entry \<Rightarrow> nat \<Rightarrow> graph_op \<Rightarrow> (u64 \<times> u32) list \<Rightarrow> entry" where
  "checkpoint_item H e i op clks = entry_new H op [] []
     (if i < length clks then with_values (en_author e) (fst (clks ! i)) (snd (clks ! i)) else en_clock e) (en_author e)"

function edge_adds :: "content_hash \<Rightarrow> entry \<Rightarrow> entry list"
  and checkpoint_adds :: "content_hash \<Rightarrow> entry \<Rightarrow> nat \<Rightarrow> graph_op list \<Rightarrow> (u64 \<times> u32) list \<Rightarrow> entry list" where
  "edge_adds H e = (case en_payload e of
     AddEdge _ _ _ _ _ \<Rightarrow> [e] | Checkpoint ops clks _ _ \<Rightarrow> checkpoint_adds H e 0 ops clks | _ \<Rightarrow> [])"
| "checkpoint_adds H e i [] clks = []"
| "checkpoint_adds H e i (op # ops) clks = edge_adds H (checkpoint_item H e i op clks) @ checkpoint_adds H e (Suc i) ops clks"
  by pat_completeness auto

termination
  by (relation "measure (\<lambda>x. case x of Inl (H, e) \<Rightarrow> 2 * size (en_payload e) | Inr (H, e, i, ops, clks) \<Rightarrow> 1 + 2 * size_list size ops)")
    (auto simp: checkpoint_item_def entry_new_def)

lemma waiting_simps [simp]:
  "waiting_in S (quarantine E g e k r) = waiting_in S g" "waiting_in S (unquarantine g e) = waiting_in S g"
  "waiting_in S (g\<lparr>gr_ontology := ont\<rparr>) = waiting_in S g"
  "waiting_in S (apply_remove_node g i c) = waiting_in S g" "waiting_in S (apply_remove_edge g i c) = waiting_in S g"
  "waiting_in S (apply_add_node g i t st l ps c) = waiting_in S g" "waiting_in S (apply_add_edge g i t s d ps c) = waiting_in S g"
  "waiting_in S (apply_update_property g i k v c) = waiting_in S g"
  by (simp_all add: waiting_in_def quarantine_def unquarantine_def apply_remove_node_def apply_remove_edge_def apply_add_node_def
      apply_add_edge_def apply_update_property_def Let_def case_prod_beta split: option.splits)

lemma waiting_admit: "waiting_in S g \<Longrightarrow> e \<in> S \<Longrightarrow> waiting_in S (admit_edge E g e i t s d ps mode)"
proof -
  assume "waiting_in S g" "e \<in> S"
  moreover from this have "waiting_in S (g\<lparr>gr_pending := hm_insert (en_hash e) e (gr_pending g)\<rparr>)"
    by (auto simp: waiting_in_def dest!: set_hm_insert)
  ultimately show ?thesis by (simp add: admit_edge_def split: option.splits sum.splits)
qed

lemma waiting_retry:
  assumes "iter_ok E" "almost_inv g" "waiting_in S g"
  shows "waiting_in S (retry_pending_edges E g)"
  unfolding retry_pending_fold [OF assms(1)]
  using retry_edges_fold [OF assms(2), of "filter (edge_ready g) (env_iter E (map snd (gr_pending g)))" E] assms(3)
  by (auto simp: waiting_in_def)

lemma view_put_ontology: "view g = view g' \<Longrightarrow> view (g\<lparr>gr_ontology := ont\<rparr>) = view (g'\<lparr>gr_ontology := ont\<rparr>)"
  by (simp add: view_def)

lemma view_quarantine_cong: "same_env E E' \<Longrightarrow> view g = view g' \<Longrightarrow> view (quarantine E g e k r) = view (quarantine E' g' e k r)"
  by (simp add: view_quarantine_eq view_ops_env(1))

lemma view_unquarantine_cong: "view g = view g' \<Longrightarrow> view (unquarantine g e) = view (unquarantine g' e)"
  by (simp add: view_unquarantine_eq)

text \<open>Each arm of \<^verbatim>\<open>apply_inner\<close> for two orders of iteration.\<close>

lemma add_node_any_order:
  assumes E: "iter_ok E" "iter_ok E'" "same_env E E'" and inv: "graph_inv g" "graph_inv g'" and v: "view g = view g'"
    and S: "edges_agree S" "waiting_in S g"
  shows "view (apply_add_node_entry E g e i t st l ps mode) = view (apply_add_node_entry E' g' e i t st l ps mode) \<and>
    waiting_in S (apply_add_node_entry E g e i t st l ps mode)"
proof -
  let ?add = "\<lambda>g. apply_add_node (unquarantine g e) i t st l ps (en_clock e)"
  have add: "almost_inv (?add g)" "almost_inv (?add g')" using inv by (auto intro!: apply_add_node_inv unquarantine_inv)
  have "view (?add g) = view (?add g')" by (intro view_apply_add_node_cong view_unquarantine_cong v)
  from retry_any_order [OF E add this S(1)] S(2) have "view (retry_pending_edges E (?add g)) = view (retry_pending_edges E' (?add g'))" by simp
  moreover have "waiting_in S (retry_pending_edges E (?add g))" using S(2) by (intro waiting_retry [OF E(1) add(1)]) simp
  moreover have "validate_node_mode (env_regex E) (gr_ontology g) t st ps mode = validate_node_mode (env_regex E') (gr_ontology g') t st ps mode"
    using E(3) view_eqD(6) [OF v] by (simp add: same_env_def)
  ultimately show ?thesis
    using view_quarantine_cong [OF E(3) v] S(2) by (simp add: apply_add_node_entry_def split: sum.splits)
qed

lemma update_any_order:
  assumes E: "same_env E E'" and v: "view g = view g'"
  shows "view (apply_update_entry E g e i k x) = view (apply_update_entry E' g' e i k x)"
proof -
  define judge where "judge E g = (case hm_get (gr_nodes g) i of
      Some n \<Rightarrow> validate_property_update (env_regex E) (gr_ontology g) (n_type n) (n_subtype n) k x
    | None \<Rightarrow> (case hm_get (gr_edges g) i of
         Some ed \<Rightarrow> validate_edge_property_update (env_regex E) (gr_ontology g) (e_type ed) k x | None \<Rightarrow> Inr ()))" for E :: env and g :: graph
  have env: "env_regex E = env_regex E'" using E by (simp add: same_env_def)
  have same: "judge E g = judge E' g'"
    using view_edges_eq [OF v, of i]
    by (cases "hm_get (gr_nodes g') i"; elim disjE exE conjE) (simp_all add: judge_def env view_eqD(1,6) [OF v], metis view_edge_eqD(2))
  have upd: "view (apply_update_property (unquarantine g e) i k x (en_clock e)) = view (apply_update_property (unquarantine g' e) i k x (en_clock e))"
    by (intro view_apply_update_property_cong view_unquarantine_cong v)
  have entry: "apply_update_entry E g e i k x = (case judge E g of Inl err \<Rightarrow> quarantine E g e ''update_property'' (QValidation err)
      | Inr _ \<Rightarrow> apply_update_property (unquarantine g e) i k x (en_clock e))" for E g
    by (simp only: apply_update_entry_def judge_def Let_def)
  show ?thesis
    unfolding entry same by (cases "judge E' g'") (simp_all only: sum.case upd view_quarantine_cong [OF E v])
qed

lemma extend_any_order:
  assumes "same_env E E'" "view g = view g'"
  shows "view (apply_extend E g e ext) = view (apply_extend E' g' e ext)"
  using view_eqD(6) [OF assms(2)] view_quarantine_cong [OF assms(1) view_put_ontology [OF assms(2)]]
    view_unquarantine_cong [OF view_put_ontology [OF assms(2)]]
  by (simp add: apply_extend_def split: prod.splits sum.splits)

lemma waiting_update: "waiting_in S g \<Longrightarrow> waiting_in S (apply_update_entry E g e i k x)" "waiting_in S g \<Longrightarrow> waiting_in S (apply_extend E g e ext)"
  by (simp_all add: apply_update_entry_def apply_extend_def Let_def split: sum.splits prod.splits)

definition checkpoint_step :: "env \<Rightarrow> graph \<Rightarrow> entry \<Rightarrow> bool \<Rightarrow> nat \<Rightarrow> graph_op \<Rightarrow> (u64 \<times> u32) list \<Rightarrow> graph" where
  "checkpoint_step E g e adopt i op clks =
     (case op of DefineOntology ont \<Rightarrow> if adopt then g\<lparr>gr_ontology := ont\<rparr> else g
      | _ \<Rightarrow> apply_inner E g (checkpoint_item (env_hash E) e i op clks) SkipRequired True)"

lemma apply_checkpoint_Cons:
  "apply_checkpoint E g e adopt i (op # ops) clks = apply_checkpoint E (checkpoint_step E g e adopt i op clks) e adopt (Suc i) ops clks"
  by (cases op) (simp_all add: checkpoint_step_def checkpoint_item_def Let_def del: apply_inner.simps)

lemma ontology_inv: "graph_inv g \<Longrightarrow> graph_inv (g\<lparr>gr_ontology := ont\<rparr>)"
  by (simp add: graph_inv_def)

lemma checkpoint_step_inv: "iter_ok E \<Longrightarrow> graph_inv g \<Longrightarrow> graph_inv (checkpoint_step E g e adopt i op clks)"
  by (simp add: checkpoint_step_def ontology_inv apply_inner_inv(1) del: apply_inner.simps split: graph_op.split)

lemma checkpoint_any_order:
  assumes E: "iter_ok E" "iter_ok E'" "same_env E E'"
    and step: "\<And>op g g' i. op \<in> set ops \<Longrightarrow> graph_inv g \<Longrightarrow> graph_inv g' \<Longrightarrow> view g = view g' \<Longrightarrow> waiting_in S g \<Longrightarrow>
      set (edge_adds (env_hash E) (checkpoint_item (env_hash E) e i op clks)) \<subseteq> S \<Longrightarrow>
      view (apply_inner E g (checkpoint_item (env_hash E) e i op clks) SkipRequired True) =
        view (apply_inner E' g' (checkpoint_item (env_hash E) e i op clks) SkipRequired True) \<and>
      waiting_in S (apply_inner E g (checkpoint_item (env_hash E) e i op clks) SkipRequired True)"
  shows "graph_inv g \<Longrightarrow> graph_inv g' \<Longrightarrow> view g = view g' \<Longrightarrow> waiting_in S g \<Longrightarrow> set (checkpoint_adds (env_hash E) e i ops clks) \<subseteq> S \<Longrightarrow>
    view (apply_checkpoint E g e adopt i ops clks) = view (apply_checkpoint E' g' e adopt i ops clks) \<and>
    waiting_in S (apply_checkpoint E g e adopt i ops clks)"
  using step
proof (induction ops arbitrary: g g' i)
  case (Cons op ops)
  let ?step = "\<lambda>E g. checkpoint_step E g e adopt i op clks"
  have H: "env_hash E' = env_hash E" using E(3) by (simp add: same_env_def)
  have adds: "set (edge_adds (env_hash E) (checkpoint_item (env_hash E) e i op clks)) \<subseteq> S" "set (checkpoint_adds (env_hash E) e (Suc i) ops clks) \<subseteq> S"
    using Cons.prems(5) by (simp_all del: edge_adds.simps)
  have "view (?step E g) = view (?step E' g') \<and> waiting_in S (?step E g)"
    using Cons.prems(6) [of op g g' i, OF _ Cons.prems(1-4) adds(1)] view_put_ontology [OF Cons.prems(3)] Cons.prems(3,4)
    by (cases op) (simp_all add: checkpoint_step_def H del: apply_inner.simps edge_adds.simps)
  then have next_view: "view (?step E g) = view (?step E' g')" "waiting_in S (?step E g)" by blast+
  show ?case
    unfolding apply_checkpoint_Cons
    by (rule Cons.IH [OF checkpoint_step_inv [OF E(1) Cons.prems(1)] checkpoint_step_inv [OF E(2) Cons.prems(2)] next_view adds(2)])
      (rule Cons.prems(6) [OF list.set_intros(2)])
qed simp

lemma apply_any_order:
  assumes E: "iter_ok E" "iter_ok E'" "same_env E E'" and S: "edges_agree S"
  shows "graph_inv g \<Longrightarrow> graph_inv g' \<Longrightarrow> view g = view g' \<Longrightarrow> waiting_in S g \<Longrightarrow> set (edge_adds (env_hash E) e) \<subseteq> S \<Longrightarrow>
    view (apply_inner E g e mode adopt) = view (apply_inner E' g' e mode adopt) \<and> waiting_in S (apply_inner E g e mode adopt)"
proof (induction "size (en_payload e)" arbitrary: e g g' mode adopt rule: less_induct)
  case less
  note prems = less.prems
  show ?case
  proof (cases "en_payload e")
    case (Checkpoint ops clks p l)
    have "view (apply_checkpoint E g e adopt 0 ops clks) = view (apply_checkpoint E' g' e adopt 0 ops clks) \<and>
        waiting_in S (apply_checkpoint E g e adopt 0 ops clks)"
    proof (rule checkpoint_any_order [OF E _ prems(1-4)])
      fix op h h' i assume "op \<in> set ops"
      then have "size (en_payload (checkpoint_item (env_hash E) e i op clks)) < size (en_payload e)"
        using size_list_estimation' [of op ops "size op" size] Checkpoint by (simp add: checkpoint_item_def entry_new_def)
      from less.hyps [OF this] show "graph_inv h \<Longrightarrow> graph_inv h' \<Longrightarrow> view h = view h' \<Longrightarrow> waiting_in S h \<Longrightarrow>
          set (edge_adds (env_hash E) (checkpoint_item (env_hash E) e i op clks)) \<subseteq> S \<Longrightarrow>
          view (apply_inner E h (checkpoint_item (env_hash E) e i op clks) SkipRequired True) =
            view (apply_inner E' h' (checkpoint_item (env_hash E) e i op clks) SkipRequired True) \<and>
          waiting_in S (apply_inner E h (checkpoint_item (env_hash E) e i op clks) SkipRequired True)" .
    qed (use prems(5) Checkpoint in simp)
    then show ?thesis using Checkpoint by (simp add: apply_inner.simps [of _ _ e] view_unquarantine_eq)
  next
    case (AddNode i t st l ps)
    then show ?thesis using add_node_any_order [OF E prems(1-3) S prems(4)] by (simp add: apply_inner.simps [of _ _ e])
  next
    case (AddEdge i t s d ps)
    then have "e \<in> S" using prems(5) by simp
    then show ?thesis using AddEdge prems(3,4) view_ops_env(2) [OF E(3)]
      by (simp add: apply_inner.simps [of _ _ e] view_admit_edge waiting_admit)
  next
    case (ExtendOntology ext)
    then show ?thesis using extend_any_order [OF E(3) prems(3)] waiting_update(2) [OF prems(4)] by (simp add: apply_inner.simps [of _ _ e])
  next
    case (UpdateProperty i k x)
    then show ?thesis using update_any_order [OF E(3) prems(3)] waiting_update(1) [OF prems(4)] by (simp add: apply_inner.simps [of _ _ e])
  next
    case (RemoveNode i)
    then show ?thesis using view_apply_remove_node_cong [OF view_unquarantine_cong [OF prems(3)]] prems(4) by (simp add: apply_inner.simps [of _ _ e])
  next
    case (RemoveEdge i)
    then show ?thesis using view_apply_remove_edge_cong [OF view_unquarantine_cong [OF prems(3)]] prems(4) by (simp add: apply_inner.simps [of _ _ e])
  qed (use prems in \<open>simp_all add: apply_inner.simps [of _ _ e]\<close>)
qed

lemma fold_ontology_any_order:
  assumes "same_env E E'" "view g = view g'"
  shows "view (fold (fold_ontology_step E) es g) = view (fold (fold_ontology_step E') es g')"
  using assms(2)
proof (induction es arbitrary: g g')
  case (Cons e es)
  have "view (fold_ontology_step E e g) = view (fold_ontology_step E' e g')"
    using view_eqD(6) [OF Cons.prems] view_put_ontology [OF Cons.prems] view_quarantine_cong [OF assms(1) view_put_ontology [OF Cons.prems]] Cons.prems
    by (cases "en_payload e") (simp_all add: fold_ontology_step_def split: prod.splits sum.splits)
  then show ?case by (simp add: Cons.IH)
qed simp

lemma fold_ontology_frame: "gr_pending (fold (fold_ontology_step E) es g) = gr_pending g"
  by (induction es arbitrary: g) (simp_all add: fold_ontology_step_def quarantine_def split: graph_op.split prod.split sum.split)

text \<open>
  The entries agree about the edges: the additions in them, those inside checkpoints included, give an edge id
  one type and one pair of endpoints, and never the same clock twice.
\<close>

definition log_edges_agree :: "content_hash \<Rightarrow> entry list \<Rightarrow> bool" where
  "log_edges_agree H es \<longleftrightarrow> edges_agree (set (concat (map (edge_adds H) es)))"

lemma rebuild_any_order:
  assumes E: "iter_ok E" "iter_ok E'" "same_env E E'" and "gr_base_ontology g = gr_base_ontology g'" and S: "log_edges_agree (env_hash E) es"
  shows "view (rebuild E g es) = view (rebuild E' g' es)"
proof -
  let ?S = "set (concat (map (edge_adds (env_hash E)) es))"
  let ?apply = "\<lambda>E e g. if is_extend (en_payload e) then g else apply_inner E g e Full False"
  let ?g0 = "graph_new (gr_base_ontology g)" and ?g1 = "\<lambda>E. fold (fold_ontology_step E) es (graph_new (gr_base_ontology g))"
  have rebuild: "rebuild E (graph_new ont) es = fold (?apply E) es (fold (fold_ontology_step E) es (graph_new ont))" for E ont
    by (simp add: rebuild_def Let_def graph_new_def)
  have start: "graph_inv (?g1 E)" for E by (rule fold_inv [where P = graph_inv]) (auto intro: graph_new_inv fold_ontology_step_inv)
  have "view (fold (?apply E) xs h) = view (fold (?apply E') xs h')"
    if "set xs \<subseteq> set es" "graph_inv h" "graph_inv h'" "view h = view h'" "waiting_in ?S h" for xs h h'
    using that
  proof (induction xs arbitrary: h h')
    case (Cons e xs)
    have "set (edge_adds (env_hash E) e) \<subseteq> ?S" using Cons.prems(1) by (auto simp del: edge_adds.simps)
    from apply_any_order [OF E S [unfolded log_edges_agree_def] Cons.prems(2-5) this]
    have "view (?apply E e h) = view (?apply E' e h') \<and> waiting_in ?S (?apply E e h)" using Cons.prems(4,5) by (simp del: apply_inner.simps)
    note step = this [THEN conjunct1] this [THEN conjunct2]
    have inv: "graph_inv (?apply E e h)" "graph_inv (?apply E' e h')" using Cons.prems(2,3) E(1,2) apply_inner_inv(1) by auto
    have "set xs \<subseteq> set es" using Cons.prems(1) by simp
    from Cons.IH [OF this inv step] show ?case by (simp only: fold_simps(2))
  qed simp
  moreover have "view (?g1 E) = view (?g1 E')" by (rule fold_ontology_any_order [OF E(3) refl])
  moreover have "waiting_in ?S (?g1 E)" by (simp add: waiting_in_def fold_ontology_frame graph_new_def del: edge_adds.simps)
  ultimately have "view (fold (?apply E) es (?g1 E)) = view (fold (?apply E') es (?g1 E'))" using start by blast
  then show ?thesis
    unfolding rebuild_from_base [of E g es] rebuild_from_base [of E' g' es] assms(4) [symmetric] rebuild .
qed

section \<open>What the queries see\<close>

lemma view_observed:
  assumes "view g = view g'"
  shows "get_node g i = get_node g' i" "map_option view_edge (get_edge g i) = map_option view_edge (get_edge g' i)"
    "view_edge ` set (outgoing_edges g i) = view_edge ` set (outgoing_edges g' i)"
    "view_edge ` set (incoming_edges g i) = view_edge ` set (incoming_edges g' i)"
proof -
  show n: "get_node g i = get_node g' i" for i using view_eqD(1) [OF assms] by (simp add: get_node_def)
  show e: "map_option view_edge (get_edge g i) = map_option view_edge (get_edge g' i)" for i
    using view_edges_eq [OF assms, of i] by (auto simp: get_edge_def dest: view_edge_eqD(9))
  have live: "is_node_live g j = is_node_live g' j" for j using view_eqD(1) [OF assms] by (simp add: is_node_live_def)
  have get: "(\<exists>x. get_edge g j = Some x \<and> Q x \<and> w = view_edge x) \<longleftrightarrow> (\<exists>x. get_edge g' j = Some x \<and> Q x \<and> w = view_edge x)"
    if "\<And>x y. view_edge x = view_edge y \<Longrightarrow> Q x = Q y" for j w Q
  proof (cases "get_edge g j")
    case (Some x)
    then obtain y where y: "get_edge g' j = Some y" "view_edge x = view_edge y" using e [of j] by (cases "get_edge g' j") auto
    then show ?thesis using Some that [OF y(2)] by auto
  qed (use e [of j] in auto)
  have out: "view_edge ` set (outgoing_edges h i) = {w. \<exists>j \<in> set (index_get (gr_outgoing h) i). \<exists>x. get_edge h j = Some x \<and> is_node_live h (e_target x) \<and> w = view_edge x}"
    and inc: "view_edge ` set (incoming_edges h i) = {w. \<exists>j \<in> set (index_get (gr_incoming h) i). \<exists>x. get_edge h j = Some x \<and> is_node_live h (e_source x) \<and> w = view_edge x}" for h
    by (auto simp: outgoing_edges_def incoming_edges_def set_map_filter)
  show "view_edge ` set (outgoing_edges g i) = view_edge ` set (outgoing_edges g' i)"
    unfolding out live view_eqD(3) [OF assms] using get [of "\<lambda>x. is_node_live g' (e_target x)", OF arg_cong [OF view_edge_eqD(4)]] by simp
  show "view_edge ` set (incoming_edges g i) = view_edge ` set (incoming_edges g' i)"
    unfolding inc live view_eqD(4) [OF assms] using get [of "\<lambda>x. is_node_live g' (e_source x)", OF arg_cong [OF view_edge_eqD(3)]] by simp
qed

text \<open>
  C17. A replay does not depend on the iteration order of hash maps. Take two processes whose maps hand out their
  values in orders of their own, with the same regex engine and hashes, and entries in which an edge id always
  names the same edge: any two additions under one edge id give it the same type and endpoints, and different
  clocks (inside checkpoints too). Then the graphs that both rebuild over one ontology have the same nodes, edges,
  adjacency, quarantine, waiting edges and ontology.
\<close>

theorem replay_order_independent:
  assumes "iter_ok E" and "iter_ok E'" and "same_env E E'" and "log_edges_agree (env_hash E) es"
    and g: "g = rebuild E (graph_new ont) es" and g': "g' = rebuild E' (graph_new ont) es"
  shows "get_node g i = get_node g' i \<and> map_option view_edge (get_edge g i) = map_option view_edge (get_edge g' i) \<and>
    view_edge ` set (outgoing_edges g i) = view_edge ` set (outgoing_edges g' i) \<and>
    view_edge ` set (incoming_edges g i) = view_edge ` set (incoming_edges g' i) \<and>
    hm_get (gr_quarantined g) h = hm_get (gr_quarantined g') h \<and> hm_get (gr_pending g) h = hm_get (gr_pending g') h \<and> gr_ontology g = gr_ontology g'"
proof -
  have v: "view g = view g'" unfolding g g' by (rule rebuild_any_order [OF assms(1-3) refl assms(4)])
  show ?thesis using view_observed [OF v] view_eqD(6-9) [OF v] by simp
qed

text \<open>Two edges that wait for the same node, released in opposite orders.\<close>

theorem replay_order_independent_witness:
  "let es = [add_l 1 ''e'' ''a'' ''b'', add_l 2 ''f'' ''a'' ''b'', add_l 3 ''e'' ''a'' ''b'', add_n 4 ''b'', add_n 5 ''a''] in
     map_option view_edge (get_edge (rebuild (tiny_env id) (graph_new tiny_ontology) es) ''e'') =
     map_option view_edge (get_edge (rebuild (tiny_env rev) (graph_new tiny_ontology) es) ''e'')"
proof -
  let ?es = "[add_l 1 ''e'' ''a'' ''b'', add_l 2 ''f'' ''a'' ''b'', add_l 3 ''e'' ''a'' ''b'', add_n 4 ''b'', add_n 5 ''a'']"
  have "same_env (tiny_env id) (tiny_env rev)" by (simp add: same_env_def tiny_env_def)
  moreover have "log_edges_agree (env_hash (tiny_env id)) ?es"
    by (simp add: log_edges_agree_def edges_agree_def adds_agree_def add_l_def add_n_def tiny_entry_def with_values_def edge_adds.simps)
  ultimately show ?thesis
    unfolding Let_def using replay_order_independent [OF tiny_iter_ok(1,2) _ _ refl refl, of ?es tiny_ontology "''e''"] by blast
qed

end
