(* ===== verification/Silk_Convergence.thy ===== *)
theory Silk_Convergence
  imports Silk_Sync Silk_Iteration
begin

text \<open>
  The guarantees of the sync protocol, over the operations of \<^verbatim>\<open>Silk_Sync\<close>: the ancestor closure of what is
  sent is complete, the merge loop accepts a causally closed batch in any order, offers are always valid,
  and one exchange in each direction makes two logs, and the graphs rebuilt from them, equal.
\<close>

section \<open>The ancestor closure\<close>

interpretation ac: worklist_push "sendable_parents log rh" "closure_loop log rh" for log rh
proof unfold_locales
  fix v q :: "hash list"
  show "closure_loop log rh v [] = v" by simp
  assume "q \<noteq> []"
  then obtain h q0 where q: "q = h # q0" by (cases q) auto
  show "\<exists>h q0 v' q'. mset q = add_mset h (mset q0) \<and> closure_loop log rh v q = closure_loop log rh v' q' \<and>
      set v' = set v \<union> set (sendable_parents log rh h) \<and>
      set q' = set q0 \<union> (set (sendable_parents log rh h) - set v) \<and>
      length q' = length q0 + card (set (sendable_parents log rh h) - set v) \<and> (distinct v \<longrightarrow> distinct v')"
  proof (cases "oplog_get log h")
    case None
    then show ?thesis
      unfolding q by (intro exI [of _ h] exI [of _ q0] exI [of _ v]) (simp add: sendable_parents_def)
  next
    case (Some e)
    obtain v' q' where p: "push_parents log rh (en_next e) v q0 = (v', q')" by fastforce
    obtain new where new: "v' = v @ new" "q' = q0 @ new" "distinct new" "set new \<inter> set v = {}"
      "set new = {p \<in> set (en_next e). p \<notin> set rh \<and> oplog_get log p \<noteq> None} - set v"
      using push_parents_spec [OF p] by blast
    have s: "set new = set (sendable_parents log rh h) - set v" using new(5) Some by (auto simp: sendable_parents_def)
    then have "length new = card (set (sendable_parents log rh h) - set v)" using distinct_card [OF new(3)] by simp
    with Some p new s show ?thesis
      unfolding q by (intro exI [of _ h] exI [of _ q0] exI [of _ v'] exI [of _ q']) auto
  qed
qed

lemma closure_loop_closed:
  assumes "distinct send"
  shows "set send \<subseteq> set (closure_loop log rh send send)"
    and "x \<in> set (closure_loop log rh send send) \<Longrightarrow> set (sendable_parents log rh x) \<subseteq> set (closure_loop log rh send send)"
    and "set (closure_loop log rh send send) \<subseteq> set send \<union> {h. oplog_get log h \<noteq> None}"
proof -
  have c: "set (closure_loop log rh send send) = (succ_rel (sendable_parents log rh))\<^sup>* `` set send"
    using ac.run_closure(1) [of log rh send send] assms by simp
  show "set send \<subseteq> set (closure_loop log rh send send)" unfolding c by auto
  show "x \<in> set (closure_loop log rh send send) \<Longrightarrow> set (sendable_parents log rh x) \<subseteq> set (closure_loop log rh send send)"
    unfolding c using rtrancl_Image_step by fast
  show "set (closure_loop log rh send send) \<subseteq> set send \<union> {h. oplog_get log h \<noteq> None}"
    unfolding c by (rule rtrancl_Image_closed) (auto simp: sendable_parents_def split: option.splits)
qed

section \<open>Causally closed logs\<close>

abbreviation stored :: "oplog \<Rightarrow> hash set" where
  "stored log \<equiv> dom (oplog_get log)"

lemma keys_stored: "hm_keys (ol_entries log) = stored log"
  by (auto simp: oplog_get_def hm_keys_dom)

lemma stored_iff: "h \<in> stored log \<longleftrightarrow> oplog_get log h \<noteq> None"
  by (simp add: domIff)

lemmas stored_invD = oplog_invD [unfolded keys_stored]

text \<open>Entries of two logs with the same hash are the same entry: no collision between the two.\<close>

definition agree :: "oplog \<Rightarrow> oplog \<Rightarrow> bool" where
  "agree A B \<longleftrightarrow> (\<forall>h e e'. oplog_get A h = Some e \<longrightarrow> oplog_get B h = Some e' \<longrightarrow> e = e')"

lemma agree_sym: "agree A B \<Longrightarrow> agree B A"
  by (auto simp: agree_def)

lemma causal_stored: "oplog_inv H log \<Longrightarrow> (p, h) \<in> causal log \<Longrightarrow> p \<in> stored log \<and> h \<in> stored log"
  using stored_invD(3) [of H log] causal_Range [of log, unfolded keys_stored] by blast

lemma parent_stored:
  assumes "oplog_inv H B" "agree A B" "(p, h) \<in> causal A" "h \<in> stored B"
  shows "p \<in> stored B"
proof -
  obtain e where e: "oplog_get A h = Some e" "p \<in> set (en_next e)" using assms(3) by (auto simp: causal_def oplog_get_def)
  obtain e' where "oplog_get B h = Some e'" using assms(4) by (auto simp: stored_iff)
  then have "oplog_get B h = Some e" using assms(2) e(1) unfolding agree_def by blast
  with e(2) have "(p, h) \<in> causal B" by (auto simp: causal_def oplog_get_def)
  then show ?thesis using causal_stored [OF assms(1)] by blast
qed

lemma ancestor_stored:
  assumes "oplog_inv H B" "agree A B" "(p, h) \<in> (causal A)\<^sup>*" "h \<in> stored B"
  shows "p \<in> stored B"
  using assms(3)
proof (induction rule: converse_rtrancl_induct)
  case (step y z)
  show ?case using parent_stored [OF assms(1,2) step(1,3)] .
qed (rule assms(4))

lemma heads_cover:
  assumes "oplog_inv H log" "h \<in> stored log"
  shows "\<exists>x \<in> set (ol_heads log). (h, x) \<in> (causal log)\<^sup>*"
proof -
  note D = stored_invD [OF assms(1)]
  have "wf ((causal log)\<inverse>)" using D(9) by (intro finite_acyclic_wf) (auto simp: acyclic_converse)
  then show ?thesis using assms(2)
  proof (induction h rule: wf_induct_rule)
    case (less h)
    show ?case
    proof (cases "h \<in> Domain (causal log)")
      case True
      then obtain c where c: "(h, c) \<in> causal log" by blast
      then obtain x where "x \<in> set (ol_heads log)" "(c, x) \<in> (causal log)\<^sup>*"
        using less.IH [of c] causal_stored [OF assms(1)] by auto
      with c show ?thesis by (meson converse_rtrancl_into_rtrancl)
    next
      case False
      then show ?thesis using D(4) less.prems by auto
    qed
  qed
qed

section \<open>What is sent\<close>

lemma bloom_misses_Some: "bloom_validate b = Inr () \<Longrightarrow> \<exists>hs. bloom_misses b es = Some hs \<and> set hs \<subseteq> en_hash ` set es"
proof (induction es)
  case (Cons e es)
  obtain c where "bloom_contains b (en_hash e) = Some c"
    using bloom_indices_Some [OF Cons.prems] bloom_contains_iff [OF Cons.prems] by blast
  with Cons show ?case by auto
qed simp

lemma fold_hs_insert: "set (fold hs_insert xs s) = set xs \<union> set s" "distinct s \<Longrightarrow> distinct (fold hs_insert xs s)"
  by (induction xs arbitrary: s) auto

definition sendable :: "oplog \<Rightarrow> oplog \<Rightarrow> entry list \<Rightarrow> bool" where
  "sendable A B es \<longleftrightarrow>
     (\<forall>e \<in> set es. oplog_get A (en_hash e) = Some e \<and>
        (\<forall>p \<in> set (en_next e). p \<in> stored B \<or> p \<in> en_hash ` set es))"

text \<open>
  The closure of the hashes to send, with the listing cut down to it: every entry of the sender is with the
  receiver or in the payload, and the parents of what is sent are too.
\<close>

lemma closure_sendable:
  assumes A: "oplog_inv H A" and B: "oplog_inv H B" and "agree A B" and rh: "set rh \<subseteq> stored B"
    and all: "set (map en_hash all) = stored A" "\<forall>e \<in> set all. oplog_get A (en_hash e) = Some e"
    and send: "distinct send" "set send \<subseteq> stored A" "set (ol_heads A) \<subseteq> set send \<union> set rh"
  defines "es \<equiv> filter (\<lambda>e. en_hash e \<in> set (closure_loop A rh send send)) all"
  shows "stored A \<subseteq> stored B \<union> en_hash ` set es" "sendable A B es"
proof -
  let ?S = "set (closure_loop A rh send send)"
  note cl = closure_loop_closed [OF send(1), where log = A and rh = rh]
  have "?S \<subseteq> stored A" using cl(3) send(2) by (auto simp: stored_iff)
  then have es: "en_hash ` set es = ?S" using all(1) by (auto simp: es_def)
  have step: "p \<in> ?S \<or> p \<in> stored B" if "(p, x) \<in> causal A" "x \<in> ?S" for p x
  proof (cases "p \<in> set rh")
    case False
    with that(1) causal_stored [OF A that(1)] have "p \<in> set (sendable_parents A rh x)"
      by (auto simp: sendable_parents_def causal_def oplog_get_def stored_iff split: option.splits)
    then show ?thesis using cl(2) [OF that(2)] by blast
  qed (use rh in auto)
  have path: "h \<in> ?S \<or> h \<in> stored B" if "(h, x) \<in> (causal A)\<^sup>*" "x \<in> ?S \<or> x \<in> stored B" for h x
    using that by (induction rule: converse_rtrancl_induct) (use step parent_stored [OF B assms(3)] in blast)+
  show "stored A \<subseteq> stored B \<union> en_hash ` set es"
  proof
    fix h assume "h \<in> stored A"
    then obtain x where x: "x \<in> set (ol_heads A)" "(h, x) \<in> (causal A)\<^sup>*" using heads_cover [OF A] by blast
    have "x \<in> ?S \<or> x \<in> stored B" using x(1) cl(1) rh send(3) by blast
    then show "h \<in> stored B \<union> en_hash ` set es" using path [OF x(2)] es by auto
  qed
  show "sendable A B es"
    unfolding sendable_def es
  proof (intro ballI conjI)
    fix e assume e: "e \<in> set es"
    then show g: "oplog_get A (en_hash e) = Some e" using all(2) by (simp add: es_def)
    fix p assume "p \<in> set (en_next e)"
    then have "(p, en_hash e) \<in> causal A" using g by (auto simp: causal_def oplog_get_def)
    then show "p \<in> stored B \<or> p \<in> ?S" using step e by (auto simp: es_def)
  qed
qed

lemma entries_missing_ok:
  assumes A: "oplog_inv H A" "well_linked A" and B: "oplog_inv H B" and "agree A B"
    and offer: "set (so_heads offer) \<subseteq> stored B" "bloom_validate (so_bloom offer) = Inr ()"
  shows "\<exists>es. entries_missing A offer = Some \<lparr>sp_entries = es, sp_need = compute_need A (so_heads offer)\<rparr> \<and>
    stored A \<subseteq> stored B \<union> en_hash ` set es \<and> sendable A B es"
proof -
  let ?rh = "so_heads offer"
  obtain all where all: "entries_since A None = Some all" "set (map en_hash all) = stored A"
    "\<forall>e \<in> set all. oplog_get A (en_hash e) = Some e"
  proof -
    have "entries_since A None = topo_sort A (filter (\<lambda>h. h \<notin> {}) (reachable_from A (ol_heads A)))"
      by (simp add: entries_since_def)
    then show ?thesis using delta_correct [OF A, of "{}", unfolded keys_stored] that by auto
  qed
  show ?thesis
  proof (cases "set (ol_heads A) \<subseteq> set ?rh")
    case True
    have "stored A \<subseteq> stored B"
    proof
      fix h assume "h \<in> stored A"
      then obtain x where x: "x \<in> set (ol_heads A)" "(h, x) \<in> (causal A)\<^sup>*" using heads_cover [OF A(1)] by blast
      then have "x \<in> stored B" using True offer(1) by blast
      then show "h \<in> stored B" by (rule ancestor_stored [OF B assms(4) x(2)])
    qed
    with True all(1) show ?thesis by (simp add: entries_missing_def Let_def sendable_def)
  next
    case False
    obtain misses where m: "bloom_misses (so_bloom offer) all = Some misses" "set misses \<subseteq> stored A"
      using bloom_misses_Some [OF offer(2), of all] all(2) by auto
    let ?send = "fold hs_insert (filter (\<lambda>h. h \<notin> set ?rh) (ol_heads A)) (remdups misses)"
    have "distinct ?send" "set ?send \<subseteq> stored A" "set (ol_heads A) \<subseteq> set ?send \<union> set ?rh"
      using m(2) stored_invD(4) [OF A(1)] by (auto simp: fold_hs_insert)
    from closure_sendable [OF A(1) B assms(4) offer(1) all(2,3) this]
    show ?thesis using False all(1) m(1) by (simp add: entries_missing_def Let_def)
  qed
qed

section \<open>The merge loop\<close>

text \<open>The receiver's log after some entries \<open>D\<close> of the sender have arrived.\<close>

definition grown :: "content_hash \<Rightarrow> oplog \<Rightarrow> oplog \<Rightarrow> hash set \<Rightarrow> oplog \<Rightarrow> bool" where
  "grown H B A D L \<longleftrightarrow> oplog_inv H L \<and> D \<inter> stored B = {} \<and> D \<subseteq> stored A \<and>
     oplog_get L = (\<lambda>h. case oplog_get B h of Some e \<Rightarrow> Some e | None \<Rightarrow> if h \<in> D then oplog_get A h else None)"

lemma grown_stored: "grown H B A D L \<Longrightarrow> stored L = stored B \<union> D"
  by (auto simp: grown_def stored_iff split: option.splits if_splits)

definition no_foreign_root :: "oplog \<Rightarrow> entry list \<Rightarrow> bool" where
  "no_foreign_root B es \<longleftrightarrow> (\<forall>e \<in> set es. en_next e = [] \<longrightarrow> is_checkpoint (en_payload e) \<longrightarrow> en_hash e \<in> stored B)"

lemma append_grown:
  assumes A: "oplog_inv H A" "oplog_get A (en_hash e) = Some e" and g: "grown H B A D L"
    and root: "no_foreign_root B [e]"
  shows "en_hash e \<in> stored L \<Longrightarrow> oplog_append H L e = (L, Inr False)"
    and "en_hash e \<notin> stored L \<Longrightarrow> set (en_next e) \<subseteq> stored L \<Longrightarrow>
      \<exists>L'. oplog_append H L e = (L', Inr True) \<and> grown H B A (insert (en_hash e) D) L'"
    and "en_hash e \<notin> stored L \<Longrightarrow> \<not> set (en_next e) \<subseteq> stored L \<Longrightarrow> \<exists>p. oplog_append H L e = (L, Inl (MissingParent p))"
proof -
  have v: "verify_hash H e" using oplog_invD(2) [OF A(1)] A(2) by (simp add: oplog_get_def)
  have inv: "oplog_inv H L" using g by (simp add: grown_def)
  show "en_hash e \<in> stored L \<Longrightarrow> oplog_append H L e = (L, Inr False)"
    using v by (simp add: oplog_append_def hm_contains_iff keys_stored)
  assume new: "en_hash e \<notin> stored L"
  then have nc: "\<not> (en_next e = [] \<and> is_checkpoint (en_payload e))"
    using root grown_stored [OF g] by (auto simp: no_foreign_root_def)
  show "\<exists>L'. oplog_append H L e = (L', Inr True) \<and> grown H B A (insert (en_hash e) D) L'" if p: "set (en_next e) \<subseteq> stored L"
  proof -
    have "find (\<lambda>p. \<not> hm_contains (ol_entries L) p) (en_next e) = None"
      using p by (auto simp: find_None_list_all hm_contains_iff keys_stored)
    then have app: "oplog_append H L e = (insert_entry L e, Inr True)"
      using v new nc by (auto simp: oplog_append_def hm_contains_iff keys_stored)
    have "oplog_get (insert_entry L e) = (oplog_get L)(en_hash e \<mapsto> e)"
      by (simp add: oplog_get_def insert_entry_simps update_conv' fun_eq_iff)
    moreover have "oplog_get B (en_hash e) = None" using new grown_stored [OF g] by (auto simp: stored_iff)
    ultimately have "grown H B A (insert (en_hash e) D) (insert_entry L e)"
      using g A(2) insert_entry_inv [OF inv v new [folded keys_stored] p [folded keys_stored]] by (auto simp: grown_def stored_iff fun_eq_iff split: option.splits)
    with app show ?thesis by blast
  qed
  show "\<exists>p. oplog_append H L e = (L, Inl (MissingParent p))" if p: "\<not> set (en_next e) \<subseteq> stored L"
  proof -
    have "find (\<lambda>p. \<not> hm_contains (ol_entries L) p) (en_next e) \<noteq> None"
      using p by (auto simp: find_None_list_all hm_contains_iff keys_stored)
    then show ?thesis using v new nc by (auto simp: oplog_append_def hm_contains_iff keys_stored)
  qed
qed

lemma merge_pass_grown:
  assumes A: "oplog_inv H A"
  shows "grown H B A D L \<Longrightarrow> finite D \<Longrightarrow> \<forall>e \<in> set es. oplog_get A (en_hash e) = Some e \<Longrightarrow> no_foreign_root B es \<Longrightarrow>
    \<exists>L' D' rest. merge_pass H L es (card D) nr = (L', Inr (card D', nr @ rest)) \<and> grown H B A D' L' \<and> finite D' \<and>
      D \<subseteq> D' \<and> D' \<subseteq> D \<union> en_hash ` set es \<and> set rest \<subseteq> set es \<and> length rest \<le> length es \<and>
      (\<forall>e \<in> set es. e \<in> set rest \<or> en_hash e \<in> stored L') \<and>
      ((\<exists>e \<in> set es. set (en_next e) \<subseteq> stored L) \<longrightarrow> length rest < length es)"
proof (induction es arbitrary: D L nr)
  case Nil
  then show ?case by (intro exI [of _ L] exI [of _ D] exI [of _ "[]"]) simp
next
  case (Cons e es)
  have root: "no_foreign_root B [e]" "no_foreign_root B es" using Cons.prems(4) by (auto simp: no_foreign_root_def)
  have e: "oplog_get A (en_hash e) = Some e" and es: "\<forall>e \<in> set es. oplog_get A (en_hash e) = Some e"
    using Cons.prems(3) by auto
  note app = append_grown [OF A e Cons.prems(1) root(1)]
  consider (dup) "en_hash e \<in> stored L" | (new) "en_hash e \<notin> stored L" "set (en_next e) \<subseteq> stored L"
    | (wait) "en_hash e \<notin> stored L" "\<not> set (en_next e) \<subseteq> stored L" by blast
  then show ?case
  proof cases
    case dup
    obtain L' D' rest where IH: "merge_pass H L es (card D) nr = (L', Inr (card D', nr @ rest))" "grown H B A D' L'"
      "finite D'" "D \<subseteq> D'" "D' \<subseteq> D \<union> en_hash ` set es" "set rest \<subseteq> set es" "length rest \<le> length es"
      "\<forall>e \<in> set es. e \<in> set rest \<or> en_hash e \<in> stored L'"
      using Cons.IH [OF Cons.prems(1,2) es root(2), of nr] by (elim exE conjE) (rule that; assumption)
    have "en_hash e \<in> stored L'" using dup IH(4) grown_stored [OF IH(2)] grown_stored [OF Cons.prems(1)] by blast
    with IH app(1) [OF dup] show ?thesis by (intro exI [of _ L'] exI [of _ D'] exI [of _ rest]) auto
  next
    case new
    obtain L1 where L1: "oplog_append H L e = (L1, Inr True)" "grown H B A (insert (en_hash e) D) L1"
      using app(2) [OF new] by blast
    have c: "card (insert (en_hash e) D) = card D + 1"
      using new(1) grown_stored [OF Cons.prems(1)] Cons.prems(2) by simp
    obtain L' D' rest where IH: "merge_pass H L1 es (card (insert (en_hash e) D)) nr = (L', Inr (card D', nr @ rest))"
      "grown H B A D' L'" "finite D'" "insert (en_hash e) D \<subseteq> D'" "D' \<subseteq> insert (en_hash e) D \<union> en_hash ` set es"
      "set rest \<subseteq> set es" "length rest \<le> length es" "\<forall>e \<in> set es. e \<in> set rest \<or> en_hash e \<in> stored L'"
      using Cons.IH [OF L1(2) finite.insertI [OF Cons.prems(2)] es root(2), of nr] by (elim exE conjE) (rule that; assumption)
    have "en_hash e \<in> stored L'" using IH(4) grown_stored [OF IH(2)] by blast
    with IH L1(1) c show ?thesis by (intro exI [of _ L'] exI [of _ D'] exI [of _ rest]) auto
  next
    case wait
    obtain p where p: "oplog_append H L e = (L, Inl (MissingParent p))" using app(3) [OF wait] by blast
    obtain L' D' rest where IH: "merge_pass H L es (card D) (nr @ [e]) = (L', Inr (card D', (nr @ [e]) @ rest))"
      "grown H B A D' L'" "finite D'" "D \<subseteq> D'" "D' \<subseteq> D \<union> en_hash ` set es" "set rest \<subseteq> set es" "length rest \<le> length es"
      "\<forall>e \<in> set es. e \<in> set rest \<or> en_hash e \<in> stored L'"
      "(\<exists>e \<in> set es. set (en_next e) \<subseteq> stored L) \<longrightarrow> length rest < length es"
      using Cons.IH [OF Cons.prems(1,2) es root(2), of "nr @ [e]"] by (elim exE conjE) (rule that; assumption)
    with p wait(2) show ?thesis by (intro exI [of _ L'] exI [of _ D'] exI [of _ "e # rest"]) auto
  qed
qed

text \<open>Among the entries that wait, one of the oldest has all its parents in the log.\<close>

lemma some_ready:
  assumes A: "oplog_inv H A" and batch: "sendable A B batch" and L: "stored B \<subseteq> stored L"
    and rem: "rem \<noteq> []" "set rem \<subseteq> set batch" "\<forall>e \<in> set batch. e \<in> set rem \<or> en_hash e \<in> stored L"
  shows "\<exists>e \<in> set rem. set (en_next e) \<subseteq> stored L"
proof -
  have "wf (causal A)" using oplog_invD(9) [OF A] by (intro finite_acyclic_wf) auto
  moreover have "en_hash ` set rem \<noteq> {}" using rem(1) by simp
  ultimately obtain h where h: "h \<in> en_hash ` set rem" "\<And>p. (p, h) \<in> causal A \<Longrightarrow> p \<notin> en_hash ` set rem"
    using wfE_min' [of "causal A" "en_hash ` set rem"] by metis
  then obtain e where e: "e \<in> set rem" "h = en_hash e" by blast
  have get: "oplog_get A (en_hash e) = Some e" and parents: "\<forall>p \<in> set (en_next e). p \<in> stored B \<or> p \<in> en_hash ` set batch"
    using batch e(1) rem(2) unfolding sendable_def by blast+
  have "p \<in> stored L" if "p \<in> set (en_next e)" for p
  proof -
    have "(p, h) \<in> causal A" using get e(2) that by (auto simp: causal_def oplog_get_def)
    then have "p \<notin> en_hash ` set rem" by (rule h(2))
    then show ?thesis using parents that rem(3) L by blast
  qed
  with e(1) show ?thesis by blast
qed

lemma merge_loop_grown:
  assumes A: "oplog_inv H A" and batch: "sendable A B batch"
  shows "grown H B A D L \<Longrightarrow> finite D \<Longrightarrow> D \<subseteq> en_hash ` set batch \<Longrightarrow> set rem \<subseteq> set batch \<Longrightarrow> no_foreign_root B rem \<Longrightarrow>
    \<forall>e \<in> set batch. e \<in> set rem \<or> en_hash e \<in> stored L \<Longrightarrow> length rem < passes \<Longrightarrow>
    \<exists>L' D'. merge_loop H passes L rem (card D) = (L', Inr (card D')) \<and> grown H B A D' L' \<and> finite D' \<and>
      D' \<subseteq> en_hash ` set batch \<and> en_hash ` set batch \<subseteq> stored L'"
proof (induction passes arbitrary: L D rem)
  case (Suc passes)
  show ?case
  proof (cases "rem = []")
    case True
    with Suc.prems show ?thesis by (intro exI [of _ L] exI [of _ D]) auto
  next
    case False
    have mem: "\<forall>e \<in> set rem. oplog_get A (en_hash e) = Some e"
      using batch Suc.prems(4) unfolding sendable_def by blast
    obtain L' D' rest where p: "merge_pass H L rem (card D) [] = (L', Inr (card D', [] @ rest))" "grown H B A D' L'"
      "finite D'" "D \<subseteq> D'" "D' \<subseteq> D \<union> en_hash ` set rem" "set rest \<subseteq> set rem" "length rest \<le> length rem"
      "\<forall>e \<in> set rem. e \<in> set rest \<or> en_hash e \<in> stored L'"
      "(\<exists>e \<in> set rem. set (en_next e) \<subseteq> stored L) \<longrightarrow> length rest < length rem"
      using merge_pass_grown [OF A Suc.prems(1,2) mem Suc.prems(5), of "[]"] by (elim exE conjE) (rule that; assumption)
    have "stored B \<subseteq> stored L" using grown_stored [OF Suc.prems(1)] by blast
    then have less: "length rest < length rem" using some_ready [OF A batch _ False Suc.prems(4,6)] p(9) by blast
    have st: "stored L \<subseteq> stored L'" using grown_stored [OF p(2)] grown_stored [OF Suc.prems(1)] p(4) by blast
    have "\<exists>L'' D''. merge_loop H passes L' rest (card D') = (L'', Inr (card D'')) \<and> grown H B A D'' L'' \<and> finite D'' \<and>
        D'' \<subseteq> en_hash ` set batch \<and> en_hash ` set batch \<subseteq> stored L''"
    proof (rule Suc.IH [OF p(2,3)])
      show "D' \<subseteq> en_hash ` set batch" using p(5) Suc.prems(3,4) by blast
      show "set rest \<subseteq> set batch" using p(6) Suc.prems(4) by blast
      show "no_foreign_root B rest" using Suc.prems(5) p(6) unfolding no_foreign_root_def by blast
      show "\<forall>e \<in> set batch. e \<in> set rest \<or> en_hash e \<in> stored L'" using Suc.prems(6) p(8) st by blast
      show "length rest < passes" using less Suc.prems(7) by simp
    qed
    then show ?thesis using False p(1) less by simp
  qed
qed simp

lemma merge_entries_grown:
  assumes "oplog_inv H A" "oplog_inv H B" "sendable A B es" "no_foreign_root B es"
  shows "\<exists>L. merge_entries H B es = (L, Inr (card (en_hash ` set es - stored B))) \<and>
    grown H B A (en_hash ` set es - stored B) L"
proof -
  have "grown H B A {} B" using assms(2) by (auto simp: grown_def fun_eq_iff split: option.splits)
  from merge_loop_grown [OF assms(1,3) this _ _ _ assms(4), of "length es + 1"]
  obtain L D where L: "merge_loop H (length es + 1) B es (card {}) = (L, Inr (card D))" "grown H B A D L"
    "D \<subseteq> en_hash ` set es" "en_hash ` set es \<subseteq> stored L"
    by auto
  have "D = en_hash ` set es - stored B"
    using L(2-4) grown_stored [OF L(2)] by (auto simp: grown_def)
  with L show ?thesis by (auto simp: merge_entries_def)
qed

section \<open>Offers\<close>

lemma bloom_new_valid:
  assumes "0 < n" "snd (dims n) \<le> 32"
  shows "\<exists>b. bloom_new dims n = Some b \<and> bloom_validate b = Inr () \<and> bl_count b = 0"
proof -
  have "max (fst (dims n)) 64 \<noteq> (0 :: u64)" "max (snd (dims n)) 1 \<noteq> (0 :: u32)" "\<not> 32 < max (snd (dims n)) (1 :: u32)"
    using assms(2) by (auto simp: max_def)
  moreover have "unat m \<le> (unat m + 63) div 64 * 64" for m :: u64 by linarith
  ultimately show ?thesis using assms(1) by (auto simp: bloom_new_def bloom_validate_def Let_def not_less)
qed

lemma insert_hashes_valid:
  "bloom_validate b = Inr () \<Longrightarrow> unat (bl_count b) + length es < 2 ^ 64 \<Longrightarrow> \<exists>b'. insert_hashes b es = Some b' \<and> bloom_validate b' = Inr () \<and>
     (\<forall>h. bloom_contains b h = Some True \<or> h \<in> en_hash ` set es \<longrightarrow> bloom_contains b' h = Some True)"
proof (induction es arbitrary: b)
  case (Cons e es)
  obtain b1 where b1: "bloom_insert b (en_hash e) = Some b1" "bloom_validate b1 = Inr ()" "bloom_contains b1 (en_hash e) = Some True"
    "bl_count b1 = bl_count b + 1" "\<And>h'. bloom_contains b h' = Some True \<Longrightarrow> bloom_contains b1 h' = Some True"
    using bloom_insert_ok [OF Cons.prems(1), of "en_hash e"] Cons.prems(2) by auto
  have "unat (bl_count b1) = unat (bl_count b) + 1" using Cons.prems(2) unfolding b1(4) by (subst unat_add_lem [THEN iffD1]) auto
  with Cons.IH [OF b1(2)] Cons.prems(2) b1 show ?case by auto
qed auto

lemma all_entries:
  assumes "oplog_inv H log" "well_linked log"
  obtains es where "entries_since log None = Some es" "distinct (map en_hash es)" "en_hash ` set es = stored log"
    "\<And>e. e \<in> set es \<Longrightarrow> oplog_get log (en_hash e) = Some e"
proof -
  have "entries_since log None = topo_sort log (filter (\<lambda>h. h \<notin> {}) (reachable_from log (ol_heads log)))"
    by (simp add: entries_since_def)
  then show ?thesis using delta_correct [OF assms, of "{}", unfolded keys_stored] that by auto
qed

lemma offer_ok:
  assumes "oplog_inv H log" "well_linked log" "\<forall>n. snd (dims n) \<le> 32" "card (stored log) < 2 ^ 64"
  obtains offer where "offer_from_oplog dims log pm lg = Some offer" "so_heads offer = ol_heads log"
    "bloom_validate (so_bloom offer) = Inr ()" "so_protocol_version offer = PROTOCOL_VERSION"
    "\<And>h. h \<in> stored log \<Longrightarrow> bloom_contains (so_bloom offer) h = Some True"
proof -
  obtain es where es: "entries_since log None = Some es" "distinct (map en_hash es)" "en_hash ` set es = stored log"
    using all_entries [OF assms(1,2)] by metis
  then have len: "length es < 2 ^ 64" using assms(4) distinct_card [OF es(2)] by simp
  obtain b where b: "bloom_new dims (max (length es) 128) = Some b" "bloom_validate b = Inr ()" "bl_count b = 0"
    using bloom_new_valid [of "max (length es) 128" dims] assms(3) by (auto simp: less_max_iff_disj)
  obtain b' where b': "insert_hashes b es = Some b'" "bloom_validate b' = Inr ()"
    "\<forall>h. bloom_contains b h = Some True \<or> h \<in> en_hash ` set es \<longrightarrow> bloom_contains b' h = Some True"
    using insert_hashes_valid [OF b(2), of es] b(3) len by auto
  show ?thesis
    using that [of "\<lparr>so_protocol_version = PROTOCOL_VERSION, so_heads = ol_heads log, so_bloom = b', so_physical_ms = pm, so_logical = lg\<rparr>"]
      es b b' by (simp add: offer_from_oplog_def)
qed

section \<open>Equal logs\<close>

lemma entries_since_cong:
  assumes "oplog_inv H A" "oplog_inv H B" "oplog_get A = oplog_get B"
  shows "entries_since A known = entries_since B known" and "set (ol_heads A) = set (ol_heads B)"
proof -
  have s: "same_log A B" using assms(3) by (simp add: same_log_def oplog_get_def fun_eq_iff)
  show heads: "set (ol_heads A) = set (ol_heads B)"
    using stored_invD(4) [OF assms(1)] stored_invD(4) [OF assms(2)] same_log_causal [OF s] assms(3) by simp
  have b: "back_links A = back_links B" using s by (simp add: same_log_def back_links_def fun_eq_iff)
  have r: "set (reachable_from A hs) = set (reachable_from B hs')" if "set hs = set hs'" for hs hs'
    using that by (simp add: set_reachable_from b)
  show "entries_since A known = entries_since B known"
    unfolding entries_since_def Let_def using r [OF heads] r [OF refl]
    by (cases known) (auto intro!: topo_sort_cong [OF assms(1,2) s] simp: distinct_reachable_from)
qed

lemma grown_well_linked:
  assumes "well_linked A" "well_linked B" "grown H B A D L" "stored A \<subseteq> stored L"
  shows "well_linked L"
  unfolding well_linked_def keys_stored
proof (intro allI impI)
  fix h e assume e: "oplog_get L h = Some e"
  have L: "stored L = stored B \<union> D" by (rule grown_stored [OF assms(3)])
  have "oplog_get B h = Some e \<or> oplog_get A h = Some e"
    using e assms(3) by (auto simp: grown_def split: option.splits if_splits)
  then show "distinct (en_next e) \<and> set (en_refs e) \<subseteq> stored L"
    using assms(1,2,4) L unfolding well_linked_def keys_stored by blast
qed

text \<open>A checkpoint without parents that only one of two logs holds would replace the other log.\<close>

definition shared_checkpoints :: "oplog \<Rightarrow> oplog \<Rightarrow> bool" where
  "shared_checkpoints A B \<longleftrightarrow>
     (\<forall>h e. oplog_get A h = Some e \<or> oplog_get B h = Some e \<longrightarrow> en_next e = [] \<longrightarrow> is_checkpoint (en_payload e) \<longrightarrow>
        h \<in> stored A \<inter> stored B)"

lemma shared_checkpoints_sym: "shared_checkpoints A B = shared_checkpoints B A"
  by (auto simp: shared_checkpoints_def)

lemma no_foreign_root_shared:
  assumes "oplog_inv H A" "shared_checkpoints A B" "sendable A B es"
  shows "no_foreign_root B es"
  using assms(2,3) unfolding no_foreign_root_def shared_checkpoints_def sendable_def by blast

text \<open>One direction of an exchange: answer the offer of \<open>B\<close> from \<open>A\<close>, merge the answer into \<open>B\<close>.\<close>

lemma exchange_one_way:
  assumes A: "oplog_inv H A" "well_linked A" and B: "oplog_inv H B" and "agree A B" "shared_checkpoints A B"
    and offer: "set (so_heads offer) \<subseteq> stored B" "bloom_validate (so_bloom offer) = Inr ()"
  obtains payload B' where "entries_missing A offer = Some payload"
    "merge_entries H B (sp_entries payload) = (B', Inr (card (stored A - stored B)))"
    "grown H B A (stored A - stored B) B'"
proof -
  obtain es where es: "entries_missing A offer = Some \<lparr>sp_entries = es, sp_need = compute_need A (so_heads offer)\<rparr>"
    "stored A \<subseteq> stored B \<union> en_hash ` set es" "sendable A B es"
    using entries_missing_ok [OF A B assms(4) offer] by blast
  have "en_hash ` set es \<subseteq> stored A" using es(3) by (auto simp: sendable_def)
  then have D: "en_hash ` set es - stored B = stored A - stored B" using es(2) by blast
  show ?thesis
    using merge_entries_grown [OF A(1) B es(3) no_foreign_root_shared [OF A(1) assms(5) es(3)]] es(1) that unfolding D by fastforce
qed

lemma grown_meet:
  assumes "grown H B A (stored A - stored B) B'" "grown H A B (stored B - stored A) A'" "agree A B"
  shows "oplog_get A' = oplog_get B'"
proof
  fix h
  have a: "oplog_get B' h = (case oplog_get B h of Some e \<Rightarrow> Some e | None \<Rightarrow> if h \<in> stored A - stored B then oplog_get A h else None)"
    "oplog_get A' h = (case oplog_get A h of Some e \<Rightarrow> Some e | None \<Rightarrow> if h \<in> stored B - stored A then oplog_get B h else None)"
    using assms(1,2) by (simp_all add: grown_def)
  show "oplog_get A' h = oplog_get B' h"
    using assms(3) by (cases "oplog_get A h"; cases "oplog_get B h") (auto simp: a stored_iff agree_def)
qed

section \<open>The protocol's guarantees\<close>

text \<open>
  C6. Answering an offer is total and complete whatever the Bloom filter says: for any validated filter, however
  wrong, and any heads the remote holds, the computed payload contains every entry the remote lacks, only
  entries of the local log, and with each entry every parent that the remote does not hold already.
\<close>

theorem entries_missing_complete:
  assumes "log_run H A" and "well_linked A" and "log_run H B" and "agree A B"
    and "set (so_heads offer) \<subseteq> stored B" and "bloom_validate (so_bloom offer) = Inr ()"
  shows "\<exists>payload. entries_missing A offer = Some payload \<and>
    stored A - stored B \<subseteq> en_hash ` set (sp_entries payload) \<and>
    (\<forall>e \<in> set (sp_entries payload). oplog_get A (en_hash e) = Some e \<and>
       (\<forall>p \<in> set (en_next e). p \<in> stored B \<or> p \<in> en_hash ` set (sp_entries payload)))"
proof -
  obtain es where "entries_missing A offer = Some \<lparr>sp_entries = es, sp_need = compute_need A (so_heads offer)\<rparr>"
    "stored A \<subseteq> stored B \<union> en_hash ` set es" "sendable A B es"
    using entries_missing_ok [OF log_run_inv [OF assms(1)] assms(2) log_run_inv [OF assms(3)] assms(4-6)] by blast
  then show ?thesis unfolding sendable_def by auto
qed

definition demo_branch :: entry where
  "demo_branch = entry_new demo_hash (RemoveNode ''nn'') [1] [] (with_values ''b'' 2 0) ''b''"

definition demo_peer :: oplog where
  "demo_peer = fst (oplog_append demo_hash (oplog_new demo_root) demo_branch)"

lemma demo_branch_facts: "verify_hash demo_hash demo_branch" "en_hash demo_branch = 50" "en_next demo_branch = [1]"
  "en_refs demo_branch = []" "\<not> is_checkpoint (en_payload demo_branch)"
  by (simp_all add: demo_branch_def verify_hash_def entry_new_def compute_hash_def demo_hash_def is_checkpoint_def)

lemma demo_peer_eq: "demo_peer = \<lparr>ol_entries = [(1, demo_root), (50, demo_branch)], ol_heads = [50],
    ol_children = [(1, [50])], ol_len = 2\<rparr>"
  using demo_branch_facts
  by (simp add: demo_peer_def oplog_append_def oplog_new_def demo_next hm_contains_def insert_entry_def hs_remove_def hs_insert_def)

lemma demo_peer_run: "log_run demo_hash demo_peer"
  unfolding demo_peer_def
  by (intro log_run.append log_run.genesis) (simp_all add: demo_root_def entry_new_def verify_hash_def)

lemma demo_peer_linked: "well_linked demo_peer"
  by (auto simp: well_linked_def oplog_get_def demo_peer_eq demo_next demo_branch_facts split: if_splits)

lemma demo_stored: "stored demo_log = {1, 34}" "stored demo_peer = {1, 50}"
  by (auto simp: oplog_get_def demo_log_eq demo_peer_eq dom_def split: if_splits)

lemma demo_agree: "agree demo_log demo_peer" "agree demo_peer demo_log"
  by (auto simp: agree_def oplog_get_def demo_log_eq demo_peer_eq split: if_splits)

lemma demo_shared: "shared_checkpoints demo_log demo_peer"
  by (auto simp: shared_checkpoints_def oplog_get_def demo_log_eq demo_peer_eq demo_next demo_branch_facts
      demo_root_def entry_new_def is_checkpoint_def split: if_splits)

text \<open>A saturated filter, which claims to contain everything.\<close>

definition full_bloom :: bloom_filter where
  "full_bloom = \<lparr>bl_bits = [-1], bl_num_bits = 64, bl_num_hashes = 1, bl_count = 0\<rparr>"

theorem entries_missing_complete_witness:
  "\<exists>payload. entries_missing demo_log \<lparr>so_protocol_version = 3, so_heads = [50], so_bloom = full_bloom,
      so_physical_ms = 0, so_logical = 0\<rparr> = Some payload \<and> 34 \<in> en_hash ` set (sp_entries payload)"
proof -
  let ?o = "\<lparr>so_protocol_version = 3, so_heads = [50], so_bloom = full_bloom, so_physical_ms = 0, so_logical = 0\<rparr>"
  have "set (so_heads ?o) \<subseteq> stored demo_peer" "bloom_validate (so_bloom ?o) = Inr ()"
    by (simp_all add: demo_stored full_bloom_def bloom_validate_def)
  from entries_missing_complete [OF demo_log_run demo_well_linked demo_peer_run demo_agree(1) this]
  show ?thesis unfolding demo_stored by auto
qed



text \<open>
  C2. Strong eventual consistency of one exchange. Two peers whose logs were built by appends build offers that
  the other accepts; each answers the other's offer and merges the answer. Both merges succeed and afterwards
  the two logs hold the same entries, the union of what they held; the heads agree and both list the same
  sequence of entries. If in these entries an edge id always names the same edge (\<open>log_edges_agree\<close>), the graphs
  that the peers rebuild over the same base ontology are the same, although the hash maps of each peer hand
  out their values in an order of its own. The hypotheses: no hash collision between the logs, no
  parentless checkpoint on one side only, entries without repeated parents or dangling references, filter
  dimensions in the range the decoder accepts, and fewer than 2^64 entries on each side.
\<close>

theorem sync_converges:
  assumes "log_run H A" and "log_run H B" and "well_linked A" and "well_linked B"
    and "agree A B" and "shared_checkpoints A B" and "\<forall>n. snd (dims n) \<le> 32"
    and "card (stored A) < 2 ^ 64" and "card (stored B) < 2 ^ 64"
  shows "\<exists>offerA offerB toA toB A' B'.
    offer_from_oplog dims A pa la = Some offerA \<and> offer_from_oplog dims B pb lb = Some offerB \<and>
    (\<forall>len \<le> MAX_SYNC_BYTES. offer_from_bytes len (Some offerA) = Inr offerA \<and> offer_from_bytes len (Some offerB) = Inr offerB) \<and>
    entries_missing A offerB = Some toB \<and> entries_missing B offerA = Some toA \<and>
    merge_entries H B (sp_entries toB) = (B', Inr (card (stored A - stored B))) \<and>
    merge_entries H A (sp_entries toA) = (A', Inr (card (stored B - stored A))) \<and>
    oplog_get A' = oplog_get B' \<and> stored A' = stored A \<union> stored B \<and> set (ol_heads A') = set (ol_heads B') \<and>
    (\<exists>es. entries_since A' None = Some es \<and> entries_since B' None = Some es \<and>
       en_hash ` set es = stored A \<union> stored B \<and>
       (iter_ok E \<and> iter_ok E' \<and> same_env E E' \<and> gr_base_ontology gA = gr_base_ontology gB \<and> log_edges_agree (env_hash E) es \<longrightarrow>
         view (rebuild E gA es) = view (rebuild E' gB es)))"
proof -
  note A = log_run_inv [OF assms(1)] and B = log_run_inv [OF assms(2)]
  obtain oA where oA: "offer_from_oplog dims A pa la = Some oA" "so_heads oA = ol_heads A"
    "bloom_validate (so_bloom oA) = Inr ()" "so_protocol_version oA = PROTOCOL_VERSION"
    using offer_ok [OF A assms(3,7,8)] by metis
  obtain oB where oB: "offer_from_oplog dims B pb lb = Some oB" "so_heads oB = ol_heads B"
    "bloom_validate (so_bloom oB) = Inr ()" "so_protocol_version oB = PROTOCOL_VERSION"
    using offer_ok [OF B assms(4,7,9)] by metis
  have h: "set (so_heads oA) \<subseteq> stored A" "set (so_heads oB) \<subseteq> stored B"
    using oA(2) oB(2) stored_invD(4) [OF A] stored_invD(4) [OF B] by auto
  obtain pB B' where toB: "entries_missing A oB = Some pB"
    "merge_entries H B (sp_entries pB) = (B', Inr (card (stored A - stored B)))" "grown H B A (stored A - stored B) B'"
    using exchange_one_way [OF A assms(3) B assms(5,6) h(2) oB(3)] by blast
  obtain pA A' where toA: "entries_missing B oA = Some pA"
    "merge_entries H A (sp_entries pA) = (A', Inr (card (stored B - stored A)))" "grown H A B (stored B - stored A) A'"
    using exchange_one_way [OF B assms(4) A agree_sym [OF assms(5)] assms(6) [unfolded shared_checkpoints_sym [of A]] h(1) oA(3)]
    by blast
  have inv: "oplog_inv H A'" "oplog_inv H B'" using toA(3) toB(3) by (simp_all add: grown_def)
  have eq: "oplog_get A' = oplog_get B'" by (rule grown_meet [OF toB(3) toA(3) assms(5)])
  have st: "stored A' = stored A \<union> stored B" using grown_stored [OF toA(3)] by auto
  have "well_linked A'" using grown_well_linked [OF assms(4,3) toA(3)] st by auto
  then obtain es where es: "entries_since A' None = Some es" "en_hash ` set es = stored A'"
    using all_entries [OF inv(1)] by metis
  have "\<forall>len \<le> MAX_SYNC_BYTES. offer_from_bytes len (Some oA) = Inr oA \<and> offer_from_bytes len (Some oB) = Inr oB"
    using oA(3,4) oB(3,4) by (simp add: offer_from_bytes_def)
  moreover have "iter_ok E \<and> iter_ok E' \<and> same_env E E' \<and> gr_base_ontology gA = gr_base_ontology gB \<and> log_edges_agree (env_hash E) es \<longrightarrow>
      view (rebuild E gA es) = view (rebuild E' gB es)"
    using rebuild_any_order by blast
  ultimately show ?thesis
    using oA(1) oB(1) toA(1,2) toB(1,2) eq st es entries_since_cong [OF inv eq] by metis
qed

theorem sync_converges_witness:
  "\<exists>offer payload B'. offer_from_oplog (\<lambda>_. (1024, 7)) demo_peer 5 0 = Some offer \<and>
     entries_missing demo_log offer = Some payload \<and>
     merge_entries demo_hash demo_peer (sp_entries payload) = (B', Inr 1) \<and> stored B' = {1, 34, 50}"
proof -
  have d: "\<forall>n. snd ((\<lambda>_. (1024, 7)) (n :: nat) :: u64 \<times> u32) \<le> 32" by simp
  show ?thesis
    using sync_converges [OF demo_log_run demo_peer_run demo_well_linked demo_peer_linked demo_agree(1) demo_shared d,
        of 5 0 5 0 "tiny_env id" "tiny_env rev" tiny_graph tiny_graph]
    unfolding demo_stored by (fastforce simp: insert_commute)
qed

end
