(* ===== verification/Silk_Provenance.thy ===== *)
theory Silk_Provenance
  imports Silk_Materialize
begin


text \<open>
  Read-only provenance, \<^verbatim>\<open>src/provenance.rs\<close>: the entries of the log whose payload mentions an id, looking
  into checkpoints, in topological order. The specification spells out which operations refer to an id, and
  what the answer is good for: the entries that are not in it have no effect on the node.
\<close>

declare map_of_eq_Some_iff [simp del] Some_eq_map_of_iff [simp del]

fun payload_mentions_id :: "graph_op \<Rightarrow> string \<Rightarrow> bool" where
  "payload_mentions_id (AddNode node_id _ _ _ _) i = (node_id = i)"
| "payload_mentions_id (AddEdge edge_id _ source_id target_id _) i = (edge_id = i \<or> source_id = i \<or> target_id = i)"
| "payload_mentions_id (UpdateProperty entity_id _ _) i = (entity_id = i)"
| "payload_mentions_id (RemoveNode node_id) i = (node_id = i)"
| "payload_mentions_id (RemoveEdge edge_id) i = (edge_id = i)"
| "payload_mentions_id (DefineOntology _) i = False"
| "payload_mentions_id (ExtendOntology _) i = False"
| "payload_mentions_id (DefineLens _) i = False"
| "payload_mentions_id (Checkpoint ops _ _ _) i = list_ex (\<lambda>inner. payload_mentions_id inner i) ops"

definition entries_affecting :: "oplog \<Rightarrow> string \<Rightarrow> entry list option" where
  "entries_affecting log i =
     topo_sort log (map fst (filter (\<lambda>(_, e). payload_mentions_id (en_payload e) i) (ol_entries log)))"

lemma matching_keys:
  assumes "hm_wf (ol_entries log)"
  shows "set (map fst (filter (\<lambda>(_, e). P e) (ol_entries log))) = {h. \<exists>e. oplog_get log h = Some e \<and> P e}"
    and "distinct (map fst (filter (\<lambda>(_, e). P e) (ol_entries log)))"
  using assms by (force simp: oplog_get_def map_of_eq_Some_iff) (simp add: assms distinct_map_filter)

section \<open>Specification\<close>

text \<open>The operations of an entry, those inside a checkpoint in its place.\<close>

fun flat_ops :: "graph_op \<Rightarrow> graph_op list" where
  "flat_ops (Checkpoint ops _ _ _) = concat (map flat_ops ops)"
| "flat_ops op = [op]"

definition refers :: "graph_op \<Rightarrow> string \<Rightarrow> bool" where
  "refers op i \<longleftrightarrow> (\<exists>t st l ps. op = AddNode i t st l ps) \<or> (\<exists>j t s d ps. op = AddEdge j t s d ps \<and> i \<in> {j, s, d}) \<or>
     (\<exists>k v. op = UpdateProperty i k v) \<or> op = RemoveNode i \<or> op = RemoveEdge i"

lemma mentions_iff: "payload_mentions_id op i \<longleftrightarrow> (\<exists>x \<in> set (flat_ops op). refers x i)"
  by (induction op i rule: payload_mentions_id.induct) (auto simp: refers_def list_ex_iff)

section \<open>What does not mention a node leaves it alone\<close>

definition plain_entry :: "entry \<Rightarrow> bool" where
  "plain_entry e \<longleftrightarrow> \<not> is_extend (en_payload e) \<and> \<not> is_checkpoint (en_payload e)"

lemma retry_frame: "gr_nodes (retry_pending_edges E g) = gr_nodes g" "gr_ontology (retry_pending_edges E g) = gr_ontology g"
proof -
  have "gr_nodes (retry_edge E e g) = gr_nodes g \<and> gr_ontology (retry_edge E e g) = gr_ontology g" for e g
    by (auto simp: retry_edge_def Let_def admit_edge_def apply_add_edge_def quarantine_def unquarantine_def case_prod_beta
        split: graph_op.splits option.splits sum.splits)
  then have "gr_nodes (fold (retry_edge E) es g) = gr_nodes g \<and> gr_ontology (fold (retry_edge E) es g) = gr_ontology g" for es g
    by (induction es arbitrary: g) simp_all
  then show "gr_nodes (retry_pending_edges E g) = gr_nodes g" "gr_ontology (retry_pending_edges E g) = gr_ontology g"
    by (simp_all add: retry_pending_edges_def)
qed

lemmas apply_defs = graph_apply_def apply_inner.simps apply_add_node_entry_def apply_add_node_def admit_edge_def apply_add_edge_def
  apply_update_entry_def apply_update_property_def apply_remove_node_def apply_remove_edge_def quarantine_def unquarantine_def
  Let_def case_prod_beta

lemma apply_plain_ontology: "plain_entry e \<Longrightarrow> gr_ontology (graph_apply E g e) = gr_ontology g"
  by (auto simp: plain_entry_def is_extend_def is_checkpoint_def apply_defs retry_frame split: graph_op.splits option.splits sum.splits)

lemma apply_untouched:
  assumes "plain_entry e" "\<not> payload_mentions_id (en_payload e) i"
  shows "hm_get (gr_nodes (graph_apply E g e)) i = hm_get (gr_nodes g) i"
  using assms by (auto simp: plain_entry_def is_extend_def is_checkpoint_def apply_defs retry_frame update_conv' split: graph_op.splits option.splits sum.splits)

lemma apply_same_node:
  assumes "plain_entry e" "hm_get (gr_nodes g) i = hm_get (gr_nodes g') i" "gr_ontology g = gr_ontology g'"
  shows "hm_get (gr_nodes (graph_apply E g e)) i = hm_get (gr_nodes (graph_apply E g' e)) i"
proof (cases "payload_mentions_id (en_payload e) i")
  case True
  show ?thesis
  proof (cases "en_payload e")
    case (AddNode j t st l ps)
    then show ?thesis using True assms(2,3) by (auto simp: apply_defs retry_frame update_conv' split: option.splits sum.splits)
  next
    case (AddEdge j t s d ps)
    then have "gr_nodes (graph_apply E h e) = gr_nodes h" for h by (auto simp: apply_defs split: option.splits sum.splits)
    then show ?thesis using assms(2) by simp
  next
    case (UpdateProperty j k v)
    then show ?thesis using True assms(2,3)
      by (cases "hm_get (gr_nodes g') i") (auto simp: apply_defs update_conv' split: option.splits sum.splits)
  next
    case (RemoveNode j)
    then show ?thesis using True assms(2) by (auto simp: apply_defs update_conv' split: option.splits)
  next
    case (RemoveEdge j)
    then have "gr_nodes (graph_apply E h e) = gr_nodes h" for h by (auto simp: apply_defs split: option.splits)
    then show ?thesis using assms(2) by simp
  qed (use True assms(1) in \<open>simp_all add: plain_entry_def is_checkpoint_def\<close>)
next
  case False
  then show ?thesis using apply_untouched [OF assms(1)] assms(2) by simp
qed

lemma apply_all_relevant:
  assumes "\<forall>e \<in> set es. plain_entry e" "hm_get (gr_nodes g) i = hm_get (gr_nodes g') i" "gr_ontology g = gr_ontology g'"
  shows "hm_get (gr_nodes (apply_all E g es)) i = hm_get (gr_nodes (apply_all E g' (filter (\<lambda>e. payload_mentions_id (en_payload e) i) es))) i"
  using assms
proof (induction es arbitrary: g g')
  case (Cons e es)
  have e: "plain_entry e" and es: "\<forall>e \<in> set es. plain_entry e" using Cons.prems(1) by simp_all
  show ?case
  proof (cases "payload_mentions_id (en_payload e) i")
    case True
    then show ?thesis
      using Cons.IH [OF es apply_same_node [OF e Cons.prems(2,3)]] apply_plain_ontology [OF e] Cons.prems(3) by (simp add: apply_all_def)
  next
    case False
    then show ?thesis
      using Cons.IH [OF es, of "graph_apply E g e" g'] apply_untouched [OF e False] apply_plain_ontology [OF e] Cons.prems(2,3) by (simp add: apply_all_def)
  qed
qed (simp add: apply_all_def)

section \<open>Correctness\<close>

lemma listing_exact:
  assumes "oplog_inv H log" "well_linked log"
  shows "\<exists>es. entries_affecting log i = Some es \<and> distinct es \<and> parents_first (map en_hash es) es \<and>
    set es = {e. oplog_get log (en_hash e) = Some e \<and> payload_mentions_id (en_payload e) i}"
proof -
  let ?hs = "map fst (filter (\<lambda>(_, e). payload_mentions_id (en_payload e) i) (ol_entries log))"
  note hs = matching_keys [OF oplog_invD(1) [OF assms(1)], of "\<lambda>e. payload_mentions_id (en_payload e) i"]
  have sub: "set ?hs \<subseteq> hm_keys (ol_entries log)" by auto
  have "\<forall>h \<in> set ?hs. \<forall>e. oplog_get log h = Some e \<longrightarrow> distinct (en_next e)"
    using assms(2) by (simp add: well_linked_def)
  from topo_sort_complete [OF assms(1) sub hs(2) this] obtain es where es: "topo_sort log ?hs = Some es"
    "distinct (map en_hash es)" "set (map en_hash es) = set ?hs" "parents_first ?hs es"
    "\<forall>e \<in> set es. oplog_get log (en_hash e) = Some e" by blast
  have "set es = {e. oplog_get log (en_hash e) = Some e \<and> payload_mentions_id (en_payload e) i}"
  proof (intro set_eqI iffI)
    fix e assume e: "e \<in> set es"
    then have "en_hash e \<in> set ?hs" using es(3) by auto
    then show "e \<in> {e. oplog_get log (en_hash e) = Some e \<and> payload_mentions_id (en_payload e) i}"
      using es(5) e unfolding hs(1) by auto
  next
    fix e assume "e \<in> {e. oplog_get log (en_hash e) = Some e \<and> payload_mentions_id (en_payload e) i}"
    then have e: "oplog_get log (en_hash e) = Some e" "en_hash e \<in> set ?hs" unfolding hs(1) by auto
    then obtain e' where "e' \<in> set es" "en_hash e' = en_hash e" using es(3) by (metis image_iff list.set_map)
    then show "e \<in> set es" using es(5) e(1) by force
  qed
  moreover have "parents_first (map en_hash es) es" using es(3,4) by (simp add: parents_first_def)
  ultimately show ?thesis using es(1,2) unfolding entries_affecting_def by (metis distinct_map)
qed

text \<open>
  C29. The provenance of an id is exactly the set of stored entries in which some operation, inside checkpoints
  too, adds the node, adds an edge under this id or from or to it, updates it or removes it; each entry once,
  parents before children. It is a function of the stored entries alone: two peers with the same entries
  return the same sequence. And it explains the node: if the log has neither extensions nor checkpoints,
  leaving out of the listing everything that is not in the provenance gives the same node.
\<close>

theorem provenance_exact:
  assumes "log_run H log" and "well_linked log" and "log_run H log'" and "oplog_get log' = oplog_get log"
  shows "\<exists>es. entries_affecting log i = Some es \<and> entries_affecting log' i = Some es \<and> distinct es \<and> parents_first (map en_hash es) es \<and>
    set es = {e. oplog_get log (en_hash e) = Some e \<and> (\<exists>op \<in> set (flat_ops (en_payload e)). refers op i)} \<and>
    ((\<forall>h e. oplog_get log h = Some e \<longrightarrow> plain_entry e) \<longrightarrow>
      (\<exists>all. entries_since log None = Some all \<and>
        get_node (apply_all E g all) i = get_node (apply_all E g (filter (\<lambda>e. e \<in> set es) all)) i))"
proof -
  note inv = log_run_inv [OF assms(1)] and inv' = log_run_inv [OF assms(3)]
  obtain es where es: "entries_affecting log i = Some es" "distinct es" "parents_first (map en_hash es) es"
    "set es = {e. oplog_get log (en_hash e) = Some e \<and> payload_mentions_id (en_payload e) i}"
    using listing_exact [OF inv assms(2)] by blast
  have "same_log log' log" using assms(4) by (simp add: same_log_def oplog_get_def fun_eq_iff)
  then have "entries_affecting log' i = entries_affecting log i"
    unfolding entries_affecting_def
    by (rule topo_sort_cong [OF inv' inv]) (use matching_keys oplog_invD(1) [OF inv] oplog_invD(1) [OF inv'] assms(4) in auto)
  moreover have "\<exists>all. entries_since log None = Some all \<and>
      get_node (apply_all E g all) i = get_node (apply_all E g (filter (\<lambda>e. e \<in> set es) all)) i"
    if "\<forall>h e. oplog_get log h = Some e \<longrightarrow> plain_entry e"
  proof -
    have "entries_since log None = topo_sort log (filter (\<lambda>h. h \<notin> {}) (reachable_from log (ol_heads log)))"
      by (simp add: entries_since_def)
    then obtain all where all: "entries_since log None = Some all" "\<forall>e \<in> set all. oplog_get log (en_hash e) = Some e"
      using delta_correct [OF inv assms(2), of "{}"] by auto
    have "filter (\<lambda>e. e \<in> set es) all = filter (\<lambda>e. payload_mentions_id (en_payload e) i) all"
      using all(2) by (intro filter_cong refl) (simp add: es(4))
    moreover have "\<forall>e \<in> set all. plain_entry e" using all(2) that by blast
    from apply_all_relevant [OF this refl refl]
    have "get_node (apply_all E g all) i = get_node (apply_all E g (filter (\<lambda>e. payload_mentions_id (en_payload e) i) all)) i"
      by (simp add: get_node_def)
    ultimately show ?thesis using all(1) by simp
  qed
  ultimately show ?thesis using es unfolding mentions_iff by auto
qed

theorem provenance_exact_witness:
  "\<exists>es all. entries_affecting demo_log ''n'' = Some es \<and> demo_child \<in> set es \<and> demo_root \<notin> set es \<and> entries_since demo_log None = Some all \<and>
     get_node (apply_all (tiny_env id) tiny_graph all) ''n'' = get_node (apply_all (tiny_env id) tiny_graph (filter (\<lambda>e. e \<in> set es) all)) ''n''"
proof -
  have d: "oplog_get demo_log (en_hash demo_child) = Some demo_child" "en_payload demo_child = RemoveNode ''n''"
    "en_payload demo_root = DefineLens []"
    by (simp_all add: oplog_get_def demo_log_eq demo_next) (simp_all add: demo_root_def demo_child_def entry_new_def)
  have "plain_entry demo_root" "plain_entry demo_child" using d(2,3) by (simp_all add: plain_entry_def is_extend_def is_checkpoint_def)
  then have plain: "\<forall>h e. oplog_get demo_log h = Some e \<longrightarrow> plain_entry e"
    by (simp add: oplog_get_def demo_log_eq demo_next split: if_splits)
  obtain es where es: "entries_affecting demo_log ''n'' = Some es"
    "set es = {e. oplog_get demo_log (en_hash e) = Some e \<and> (\<exists>op \<in> set (flat_ops (en_payload e)). refers op ''n'')}"
    "\<exists>all. entries_since demo_log None = Some all \<and> get_node (apply_all (tiny_env id) tiny_graph all) ''n'' =
       get_node (apply_all (tiny_env id) tiny_graph (filter (\<lambda>e. e \<in> set es) all)) ''n''"
    using provenance_exact [OF demo_log_run demo_well_linked demo_log_run refl, of "''n''" "tiny_env id" tiny_graph] plain
    by (elim exE conjE) (rule that, assumption, assumption, blast)
  have "demo_child \<in> set es" "demo_root \<notin> set es" unfolding es(2) using d by (simp_all add: refers_def)
  then show ?thesis using es(1,3) by blast
qed

end
