(* ===== verification/Silk_Network.thy ===== *)
theory Silk_Network
  imports Silk_Materialize
begin

text \<open>
  What the indexes of a reachable graph say about its edges, and small networks: graphs built by applying
  entries for given nodes and edges, with their adjacency, for the concrete statements about the queries.
\<close>

section \<open>Adjacency\<close>

lemma edge_indexD:
  assumes "graph_inv g"
  shows "i \<in> set (index_get (gr_outgoing g) s) \<longleftrightarrow> (\<exists>e. hm_get (gr_edges g) i = Some e \<and> e_source e = s)"
    and "i \<in> set (index_get (gr_incoming g) s) \<longleftrightarrow> (\<exists>e. hm_get (gr_edges g) i = Some e \<and> e_target e = s)"
    and "hm_get (gr_edges g) i = Some e \<Longrightarrow> e_id e = i"
  using assms by (simp_all add: graph_inv_def edge_inv_def)

lemma outgoing_edges_iff:
  assumes "graph_inv g"
  shows "e \<in> set (outgoing_edges g s) \<longleftrightarrow> get_edge g (e_id e) = Some e \<and> e_source e = s \<and> get_node g (e_target e) \<noteq> None"
  by (auto simp: outgoing_edges_def set_map_filter is_node_live_iff get_edge_Some edge_indexD(1) [OF assms]
      dest: edge_indexD(3) [OF assms] simp del: not_None_eq)

lemma incoming_edges_iff:
  assumes "graph_inv g"
  shows "e \<in> set (incoming_edges g s) \<longleftrightarrow> get_edge g (e_id e) = Some e \<and> e_target e = s \<and> get_node g (e_source e) \<noteq> None"
  by (auto simp: incoming_edges_def set_map_filter is_node_live_iff get_edge_Some edge_indexD(2) [OF assms]
      dest: edge_indexD(3) [OF assms] simp del: not_None_eq)

section \<open>Small networks\<close>

text \<open>The graph with the given nodes and edges (id, source, target), built by applying entries.\<close>

definition network :: "string list \<Rightarrow> (string \<times> string \<times> string) list \<Rightarrow> graph" where
  "network ns es = apply_all (tiny_env id) (graph_new tiny_ontology) (map (add_n 1) ns @ map (\<lambda>(i, s, t). add_l 2 i s t) es)"

lemma network_run: "graph_run (tiny_env id) (network ns es)"
proof -
  have "graph_run E g \<Longrightarrow> graph_run E (apply_all E g xs)" for E g xs
    unfolding apply_all_def by (induction xs arbitrary: g) (auto intro: graph_run.intros)
  then show ?thesis by (simp add: network_def graph_run.intros)
qed

lemmas network_inv = graph_run_inv [OF network_run tiny_iter_ok(1)]

definition edge_at :: "graph \<Rightarrow> string \<Rightarrow> (string \<times> string) option \<Rightarrow> bool" where
  "edge_at g i ends = (case ends of None \<Rightarrow> hm_get (gr_edges g) i = None
     | Some (s, t) \<Rightarrow> \<exists>e. hm_get (gr_edges g) i = Some e \<and> e_type e = ''l'' \<and> e_source e = s \<and> e_target e = t \<and> \<not> e_tombstoned e)"

definition network_state :: "string list \<Rightarrow> (string \<times> string \<times> string) list \<Rightarrow> graph \<Rightarrow> bool" where
  "network_state ns es g \<longleftrightarrow> gr_ontology g = tiny_ontology \<and> gr_pending g = [] \<and> gr_quarantined g = [] \<and>
     (\<forall>i. if i \<in> set ns then \<exists>n. hm_get (gr_nodes g) i = Some n \<and> n_type n = ''n'' \<and> \<not> n_tombstoned n
          else hm_get (gr_nodes g) i = None) \<and>
     (\<forall>i. edge_at g i (map_of es i)) \<and>
     (\<forall>n. index_get (gr_outgoing g) n = map fst (filter (\<lambda>(i, s, t). s = n) es)) \<and>
     (\<forall>n. index_get (gr_incoming g) n = map fst (filter (\<lambda>(i, s, t). t = n) es)) \<and>
     index_get (gr_by_type g) ''n'' = ns"

lemma network_add_node:
  assumes "network_state ns [] g" "i \<notin> set ns"
  shows "network_state (ns @ [i]) [] (graph_apply E g (add_n h i))"
proof -
  have "hm_get (gr_nodes g) i = None" "gr_pending g = []" "gr_quarantined g = []"
    using assms unfolding network_state_def by metis+
  then have "graph_apply E g (add_n h i) = apply_add_node g i ''n'' None i [] (with_values ''a'' (ucast h) 0)"
    using add_n_step [of g "E" h i] assms(1)
    by (simp add: network_state_def retry_pending_edges_def unquarantine_none apply_add_node_def)
  then show ?thesis
    using assms \<open>hm_get (gr_nodes g) i = None\<close> by (auto simp: network_state_def apply_add_node_def update_conv' edge_at_def index_get_insert hs_insert_def)
qed

lemma network_add_edge:
  assumes "network_state ns es g" "i \<notin> fst ` set es" "s \<in> set ns" "t \<in> set ns"
  shows "network_state ns (es @ [(i, s, t)]) (graph_apply E g (add_l h i s t))"
proof -
  have nd: "\<exists>n. hm_get (gr_nodes g) x = Some n \<and> n_type n = ''n''" if "x \<in> set ns" for x
    using assms(1) that unfolding network_state_def by meson
  obtain n m where n: "hm_get (gr_nodes g) s = Some n" "n_type n = ''n''" "hm_get (gr_nodes g) t = Some m" "n_type m = ''n''"
    using nd assms(3,4) by blast
  have e: "map_of es i = None" using assms(2) by (simp add: map_of_eq_None_iff)
  have at: "edge_at g j (map_of es j)" for j using assms(1) unfolding network_state_def by blast
  have e': "hm_get (gr_edges g) i = None" using at [of i] e by (simp add: edge_at_def)
  have "graph_apply E g (add_l h i s t) = apply_add_edge g i ''l'' s t [] (with_values ''a'' (ucast h) 0)"
  proof -
    have "hm_contains (on_edge_types tiny_ontology) ''l''" by (simp add: hm_contains_def tiny_ontology_def)
    moreover have "gr_ontology g = tiny_ontology" "gr_quarantined g = []" using assms(1) by (simp_all add: network_state_def)
    ultimately show ?thesis
      using n by (simp add: graph_apply_def apply_inner.simps add_l_def tiny_entry_def admit_edge_def unquarantine_none)
  qed
  moreover have "network_state ns (es @ [(i, s, t)]) (apply_add_edge g i ''l'' s t [] (with_values ''a'' (ucast h) 0))"
    unfolding network_state_def
  proof (intro conjI allI)
    fix j
    show "edge_at (apply_add_edge g i ''l'' s t [] (with_values ''a'' (ucast h) 0)) j (map_of (es @ [(i, s, t)]) j)"
      using at [of j] e e' by (auto simp: edge_at_def apply_add_edge_def update_conv' map_add_def split: option.splits)
    have "i \<notin> set (map fst (filter P es))" for P using assms(2) by auto
    moreover have "index_get (gr_outgoing g) j = map fst (filter (\<lambda>(i, s, t). s = j) es)"
      "index_get (gr_incoming g) j = map fst (filter (\<lambda>(i, s, t). t = j) es)"
      using assms(1) unfolding network_state_def by blast+
    ultimately show "index_get (gr_outgoing (apply_add_edge g i ''l'' s t [] (with_values ''a'' (ucast h) 0))) j =
        map fst (filter (\<lambda>(i, s, t). s = j) (es @ [(i, s, t)]))"
      "index_get (gr_incoming (apply_add_edge g i ''l'' s t [] (with_values ''a'' (ucast h) 0))) j =
        map fst (filter (\<lambda>(i, s, t). t = j) (es @ [(i, s, t)]))"
      using e' by (auto simp: apply_add_edge_def index_get_insert hs_insert_def)
  qed (use assms(1) e' in \<open>simp_all add: network_state_def apply_add_edge_def\<close>)
  ultimately show ?thesis by simp
qed

lemma network_built:
  assumes "distinct ns" "distinct (map fst es)" "\<forall>(i, s, t) \<in> set es. s \<in> set ns \<and> t \<in> set ns"
  shows "network_state ns es (fold (\<lambda>e g. graph_apply E g e) (map (\<lambda>(i, s, t). add_l 2 i s t) es)
    (fold (\<lambda>e g. graph_apply E g e) (map (add_n 1) ns) (graph_new tiny_ontology)))"
proof -
  let ?f = "\<lambda>g es. fold (\<lambda>e g. graph_apply E g e) es g"
  have "network_state xs [] (?f (graph_new tiny_ontology) (map (add_n 1) xs))" if "distinct xs" for xs
    using that by (induction xs rule: rev_induct) (simp_all add: network_add_node, simp add: network_state_def index_get_def edge_at_def)
  then have 0: "network_state ns [] (?f (graph_new tiny_ontology) (map (add_n 1) ns))" using assms(1) .
  have "network_state ns xs (?f (?f (graph_new tiny_ontology) (map (add_n 1) ns)) (map (\<lambda>(i, s, t). add_l 2 i s t) xs))"
    if "distinct (map fst xs)" "\<forall>(i, s, t) \<in> set xs. s \<in> set ns \<and> t \<in> set ns" for xs
    using that
  proof (induction xs rule: rev_induct)
    case (snoc x xs)
    obtain i s t where x: "x = (i, s, t)" by (cases x)
    have "network_state ns (xs @ [(i, s, t)]) (graph_apply E
        (?f (?f (graph_new tiny_ontology) (map (add_n 1) ns)) (map (\<lambda>(i, s, t). add_l 2 i s t) xs)) (add_l 2 i s t))"
    proof (rule network_add_edge)
      show "network_state ns xs (?f (?f (graph_new tiny_ontology) (map (add_n 1) ns)) (map (\<lambda>(i, s, t). add_l 2 i s t) xs))"
        by (rule snoc.IH) (use snoc.prems in auto)
    qed (use snoc.prems x in auto)
    then show ?case by (simp add: x)
  qed (use 0 in simp)
  then show ?thesis using assms(2,3) by blast
qed


lemma network_holds:
  assumes "distinct ns" "distinct (map fst es)" "\<forall>(i, s, t) \<in> set es. s \<in> set ns \<and> t \<in> set ns"
  shows "network_state ns es (network ns es)"
  using network_built [OF assms, of "tiny_env id"] by (simp only: network_def apply_all_def fold_append comp_apply)

lemma network_edges:
  assumes "distinct ns" "distinct (map fst es)" "\<forall>(i, s, t) \<in> set es. s \<in> set ns \<and> t \<in> set ns"
  shows "map e_target (outgoing_edges (network ns es) n) = map (snd \<circ> snd) (filter (\<lambda>(i, s, t). s = n) es)"
    and "map e_source (incoming_edges (network ns es) n) = map (fst \<circ> snd) (filter (\<lambda>(i, s, t). t = n) es)"
    and "get_node (network ns es) n \<noteq> None \<longleftrightarrow> n \<in> set ns"
    and "e \<in> set (outgoing_edges (network ns es) n) \<Longrightarrow> e_type e = ''l''"
proof -
  let ?g = "network ns es"
  note N = network_holds [OF assms, unfolded network_state_def]
  show live: "get_node ?g n \<noteq> None \<longleftrightarrow> n \<in> set ns" for n
  proof -
    have "if n \<in> set ns then \<exists>m. hm_get (gr_nodes ?g) n = Some m \<and> n_type m = ''n'' \<and> \<not> n_tombstoned m
        else hm_get (gr_nodes ?g) n = None" using N by blast
    then show ?thesis by (auto simp: get_node_def split: if_splits)
  qed
  have ed: "\<exists>e. get_edge ?g i = Some e \<and> e_type e = ''l'' \<and> e_source e = s \<and> e_target e = t" if "(i, s, t) \<in> set es" for i s t
  proof -
    have "map_of es i = Some (s, t)" using that assms(2) by (simp add: map_of_eq_Some_iff)
    moreover have "edge_at ?g i (map_of es i)" using N by blast
    ultimately show ?thesis by (auto simp: get_edge_Some edge_at_def)
  qed
  have m: "map f (filter (\<lambda>e. is_node_live ?g (h e)) (List.map_filter (get_edge ?g) (map fst xs))) = map k xs"
    if "set xs \<subseteq> set es" and fk: "\<And>e i s t. e_source e = s \<Longrightarrow> e_target e = t \<Longrightarrow> f e = k (i, s, t)"
      and h: "h = e_source \<or> h = e_target" for xs f h k
    using that(1)
  proof (induction xs)
    case (Cons x xs)
    obtain i s t where x: "x = (i, s, t)" by (cases x)
    then obtain e where e: "get_edge ?g i = Some e" "e_source e = s" "e_target e = t" using ed [of i s t] Cons.prems by auto
    moreover have "s \<in> set ns" "t \<in> set ns" using assms(3) Cons.prems x by auto
    ultimately show ?case using Cons h fk [of e s t i] live by (auto simp: x map_filter_simps is_node_live_iff)
  qed (simp add: map_filter_simps)
  have idx: "index_get (gr_outgoing ?g) n = map fst (filter (\<lambda>(i, s, t). s = n) es)"
    "index_get (gr_incoming ?g) n = map fst (filter (\<lambda>(i, s, t). t = n) es)" using N by blast+
  show "map e_target (outgoing_edges ?g n) = map (snd \<circ> snd) (filter (\<lambda>(i, s, t). s = n) es)"
    unfolding outgoing_edges_def idx by (rule m) auto
  show "map e_source (incoming_edges ?g n) = map (fst \<circ> snd) (filter (\<lambda>(i, s, t). t = n) es)"
    unfolding incoming_edges_def idx by (rule m) auto
  show "e \<in> set (outgoing_edges ?g n) \<Longrightarrow> e_type e = ''l''"
    using ed unfolding outgoing_edges_def idx by (fastforce simp: set_map_filter)
qed

lemma network_by_type:
  assumes "distinct ns" "distinct (map fst es)" "\<forall>(i, s, t) \<in> set es. s \<in> set ns \<and> t \<in> set ns"
  shows "map n_id (nodes_by_type (network ns es) ''n'') = ns"
    and "get_node (network ns es) i = Some n \<Longrightarrow> n_type n = ''n''"
proof -
  let ?g = "network ns es"
  note N = network_holds [OF assms, unfolded network_state_def]
  have "if i \<in> set ns then \<exists>n. hm_get (gr_nodes ?g) i = Some n \<and> n_type n = ''n'' \<and> \<not> n_tombstoned n
      else hm_get (gr_nodes ?g) i = None" using N by blast
  then show "get_node ?g i = Some n \<Longrightarrow> n_type n = ''n''" by (auto simp: get_node_Some split: if_splits)
  have m: "map n_id (List.map_filter (get_node ?g) xs) = xs" if "set xs \<subseteq> set ns" for xs
    using that
  proof (induction xs)
    case (Cons x xs)
    then obtain n where n: "get_node ?g x = Some n" using network_edges(3) [OF assms, of x] by auto
    then have "n_id n = x" using graph_invD(1) [OF network_inv] by (auto simp: get_node_Some)
    with n Cons show ?case by (simp add: map_filter_simps)
  qed (simp add: map_filter_simps)
  have "descendants tiny_ontology ''n'' = []"
    by (simp add: descendants_def tiny_ontology_def ancestors_def numeral_nat parent_of_def demo_type_def)
  moreover have "gr_ontology ?g = tiny_ontology" "index_get (gr_by_type ?g) ''n'' = ns" using N by blast+
  ultimately show "map n_id (nodes_by_type ?g ''n'') = ns" using m [of ns] by (simp add: nodes_by_type_def)
qed

end
