(* ===== verification/Silk_Search.thy ===== *)
theory Silk_Search
  imports Silk_Prelude
begin

text \<open>
  The searches the query engine performs, apart from the graph: a worklist of nodes with depths, a visited
  set, and a depth limit. The locale \<open>graph_search\<close> states what any order of the worklist guarantees;
  \<open>level_search\<close> extends it to a queue, where the depths are distances. The step lemmas of the two
  invariants are also used on their own, by the shortest path search with its early return.
\<close>

section \<open>Newly discovered nodes\<close>

fun discover :: "'a list \<Rightarrow> 'a list \<Rightarrow> 'a list" where
  "discover [] visited = []"
| "discover (x # xs) visited =
     (if x \<in> set visited then discover xs visited else x # discover xs (visited @ [x]))"

lemma discover_append: "discover (xs @ ys) v = discover xs v @ discover ys (v @ discover xs v)"
  by (induction xs v rule: discover.induct) auto

lemma set_discover [simp]: "set (discover xs v) = set xs - set v"
  by (induction xs v rule: discover.induct) auto

lemma distinct_discover [simp]: "distinct (discover xs v)"
  by (induction xs v rule: discover.induct) auto

lemma discover_shrinks:
  assumes "finite X" "set xs \<subseteq> X"
  shows "card (X - set (v @ discover xs v)) + length (discover xs v) = card (X - set v)"
proof -
  have "X - set (v @ discover xs v) = (X - set v) - set (discover xs v)" by auto
  moreover have "set (discover xs v) \<subseteq> X - set v" using assms(2) by auto
  ultimately show ?thesis
    using assms(1) card_Diff_subset [of "set (discover xs v)" "X - set v"] card_mono [of "X - set v" "set (discover xs v)"]
    by (simp del: set_discover add: distinct_card)
qed

text \<open>The entries a visit of a node at depth \<open>d\<close> puts on the worklist.\<close>

abbreviation at_depth :: "nat \<Rightarrow> 'a list \<Rightarrow> ('a \<times> nat) list" where
  "at_depth d xs \<equiv> map (\<lambda>x. (x, d)) xs"

section \<open>Searches in any order\<close>

definition reach_in :: "('a \<Rightarrow> 'a list) \<Rightarrow> 'a \<Rightarrow> nat \<Rightarrow> 'a set" where
  "reach_in succs s k = (succ_rel succs ^^ k) `` {s}"

lemma reach_in_0 [simp]: "reach_in succs s 0 = {s}"
  by (simp add: reach_in_def)

lemma reach_in_Suc: "y \<in> reach_in succs s (Suc k) \<longleftrightarrow> (\<exists>x \<in> reach_in succs s k. y \<in> set (succs x))"
  by (auto simp: reach_in_def succ_rel_def)

text \<open>
  The state of a search from \<open>s\<close>: the nodes visited so far, each popped (\<open>P\<close>) or waiting (\<open>q\<close>) with the
  length of a path to it, and closed under successors where the depth limit allows.
\<close>

definition search_inv :: "('a \<Rightarrow> 'a list) \<Rightarrow> (nat \<Rightarrow> bool) \<Rightarrow> 'a \<Rightarrow> ('a \<times> nat) list \<Rightarrow> ('a \<times> nat) list \<Rightarrow> 'a list \<Rightarrow> bool" where
  "search_inv succs stop s P q v \<longleftrightarrow>
     mset v = mset (map fst (P @ q)) \<and> distinct v \<and> s \<in> set v \<and>
     (\<forall>(x, d) \<in> set (P @ q). x \<in> reach_in succs s d \<and> (\<forall>j < d. \<not> stop j)) \<and>
     (\<forall>(x, d) \<in> set P. \<not> stop d \<longrightarrow> set (succs x) \<subseteq> set v)"

lemma search_inv_start: "search_inv succs stop s [] [(s, 0)] [s]"
  by (simp add: search_inv_def)

definition found :: "('a \<Rightarrow> 'a list) \<Rightarrow> (nat \<Rightarrow> bool) \<Rightarrow> 'a list \<Rightarrow> 'a \<Rightarrow> nat \<Rightarrow> 'a list" where
  "found succs stop v x d = (if stop d then [] else discover (succs x) v)"

lemma found_facts [simp]:
  "distinct (found succs stop v x d)"
  "set (found succs stop v x d) = (if stop d then {} else set (succs x) - set v)"
  by (simp_all add: found_def)

lemma search_inv_step:
  assumes "search_inv succs stop s P q v" and q: "mset q = add_mset (x, d) (mset q0)"
    and q': "mset q' = mset q0 + mset (at_depth (Suc d) (found succs stop v x d))"
  shows "search_inv succs stop s (P @ [(x, d)]) q' (v @ found succs stop v x d)"
proof -
  let ?new = "found succs stop v x d"
  have I: "mset v = mset (map fst (P @ q))" "distinct v" "s \<in> set v"
    "\<And>x d. (x, d) \<in> set (P @ q) \<Longrightarrow> x \<in> reach_in succs s d \<and> (\<forall>j < d. \<not> stop j)"
    "\<And>x d. (x, d) \<in> set P \<Longrightarrow> \<not> stop d \<Longrightarrow> set (succs x) \<subseteq> set v"
    using assms(1) unfolding search_inv_def by auto
  have sq: "set q = insert (x, d) (set q0)" "set q' = set q0 \<union> set (at_depth (Suc d) ?new)"
    using arg_cong [OF q, of set_mset] arg_cong [OF q', of set_mset] by simp_all
  have "mset (v @ ?new) = mset (map fst ((P @ [(x, d)]) @ q'))"
    using I(1) by (simp add: q q' image_mset.compositionality o_def)
  moreover have "y \<in> reach_in succs s e \<and> (\<forall>j < e. \<not> stop j)" if "(y, e) \<in> set ((P @ [(x, d)]) @ q')" for y e
  proof (cases "(y, e) \<in> set (P @ q)")
    case False
    then have "e = Suc d" "y \<in> set ?new" using that sq by auto
    then show ?thesis using I(4) [of x d] sq(1) by (auto simp: reach_in_Suc less_Suc_eq split: if_splits)
  qed (rule I(4))
  moreover have "set (succs y) \<subseteq> set (v @ ?new)" if "(y, e) \<in> set (P @ [(x, d)])" "\<not> stop e" for y e
    using that I(5) [of y e] by auto
  moreover have "distinct (v @ ?new)" using I(2) by auto
  moreover have "s \<in> set (v @ ?new)" using I(3) by simp
  ultimately show ?thesis unfolding search_inv_def by (intro conjI ballI) blast+
qed

lemma search_inv_done:
  assumes "search_inv succs stop s P [] v"
  shows "distinct (map fst P)" and "set v = fst ` set P" and "s \<in> fst ` set P"
    and "(x, d) \<in> set P \<Longrightarrow> x \<in> reach_in succs s d \<and> (\<forall>j < d. \<not> stop j)"
    and "(x, d) \<in> set P \<Longrightarrow> \<not> stop d \<Longrightarrow> set (succs x) \<subseteq> fst ` set P"
proof -
  have m: "mset v = mset (map fst P)" "distinct v" "s \<in> set v" using assms by (simp_all add: search_inv_def)
  show "distinct (map fst P)" using m by (metis mset_eq_imp_distinct_iff)
  show v: "set v = fst ` set P" using m(1) by (metis list.set_map set_mset_mset)
  show "s \<in> fst ` set P" using m(3) v by simp
  show "(x, d) \<in> set P \<Longrightarrow> x \<in> reach_in succs s d \<and> (\<forall>j < d. \<not> stop j)"
    "(x, d) \<in> set P \<Longrightarrow> \<not> stop d \<Longrightarrow> set (succs x) \<subseteq> fst ` set P"
    using assms unfolding v [symmetric] search_inv_def by auto
qed

text \<open>
  A search over a worklist of nodes with depths, in whatever order it takes them. \<open>visit\<close> is what a visit
  adds to the result and \<open>finish\<close> what the search returns.
\<close>

locale graph_search =
  fixes succs :: "'a \<Rightarrow> 'a list" and stop :: "nat \<Rightarrow> bool"
    and run :: "'a list \<Rightarrow> ('a \<times> nat) list \<Rightarrow> 'b \<Rightarrow> 'c"
    and visit :: "'a \<Rightarrow> nat \<Rightarrow> 'b \<Rightarrow> 'b" and finish :: "'a list \<Rightarrow> 'b \<Rightarrow> 'c"
    and universe :: "'a set"
  assumes run_Nil: "run v [] r = finish v r"
    and run_step: "q \<noteq> [] \<Longrightarrow> \<exists>x d q0 q'. mset q = add_mset (x, d) (mset q0) \<and>
      mset q' = mset q0 + mset (at_depth (Suc d) (found succs stop v x d)) \<and>
      run v q r = run (v @ found succs stop v x d) q' (visit x d r)"
    and finite_universe: "finite universe"
    and succs_universe: "set (succs x) \<subseteq> universe"
begin

lemma measure_decreases:
  assumes "mset q = add_mset (x, d) (mset q0)" "mset q' = mset q0 + mset (at_depth (Suc d) (found succs stop v x d))"
  shows "card (universe - set (v @ found succs stop v x d)) + length q' < card (universe - set v) + length q"
proof -
  have l: "length q = Suc (length q0)" "length q' = length q0 + length (found succs stop v x d)"
    using arg_cong [OF assms(1), of size] arg_cong [OF assms(2), of size] by simp_all
  show ?thesis
    using discover_shrinks [OF finite_universe succs_universe, of v x] l by (simp add: found_def)
qed

lemma search_complete:
  assumes "search_inv succs stop s P q v" and "r = fold (\<lambda>(x, d). visit x d) P r0"
  shows "\<exists>P' v'. run v q r = finish v' (fold (\<lambda>(x, d). visit x d) P' r0) \<and> search_inv succs stop s P' [] v'"
  using assms
proof (induction "card (universe - set v) + length q" arbitrary: v q P r rule: less_induct)
  case less
  show ?case
  proof (cases "q = []")
    case True
    with less.prems show ?thesis by (auto simp: run_Nil)
  next
    case False
    then obtain x d q0 q' where step: "mset q = add_mset (x, d) (mset q0)"
      "mset q' = mset q0 + mset (at_depth (Suc d) (found succs stop v x d))"
      "run v q r = run (v @ found succs stop v x d) q' (visit x d r)"
      using run_step by blast
    show ?thesis
      unfolding step(3)
      by (rule less.hyps [OF measure_decreases [OF step(1,2)] search_inv_step [OF less.prems(1) step(1,2)]])
        (simp add: less.prems(2))
  qed
qed

lemma search_result:
  "\<exists>P v. run [s] [(s, 0)] r = finish v (fold (\<lambda>(x, d). visit x d) P r) \<and> search_inv succs stop s P [] v"
  using search_complete [OF search_inv_start, of r r s] by auto

end

section \<open>Breadth first\<close>

text \<open>With a queue the depths are distances: they are sorted, and each is at most the one of any other path.\<close>

definition level_inv :: "('a \<Rightarrow> 'a list) \<Rightarrow> (nat \<Rightarrow> bool) \<Rightarrow> ('a \<times> nat) list \<Rightarrow> ('a \<times> nat) list \<Rightarrow> 'a list \<Rightarrow> bool" where
  "level_inv succs stop P q v \<longleftrightarrow>
     v = map fst (P @ q) \<and> sorted (map snd (P @ q)) \<and>
     (\<forall>(x, d) \<in> set q. \<forall>(y, e) \<in> set q. e \<le> Suc d) \<and>
     (\<forall>(x, d) \<in> set P. \<not> stop d \<longrightarrow> (\<forall>y \<in> set (succs x). \<exists>e \<le> Suc d. (y, e) \<in> set (P @ q)))"

lemma level_inv_start: "level_inv succs stop [] [(s, 0)] [s]"
  by (simp add: level_inv_def)

lemma level_inv_step:
  assumes "level_inv succs stop P ((x, d) # q) v"
  shows "level_inv succs stop (P @ [(x, d)]) (q @ at_depth (Suc d) (found succs stop v x d)) (v @ found succs stop v x d)"
proof -
  let ?new = "found succs stop v x d" and ?Q = "P @ (x, d) # q"
  have I: "v = map fst ?Q" "sorted (map snd ?Q)" "\<And>y e. (y, e) \<in> set q \<Longrightarrow> e \<le> Suc d"
    "\<And>z c y. (z, c) \<in> set P \<Longrightarrow> \<not> stop c \<Longrightarrow> y \<in> set (succs z) \<Longrightarrow> \<exists>e \<le> Suc c. (y, e) \<in> set ?Q"
    using assms unfolding level_inv_def by fastforce+
  have le: "c \<le> Suc d" if "(y, c) \<in> set ?Q" for y c
    using that I(2,3) by (auto simp: sorted_append)
  have ge: "d \<le> c" if "(y, c) \<in> set q" for y c
    using that I(2) by (auto simp: sorted_append)
  have "\<exists>e \<le> Suc c. (y, e) \<in> set (?Q @ at_depth (Suc d) ?new)"
    if z: "(z, c) \<in> set (P @ [(x, d)])" "\<not> stop c" "y \<in> set (succs z)" for z c y
  proof (cases "(z, c) \<in> set P")
    case True
    then show ?thesis using I(4) [OF True z(2,3)] by auto
  next
    case False
    then have zc: "z = x" "c = d" using z(1) by auto
    show ?thesis
    proof (cases "y \<in> set v")
      case True
      then have "y \<in> fst ` set ?Q" by (simp only: I(1) set_map)
      then obtain e where "(y, e) \<in> set ?Q" by force
      then show ?thesis using le [of y e] zc by auto
    next
      case False
      then show ?thesis using z zc by auto
    qed
  qed
  moreover have "sorted (map snd (?Q @ at_depth (Suc d) ?new))"
  proof -
    have "\<forall>c \<in> snd ` set ?Q. c \<le> Suc d" using le by (auto simp: split_paired_all)
    moreover have "map snd (?Q @ at_depth (Suc d) ?new) = map snd ?Q @ map (\<lambda>_. Suc d) ?new" by simp
    ultimately show ?thesis using I(2) by (simp only: sorted_append [of "map snd ?Q"]) (auto simp: sorted_wrt_map)
  qed
  moreover have "e \<le> Suc c" if "(z, c) \<in> set (q @ at_depth (Suc d) ?new)" "(y, e) \<in> set (q @ at_depth (Suc d) ?new)" for z c y e
    using that ge I(3) by fastforce
  moreover have "v @ ?new = map fst (?Q @ at_depth (Suc d) ?new)" using I(1) by (simp add: o_def)
  moreover have assoc: "(P @ [(x, d)]) @ q @ at_depth (Suc d) ?new = ?Q @ at_depth (Suc d) ?new" by simp
  ultimately show ?thesis unfolding level_inv_def assoc by (intro conjI ballI) blast+
qed

text \<open>Everything no deeper than the front of the queue has been discovered, by a path that is no longer.\<close>

lemma level_inv_front:
  assumes "level_inv succs stop P ((x, d) # q) v" "(s, 0) \<in> set (P @ (x, d) # q)"
  shows "y \<in> reach_in succs s k \<Longrightarrow> k \<le> d \<Longrightarrow> \<forall>j < k. \<not> stop j \<Longrightarrow> \<exists>e \<le> k. (y, e) \<in> set (P @ (x, d) # q)"
proof (induction k arbitrary: y)
  case 0
  then show ?case using assms(2) by auto
next
  case (Suc k)
  then obtain z where z: "z \<in> reach_in succs s k" "y \<in> set (succs z)" by (auto simp: reach_in_Suc)
  then obtain e where e: "e \<le> k" "(z, e) \<in> set (P @ (x, d) # q)" using Suc by fastforce
  have "sorted (map snd (P @ (x, d) # q))" using assms(1) by (simp add: level_inv_def)
  then have "(z, e) \<in> set P" using e Suc.prems(2) by (fastforce simp: sorted_append)
  moreover have "\<not> stop e" using e(1) Suc.prems(3) by auto
  ultimately obtain e' where "e' \<le> Suc e" "(y, e') \<in> set (P @ (x, d) # q)"
    using assms(1) z(2) unfolding level_inv_def by fastforce
  with e(1) show ?case by (meson Suc_le_mono le_trans)
qed

lemma level_inv_end:
  assumes "level_inv succs stop P [] v" "(s, 0) \<in> set P"
  shows "y \<in> reach_in succs s k \<Longrightarrow> \<forall>j < k. \<not> stop j \<Longrightarrow> \<exists>e \<le> k. (y, e) \<in> set P"
proof (induction k arbitrary: y)
  case 0
  then show ?case using assms(2) by auto
next
  case (Suc k)
  then obtain z where z: "z \<in> reach_in succs s k" "y \<in> set (succs z)" by (auto simp: reach_in_Suc)
  then obtain e where e: "e \<le> k" "(z, e) \<in> set P" using Suc by fastforce
  moreover have "\<not> stop e" using e(1) Suc.prems(2) by auto
  ultimately obtain e' where "e' \<le> Suc e" "(y, e') \<in> set P"
    using assms(1) z(2) unfolding level_inv_def by fastforce
  with e(1) show ?case by (meson Suc_le_mono le_trans)
qed

text \<open>The distance within the depth limit.\<close>

definition within :: "('a \<Rightarrow> 'a list) \<Rightarrow> (nat \<Rightarrow> bool) \<Rightarrow> 'a \<Rightarrow> 'a set" where
  "within succs stop s = {x. \<exists>k. x \<in> reach_in succs s k \<and> (\<forall>j < k. \<not> stop j)}"

definition distance :: "('a \<Rightarrow> 'a list) \<Rightarrow> 'a \<Rightarrow> 'a \<Rightarrow> nat" where
  "distance succs s x = (LEAST k. x \<in> reach_in succs s k)"

locale level_search =
  fixes succs :: "'a \<Rightarrow> 'a list" and stop :: "nat \<Rightarrow> bool"
    and run :: "'a list \<Rightarrow> ('a \<times> nat) list \<Rightarrow> 'b \<Rightarrow> 'c"
    and visit :: "'a \<Rightarrow> nat \<Rightarrow> 'b \<Rightarrow> 'b" and finish :: "'a list \<Rightarrow> 'b \<Rightarrow> 'c"
    and universe :: "'a set"
  assumes run_Nil: "run v [] r = finish v r"
    and run_Cons: "run v ((x, d) # q) r =
      run (v @ found succs stop v x d) (q @ at_depth (Suc d) (found succs stop v x d)) (visit x d r)"
    and finite_universe: "finite universe"
    and succs_universe: "set (succs x) \<subseteq> universe"

sublocale level_search \<subseteq> any: graph_search succs stop run visit finish universe
proof unfold_locales
  fix v :: "'a list" and q :: "('a \<times> nat) list" and r
  assume "q \<noteq> []"
  then obtain x d q0 where q: "q = (x, d) # q0" by (metis list.exhaust surj_pair)
  show "\<exists>x d q0 q'. mset q = add_mset (x, d) (mset q0) \<and>
      mset q' = mset q0 + mset (at_depth (Suc d) (found succs stop v x d)) \<and>
      run v q r = run (v @ found succs stop v x d) q' (visit x d r)"
    unfolding q
    by (intro exI [of _ x] exI [of _ d] exI [of _ q0] exI [of _ "q0 @ at_depth (Suc d) (found succs stop v x d)"])
      (simp add: run_Cons)
qed (simp_all add: run_Nil finite_universe succs_universe)

context level_search
begin

lemma level_complete:
  assumes "search_inv succs stop s P q v" "level_inv succs stop P q v" "r = fold (\<lambda>(x, d). visit x d) P r0"
    "(s, 0) \<in> set (P @ q)"
  shows "\<exists>P'. run v q r = finish (map fst P') (fold (\<lambda>(x, d). visit x d) P' r0) \<and>
    search_inv succs stop s P' [] (map fst P') \<and> level_inv succs stop P' [] (map fst P') \<and> (s, 0) \<in> set P'"
  using assms
proof (induction "card (universe - set v) + length q" arbitrary: v q P r rule: less_induct)
  case less
  show ?case
  proof (cases q)
    case Nil
    moreover have "v = map fst P" using less.prems(2) Nil by (simp add: level_inv_def)
    ultimately show ?thesis using less.prems by (auto simp: run_Nil)
  next
    case (Cons xd q0)
    obtain x d where xd: "xd = (x, d)" by fastforce
    let ?new = "found succs stop v x d" and ?q = "q0 @ at_depth (Suc d) (found succs stop v x d)"
    have q: "mset q = add_mset (x, d) (mset q0)" "mset ?q = mset q0 + mset (at_depth (Suc d) ?new)"
      by (simp_all add: Cons xd)
    have "run v q r = run (v @ ?new) ?q (visit x d r)" by (simp add: Cons xd run_Cons)
    moreover have "level_inv succs stop (P @ [(x, d)]) ?q (v @ ?new)"
      using less.prems(2) Cons xd level_inv_step by fast
    moreover have "(s, 0) \<in> set ((P @ [(x, d)]) @ ?q)" using less.prems(4) Cons xd by auto
    ultimately show ?thesis
      using less.hyps [OF any.measure_decreases [OF q] search_inv_step [OF less.prems(1) q], of "visit x d r"] less.prems(3)
      by simp
  qed
qed

lemma level_result:
  "\<exists>P. run [s] [(s, 0)] r = finish (map fst P) (fold (\<lambda>(x, d). visit x d) P r) \<and>
    distinct (map fst P) \<and> fst ` set P = within succs stop s \<and> sorted (map (distance succs s) (map fst P)) \<and>
    (\<forall>(x, d) \<in> set P. d = distance succs s x)"
proof -
  obtain P where P: "run [s] [(s, 0)] r = finish (map fst P) (fold (\<lambda>(x, d). visit x d) P r)"
    "search_inv succs stop s P [] (map fst P)" "level_inv succs stop P [] (map fst P)" "(s, 0) \<in> set P"
    using level_complete [OF search_inv_start level_inv_start, of r r s] by auto
  note D = search_inv_done [OF P(2)] and L = level_inv_end [OF P(3,4)]
  have dist: "d = distance succs s x" if xd: "(x, d) \<in> set P" for x d
    unfolding distance_def
  proof (rule Least_equality [symmetric])
    show "x \<in> reach_in succs s d" using D(4) [OF xd] by simp
    fix k assume k: "x \<in> reach_in succs s k"
    show "d \<le> k"
    proof (rule ccontr)
      assume lt: "\<not> d \<le> k"
      then obtain e where e: "e \<le> k" "(x, e) \<in> set P" using L [OF k] D(4) [OF xd] by auto
      then have "e = d" using D(1) xd by (metis eq_key_imp_eq_value)
      with e lt show False by simp
    qed
  qed
  have "map (distance succs s) (map fst P) = map snd P" using dist by (auto simp: split_paired_all)
  moreover have "sorted (map snd P)" using P(3) by (simp add: level_inv_def)
  ultimately have "sorted (map (distance succs s) (map fst P))" by (simp only:)
  moreover have "fst ` set P = within succs stop s"
    unfolding within_def using D(4) L by (force intro: rev_image_eqI)
  ultimately show ?thesis using P(1) D(1) dist by blast
qed

end

end
