(* ===== verification/Silk_Engine.thy ===== *)
theory Silk_Engine
  imports Silk_Network Silk_Search
begin

text \<open>
  The traversals of the query engine, \<^verbatim>\<open>src/engine.rs\<close>: breadth-first and depth-first search, impact analysis
  and neighbourhood extraction. Each loop is an instance of the search interfaces of \<^verbatim>\<open>Silk_Search\<close>; the
  loops end because only nodes of the graph are pushed, each once.
\<close>

declare map_of_eq_Some_iff [simp del] Some_eq_map_of_iff [simp del]

section \<open>Breadth and depth first\<close>

definition depth_reached :: "nat option \<Rightarrow> nat \<Rightarrow> bool" where
  "depth_reached max_depth depth = (case max_depth of None \<Rightarrow> False | Some m \<Rightarrow> depth \<ge> m)"

definition edge_passes :: "string option \<Rightarrow> edge \<Rightarrow> bool" where
  "edge_passes edge_type_filter e = (case edge_type_filter of None \<Rightarrow> True | Some f \<Rightarrow> e_type e = f)"

fun push_targets :: "string option \<Rightarrow> edge list \<Rightarrow> nat \<Rightarrow> string list \<Rightarrow> (string \<times> nat) list \<Rightarrow> string list \<times> (string \<times> nat) list" where
  "push_targets flt [] depth visited pushed = (visited, pushed)"
| "push_targets flt (e # es) depth visited pushed =
     (if \<not> edge_passes flt e then push_targets flt es depth visited pushed
      else if e_target e \<notin> set visited
      then push_targets flt es depth (visited @ [e_target e]) (pushed @ [(e_target e, depth + 1)])
      else push_targets flt es depth visited pushed)"

fun push_sources :: "edge list \<Rightarrow> nat \<Rightarrow> string list \<Rightarrow> (string \<times> nat) list \<Rightarrow> string list \<times> (string \<times> nat) list" where
  "push_sources [] depth visited pushed = (visited, pushed)"
| "push_sources (e # es) depth visited pushed =
     (if e_source e \<notin> set visited
      then push_sources es depth (visited @ [e_source e]) (pushed @ [(e_source e, depth + 1)])
      else push_sources es depth visited pushed)"

abbreviation targets :: "string option \<Rightarrow> graph \<Rightarrow> string \<Rightarrow> string list" where
  "targets flt g n \<equiv> map e_target (filter (edge_passes flt) (outgoing_edges g n))"

abbreviation sources :: "graph \<Rightarrow> string \<Rightarrow> string list" where
  "sources g n \<equiv> map e_source (incoming_edges g n)"

lemma push_targets_discover:
  "push_targets flt es d v pushed =
     (let new = discover (map e_target (filter (edge_passes flt) es)) v in (v @ new, pushed @ at_depth (Suc d) new))"
  by (induction flt es d v pushed rule: push_targets.induct) (auto simp: Let_def)

lemma push_sources_discover:
  "push_sources es d v pushed = (let new = discover (map e_source es) v in (v @ new, pushed @ at_depth (Suc d) new))"
  by (induction es d v pushed rule: push_sources.induct) (auto simp: Let_def)

lemma outgoing_live: "e \<in> set (outgoing_edges g n) \<Longrightarrow> e_target e \<in> hm_keys (gr_nodes g)"
  by (auto simp: outgoing_edges_def is_node_live_def dest: get_in_keys split: option.splits)

lemma incoming_live: "e \<in> set (incoming_edges g n) \<Longrightarrow> e_source e \<in> hm_keys (gr_nodes g)"
  by (auto simp: incoming_edges_def is_node_live_def dest: get_in_keys split: option.splits)

lemma targets_universe: "set (targets flt g n) \<subseteq> hm_keys (gr_nodes g)"
  using outgoing_live by auto

lemma sources_universe: "set (sources g n) \<subseteq> hm_keys (gr_nodes g)"
  using incoming_live by auto

function bfs_loop :: "graph \<Rightarrow> nat option \<Rightarrow> string option \<Rightarrow> string list \<Rightarrow> (string \<times> nat) list \<Rightarrow> string list \<Rightarrow> string list" where
  "bfs_loop g max_depth flt visited [] result = result"
| "bfs_loop g max_depth flt visited ((node_id, depth) # queue) result =
     (if depth_reached max_depth depth then bfs_loop g max_depth flt visited queue (result @ [node_id])
      else case push_targets flt (outgoing_edges g node_id) depth visited [] of
        (visited', pushed) \<Rightarrow> bfs_loop g max_depth flt visited' (queue @ pushed) (result @ [node_id]))"
  by pat_completeness auto

text \<open>What is pushed is a node of the graph that was not visited before.\<close>

definition unvisited :: "graph \<Rightarrow> string list \<Rightarrow> nat" where
  "unvisited g v = card (hm_keys (gr_nodes g) - set v)"

lemma push_targets_measure:
  "push_targets flt (outgoing_edges g n) d v [] = (v', pushed) \<Longrightarrow> unvisited g v' + length pushed = unvisited g v"
  using discover_shrinks [OF _ targets_universe, of g v flt n] by (auto simp: push_targets_discover Let_def unvisited_def)

lemma push_sources_measure:
  "push_sources (incoming_edges g n) d v pushed0 = (v', pushed) \<Longrightarrow> unvisited g v' + length pushed = unvisited g v + length pushed0"
  using discover_shrinks [OF _ sources_universe, of g v n] by (auto simp: push_sources_discover Let_def unvisited_def)

termination bfs_loop
  by (relation "measure (\<lambda>(g, m, flt, v, q, r). unvisited g v + length q)") (auto dest!: push_targets_measure [OF sym])

definition bfs :: "graph \<Rightarrow> string \<Rightarrow> nat option \<Rightarrow> string option \<Rightarrow> string list" where
  "bfs g start max_depth edge_type_filter =
     (if get_node g start = None then [] else bfs_loop g max_depth edge_type_filter [start] [(start, 0)] [])"

text \<open>The top of the stack is the head of the list: what is pushed last is popped first.\<close>

function dfs_loop :: "graph \<Rightarrow> nat option \<Rightarrow> string option \<Rightarrow> string list \<Rightarrow> (string \<times> nat) list \<Rightarrow> string list \<Rightarrow> string list" where
  "dfs_loop g max_depth flt visited [] result = result"
| "dfs_loop g max_depth flt visited ((node_id, depth) # stack) result =
     (if depth_reached max_depth depth then dfs_loop g max_depth flt visited stack (result @ [node_id])
      else case push_targets flt (outgoing_edges g node_id) depth visited [] of
        (visited', pushed) \<Rightarrow> dfs_loop g max_depth flt visited' (rev pushed @ stack) (result @ [node_id]))"
  by pat_completeness auto

termination dfs_loop
  by (relation "measure (\<lambda>(g, m, flt, v, q, r). unvisited g v + length q)") (auto dest!: push_targets_measure [OF sym])

definition dfs :: "graph \<Rightarrow> string \<Rightarrow> nat option \<Rightarrow> string option \<Rightarrow> string list" where
  "dfs g start max_depth edge_type_filter =
     (if get_node g start = None then [] else dfs_loop g max_depth edge_type_filter [start] [(start, 0)] [])"

function impact_loop :: "graph \<Rightarrow> nat option \<Rightarrow> string list \<Rightarrow> (string \<times> nat) list \<Rightarrow> string list \<Rightarrow> string list" where
  "impact_loop g max_depth visited [] result = result"
| "impact_loop g max_depth visited ((current, depth) # queue) result =
     (if depth_reached max_depth depth then impact_loop g max_depth visited queue (result @ [current])
      else case push_sources (incoming_edges g current) depth visited [] of
        (visited', pushed) \<Rightarrow> impact_loop g max_depth visited' (queue @ pushed) (result @ [current]))"
  by pat_completeness auto

termination impact_loop
  by (relation "measure (\<lambda>(g, m, v, q, r). unvisited g v + length q)") (auto dest!: push_sources_measure [OF sym])

definition impact_analysis :: "graph \<Rightarrow> string \<Rightarrow> nat option \<Rightarrow> string list" where
  "impact_analysis g node_id max_depth =
     (if get_node g node_id = None then [] else impact_loop g max_depth [node_id] [(node_id, 0)] [])"

function subgraph_loop :: "graph \<Rightarrow> nat \<Rightarrow> string list \<Rightarrow> string list \<Rightarrow> (string \<times> nat) list \<Rightarrow> string list \<times> string list" where
  "subgraph_loop g hops visited_nodes visited_edges [] = (visited_nodes, visited_edges)"
| "subgraph_loop g hops visited_nodes visited_edges ((node_id, depth) # queue) =
     (if depth \<ge> hops then subgraph_loop g hops visited_nodes visited_edges queue
      else
        let (nodes1, pushed1) = push_targets None (outgoing_edges g node_id) depth visited_nodes [];
            (nodes2, pushed2) = push_sources (incoming_edges g node_id) depth nodes1 pushed1;
            edges = fold hs_insert (map e_id (outgoing_edges g node_id) @ map e_id (incoming_edges g node_id)) visited_edges
        in subgraph_loop g hops nodes2 edges (queue @ pushed2))"
  by pat_completeness auto

termination subgraph_loop
  by (relation "measure (\<lambda>(g, h, v, ve, q). unvisited g v + length q)")
    (auto dest!: push_targets_measure [OF sym] push_sources_measure [OF sym])

definition subgraph :: "graph \<Rightarrow> string \<Rightarrow> nat \<Rightarrow> string list \<times> string list" where
  "subgraph g start hops = (if get_node g start = None then ([], []) else subgraph_loop g hops [start] [] [(start, 0)])"

section \<open>The searches as instances\<close>

lemma fold_snoc: "fold (\<lambda>(x, d) r. r @ [x]) P r = r @ map fst P"
  by (induction P arbitrary: r) auto

interpretation bf: level_search "targets flt g" "depth_reached m" "bfs_loop g m flt" "\<lambda>x d r. r @ [x]" "\<lambda>v r. r" "hm_keys (gr_nodes g)"
  for g m flt
  using targets_universe [of flt g]
  by unfold_locales (auto simp: found_def push_targets_discover Let_def)

interpretation im: level_search "sources g" "depth_reached m" "impact_loop g m" "\<lambda>x d r. r @ [x]" "\<lambda>v r. r" "hm_keys (gr_nodes g)"
  for g m
  using sources_universe [of g]
  by unfold_locales (auto simp: found_def push_sources_discover Let_def)

abbreviation around :: "graph \<Rightarrow> string \<Rightarrow> string list" where
  "around g n \<equiv> neighbors g n @ reverse_neighbors g n"

abbreviation incident :: "graph \<Rightarrow> string \<Rightarrow> string list" where
  "incident g n \<equiv> map e_id (outgoing_edges g n) @ map e_id (incoming_edges g n)"

lemma targets_all: "targets None g n = neighbors g n"
  by (simp add: edge_passes_def neighbors_def)

interpretation sg: level_search "around g" "\<lambda>d. h \<le> d" "\<lambda>v q r. subgraph_loop g h v r q"
    "\<lambda>x d r. if h \<le> d then r else fold hs_insert (incident g x) r" Pair "hm_keys (gr_nodes g)"
  for g h
proof unfold_locales
  fix v x d q r
  show "subgraph_loop g h v r ((x, d) # q) = subgraph_loop g h (v @ found (around g) (\<lambda>d. h \<le> d) v x d)
      (if h \<le> d then r else fold hs_insert (incident g x) r) (q @ at_depth (Suc d) (found (around g) (\<lambda>d. h \<le> d) v x d))"
    by (simp add: found_def push_targets_discover push_sources_discover Let_def discover_append reverse_neighbors_def
        targets_all)
  show "set (around g x) \<subseteq> hm_keys (gr_nodes g)"
    using targets_universe [of None g x] sources_universe [of g x] by (simp add: targets_all reverse_neighbors_def)
qed simp_all

interpretation df: graph_search "targets flt g" "depth_reached m" "dfs_loop g m flt" "\<lambda>x d r. r @ [x]" "\<lambda>v r. r" "hm_keys (gr_nodes g)"
  for g m flt
proof unfold_locales
  fix v r and q :: "(string \<times> nat) list"
  assume "q \<noteq> []"
  then obtain x d q0 where q: "q = (x, d) # q0" by (metis list.exhaust surj_pair)
  let ?new = "found (targets flt g) (depth_reached m) v x d"
  have "dfs_loop g m flt v q r = dfs_loop g m flt (v @ ?new) (rev (at_depth (Suc d) ?new) @ q0) (r @ [x])"
    by (simp add: q found_def push_targets_discover Let_def)
  then show "\<exists>x d q0 q'. mset q = add_mset (x, d) (mset q0) \<and>
      mset q' = mset q0 + mset (at_depth (Suc d) (found (targets flt g) (depth_reached m) v x d)) \<and>
      dfs_loop g m flt v q r = dfs_loop g m flt (v @ found (targets flt g) (depth_reached m) v x d) q' (r @ [x])"
    unfolding q by (intro exI [of _ x] exI [of _ d] exI [of _ q0] exI [of _ "rev (at_depth (Suc d) ?new) @ q0"]) simp
qed (use targets_universe [of flt g] in simp_all)

definition max_reached :: "nat option \<Rightarrow> nat \<Rightarrow> bool" where
  "max_reached m k = (case m of None \<Rightarrow> True | Some b \<Rightarrow> k \<le> b)"

lemma within_depth: "within succs (depth_reached m) s = {x. \<exists>k. max_reached m k \<and> x \<in> reach_in succs s k}"
proof -
  have "(\<forall>j < k. \<not> depth_reached m j) \<longleftrightarrow> max_reached m k" for k
  proof (cases m)
    case (Some b)
    have "(\<forall>j < k. \<not> b \<le> j) \<longleftrightarrow> k \<le> b" by (metis le_refl linorder_not_less order_less_le_trans)
    with Some show ?thesis by (simp add: depth_reached_def max_reached_def)
  qed (simp add: depth_reached_def max_reached_def)
  then show ?thesis by (auto simp: within_def)
qed

lemma bfs_result:
  assumes "get_node g start \<noteq> None"
  shows "distinct (bfs g start m flt)"
    and "set (bfs g start m flt) = {x. \<exists>k. max_reached m k \<and> x \<in> reach_in (targets flt g) start k}"
    and "sorted (map (distance (targets flt g) start) (bfs g start m flt))"
proof -
  obtain P :: "(string \<times> nat) list" where P: "bfs_loop g m flt [start] [(start, 0)] [] = fold (\<lambda>(x, d) r. r @ [x]) P []" "distinct (map fst P)"
    "fst ` set P = within (targets flt g) (depth_reached m) start" "sorted (map (distance (targets flt g) start) (map fst P))"
    using bf.level_result [of g m flt start "[]"] by blast
  have "bfs g start m flt = map fst P" using assms P(1) by (auto simp: bfs_def fold_snoc simp del: bfs_loop.simps)
  with P(2-4) show "distinct (bfs g start m flt)" "sorted (map (distance (targets flt g) start) (bfs g start m flt))"
    "set (bfs g start m flt) = {x. \<exists>k. max_reached m k \<and> x \<in> reach_in (targets flt g) start k}"
    by (simp_all only: set_map within_depth)
qed

lemma impact_result:
  assumes "get_node g start \<noteq> None"
  shows "distinct (impact_analysis g start m)"
    and "set (impact_analysis g start m) = {x. \<exists>k. max_reached m k \<and> x \<in> reach_in (sources g) start k}"
    and "sorted (map (distance (sources g) start) (impact_analysis g start m))"
proof -
  obtain P :: "(string \<times> nat) list" where P: "impact_loop g m [start] [(start, 0)] [] = fold (\<lambda>(x, d) r. r @ [x]) P []" "distinct (map fst P)"
    "fst ` set P = within (sources g) (depth_reached m) start" "sorted (map (distance (sources g) start) (map fst P))"
    using im.level_result [of g m start "[]"] by blast
  have "impact_analysis g start m = map fst P" using assms P(1) by (auto simp: impact_analysis_def fold_snoc simp del: impact_loop.simps)
  with P(2-4) show "distinct (impact_analysis g start m)" "sorted (map (distance (sources g) start) (impact_analysis g start m))"
    "set (impact_analysis g start m) = {x. \<exists>k. max_reached m k \<and> x \<in> reach_in (sources g) start k}"
    by (simp_all only: set_map within_depth)
qed

text \<open>On live nodes the two adjacency queries are converse to each other, and so are the two searches.\<close>

lemma reach_in_front: "y \<in> reach_in succs s (Suc k) \<longleftrightarrow> (\<exists>x \<in> set (succs s). y \<in> reach_in succs x k)"
  unfolding reach_in_def relpow_commute [symmetric] relpow.simps(2) by (auto simp: succ_rel_def)

lemma targets_sources:
  assumes "graph_inv g" "get_node g x \<noteq> None" "get_node g y \<noteq> None"
  shows "x \<in> set (targets None g y) \<longleftrightarrow> y \<in> set (sources g x)"
  using assms(2,3) by (auto simp: edge_passes_def outgoing_edges_iff [OF assms(1)] incoming_edges_iff [OF assms(1)] image_iff
      simp del: not_None_eq)

lemma sources_live: "y \<in> set (sources g x) \<Longrightarrow> get_node g y \<noteq> None"
  by (auto simp: incoming_edges_def is_node_live_iff)

lemma targets_live: "y \<in> set (targets flt g x) \<Longrightarrow> get_node g y \<noteq> None"
  by (auto simp: outgoing_edges_def is_node_live_iff)

lemma reach_in_live: "get_node g x \<noteq> None \<Longrightarrow> y \<in> reach_in (sources g) x k \<Longrightarrow> get_node g y \<noteq> None"
  by (cases k) (auto simp: reach_in_Suc simp del: not_None_eq set_map dest: sources_live)

lemma reach_in_converse:
  assumes "graph_inv g" "get_node g x \<noteq> None"
  shows "get_node g y \<noteq> None \<Longrightarrow> y \<in> reach_in (sources g) x k \<longleftrightarrow> x \<in> reach_in (targets None g) y k"
proof (induction k arbitrary: y)
  case (Suc k)
  have "y \<in> reach_in (sources g) x (Suc k) \<longleftrightarrow> (\<exists>z. get_node g z \<noteq> None \<and> z \<in> reach_in (sources g) x k \<and> y \<in> set (sources g z))"
    using reach_in_live [OF assms(2)] unfolding reach_in_Suc by blast
  also have "\<dots> \<longleftrightarrow> (\<exists>z. get_node g z \<noteq> None \<and> x \<in> reach_in (targets None g) z k \<and> z \<in> set (targets None g y))"
    using Suc.IH targets_sources [OF assms(1) _ Suc.prems] by blast
  also have "\<dots> \<longleftrightarrow> x \<in> reach_in (targets None g) y (Suc k)"
    using targets_live unfolding reach_in_front by blast
  finally show ?case .
qed (auto simp: eq_commute)

text \<open>
  C31. Breadth-first search. From a live start node \<^verbatim>\<open>bfs\<close> returns each node reachable by at most \<open>max_depth\<close>
  edges that pass the type filter exactly once, in order of increasing distance; from any other id it
  returns nothing.
\<close>

theorem bfs_exact:
  fixes m :: "nat option"
  shows "(get_node g start = None \<longrightarrow> bfs g start m flt = []) \<and>
   (get_node g start \<noteq> None \<longrightarrow> distinct (bfs g start m flt) \<and>
      set (bfs g start m flt) = {x. \<exists>k. max_reached m k \<and> x \<in> reach_in (targets flt g) start k} \<and>
      sorted (map (distance (targets flt g) start) (bfs g start m flt)))"
  using bfs_result [of g start] by (auto simp: bfs_def)

definition line_graph :: graph where
  "line_graph = network [''a'', ''b'', ''c''] [(''e'', ''a'', ''b''), (''f'', ''b'', ''c'')]"

lemma line_facts: "get_node line_graph n \<noteq> None \<longleftrightarrow> n \<in> {''a'', ''b'', ''c''}" "targets None line_graph ''a'' = [''b'']"
  "sources line_graph ''b'' = [''a'']" "graph_run (tiny_env id) line_graph" "neighbors line_graph ''b'' = [''c'']"
  "neighbors line_graph ''c'' = []" "map n_id (nodes_by_type line_graph ''n'') = [''a'', ''b'', ''c'']"
  using network_edges [of "[''a'', ''b'', ''c'']" "[(''e'', ''a'', ''b''), (''f'', ''b'', ''c'')]"]
    network_by_type(1) [of "[''a'', ''b'', ''c'']" "[(''e'', ''a'', ''b''), (''f'', ''b'', ''c'')]"]
  by (simp_all add: line_graph_def edge_passes_def network_run neighbors_def)

lemma line_node_type: "get_node line_graph i = Some n \<Longrightarrow> n_type n = ''n''"
  using network_by_type(2) [of "[''a'', ''b'', ''c'']" "[(''e'', ''a'', ''b''), (''f'', ''b'', ''c'')]"]
  by (simp add: line_graph_def)

theorem bfs_exact_witness: "''b'' \<in> set (bfs line_graph ''a'' (Some 1) None)"
proof -
  have "''b'' \<in> reach_in (targets None line_graph) ''a'' 1" using line_facts(2) by (auto simp: reach_in_Suc)
  moreover have "max_reached (Some 1) 1" by (simp add: max_reached_def)
  moreover have "get_node line_graph ''a'' \<noteq> None" by (simp only: line_facts(1)) simp
  ultimately show ?thesis using bfs_exact [of line_graph "''a''" "Some 1" None] by blast
qed

text \<open>
  Impact analysis. In every reachable graph \<open>y\<close> is reported as depending on \<open>x\<close> within a depth exactly when
  a breadth-first search from \<open>y\<close> with that depth finds \<open>x\<close>; each dependent is reported once.
\<close>

theorem impact_is_reverse_search:
  assumes "graph_run E g" and "iter_ok E" and "get_node g x \<noteq> None" and "get_node g y \<noteq> None"
  shows "(y \<in> set (impact_analysis g x m) \<longleftrightarrow> x \<in> set (bfs g y m None)) \<and> distinct (impact_analysis g x m)"
  unfolding impact_result(2) [OF assms(3)] bfs_result(2) [OF assms(4)]
  using reach_in_converse [OF graph_run_inv [OF assms(1,2)] assms(3,4)] impact_result(1) [OF assms(3)] by simp

theorem impact_is_reverse_search_witness:
  "''a'' \<in> set (impact_analysis line_graph ''c'' None) \<longleftrightarrow> ''c'' \<in> set (bfs line_graph ''a'' None None)"
  by (rule conjunct1 [OF impact_is_reverse_search [OF line_facts(4) tiny_iter_ok(1)]]) (simp_all only: line_facts(1), simp_all)

definition expand_edges :: "graph \<Rightarrow> nat \<Rightarrow> string \<times> nat \<Rightarrow> string list \<Rightarrow> string list" where
  "expand_edges g h = (\<lambda>(x, d) r. if h \<le> d then r else fold hs_insert (incident g x) r)"

lemma set_fold_hs_insert: "set (fold hs_insert xs r) = set r \<union> set xs"
  and distinct_fold_hs_insert: "distinct (fold hs_insert xs r) = distinct r"
  by (induction xs arbitrary: r) auto

lemma expand_edges_result:
  "set (fold (expand_edges g h) P r) = set r \<union> (\<Union>(x, d) \<in> {p \<in> set P. snd p < h}. set (incident g x))"
  "distinct (fold (expand_edges g h) P r) = distinct r"
proof -
  have e: "set (expand_edges g h p r) = set r \<union> (if snd p < h then set (incident g (fst p)) else {})"
    "distinct (expand_edges g h p r) = distinct r" for p r
    unfolding expand_edges_def by (cases p; simp only: prod.case fst_conv snd_conv split: if_split;
      force simp del: fold_append simp: set_fold_hs_insert distinct_fold_hs_insert)+
  show "set (fold (expand_edges g h) P r) = set r \<union> (\<Union>(x, d) \<in> {p \<in> set P. snd p < h}. set (incident g x))"
    by (induction P arbitrary: r) (auto simp: e split: if_splits)
  show "distinct (fold (expand_edges g h) P r) = distinct r"
    by (induction P arbitrary: r) (simp_all add: e)
qed

lemma less_all_iff: "(\<forall>j < k. j < h) \<longleftrightarrow> k \<le> (h :: nat)"
  by (metis linorder_not_less order_less_irrefl order_less_le_trans)

lemma depth_below:
  assumes "\<And>x d. (x, d) \<in> set P \<Longrightarrow> d = distance succs s x" "fst ` set P = {x. \<exists>k \<le> h. x \<in> reach_in succs s k}"
  shows "(\<exists>d. (x, d) \<in> set P \<and> d < h) \<longleftrightarrow> (\<exists>k < h. x \<in> reach_in succs s k)"
proof
  assume "\<exists>d. (x, d) \<in> set P \<and> d < h"
  then obtain d where d: "(x, d) \<in> set P" "d < h" by blast
  then have "x \<in> fst ` set P" by force
  then have "\<exists>k. x \<in> reach_in succs s k" unfolding assms(2) by blast
  then have "x \<in> reach_in succs s (distance succs s x)" unfolding distance_def by (rule LeastI_ex)
  with d assms(1) [OF d(1)] show "\<exists>k < h. x \<in> reach_in succs s k" by blast
next
  assume "\<exists>k < h. x \<in> reach_in succs s k"
  then obtain k where k: "k < h" "x \<in> reach_in succs s k" by blast
  then have "x \<in> fst ` set P" unfolding assms(2) by (blast intro: less_imp_le)
  then obtain d where d: "(x, d) \<in> set P" by auto
  have "d \<le> k" unfolding assms(1) [OF d] distance_def using k(2) by (rule Least_le)
  with d k(1) show "\<exists>d. (x, d) \<in> set P \<and> d < h" by auto
qed

text \<open>
  Neighbourhood extraction. \<^verbatim>\<open>subgraph\<close> returns exactly the nodes within the given number of hops, following
  edges in both directions, and exactly the ids of the edges at nodes closer than that; both without
  repetition.
\<close>

theorem subgraph_exact:
  assumes "get_node g start \<noteq> None"
  shows "distinct (fst (subgraph g start h)) \<and> distinct (snd (subgraph g start h)) \<and>
    set (fst (subgraph g start h)) = {x. \<exists>k \<le> h. x \<in> reach_in (around g) start k} \<and>
    set (snd (subgraph g start h)) = (\<Union>x \<in> {x. \<exists>k < h. x \<in> reach_in (around g) start k}. set (incident g x))"
proof -
  obtain P where P: "subgraph g start h = (map fst P, fold (expand_edges g h) P [])" "distinct (map fst P)"
    "fst ` set P = within (around g) (\<lambda>d. h \<le> d) start" "\<And>x d. (x, d) \<in> set P \<Longrightarrow> d = distance (around g) start x"
  proof -
    have "subgraph g start h = subgraph_loop g h [start] [] [(start, 0)]" using assms by (auto simp: subgraph_def)
    then show ?thesis using sg.level_result [of g h start "[]", folded expand_edges_def] that by fastforce
  qed
  have w: "fst ` set P = {x. \<exists>k \<le> h. x \<in> reach_in (around g) start k}"
    unfolding P(3) within_def by (simp add: not_le less_all_iff conj_commute)
  have "(\<exists>d. (x, d) \<in> set P \<and> d < h) \<longleftrightarrow> (\<exists>k < h. x \<in> reach_in (around g) start k)" for x
    by (rule depth_below [OF P(4) w])
  then have "(\<Union>(x, d) \<in> {p \<in> set P. snd p < h}. set (incident g x)) =
      (\<Union>x \<in> {x. \<exists>k < h. x \<in> reach_in (around g) start k}. set (incident g x))" by fastforce
  then show ?thesis using P(2) w by (simp add: P(1) expand_edges_result)
qed

theorem subgraph_exact_witness: "''b'' \<in> set (fst (subgraph line_graph ''a'' 1))"
proof -
  have "''b'' \<in> reach_in (around line_graph) ''a'' 1"
    using line_facts(2) by (auto simp: reach_in_Suc targets_all)
  moreover have "get_node line_graph ''a'' \<noteq> None" by (simp only: line_facts(1)) simp
  ultimately show ?thesis using subgraph_exact [of line_graph "''a''" 1] by blast
qed

lemma max_reached_stop: "(\<forall>j < d. \<not> depth_reached m j) \<longleftrightarrow> max_reached m d"
proof (cases m)
  case (Some b)
  then show ?thesis using less_all_iff [of d b] by (simp add: depth_reached_def max_reached_def not_le)
qed (simp add: depth_reached_def max_reached_def)

lemma dfs_result:
  assumes "get_node g start \<noteq> None"
  obtains P v where "dfs g start m flt = map fst P" "search_inv (targets flt g) (depth_reached m) start P [] v"
proof -
  obtain P :: "(string \<times> nat) list" and v where "dfs_loop g m flt [start] [(start, 0)] [] = fold (\<lambda>(x, d) r. r @ [x]) P []"
    "search_inv (targets flt g) (depth_reached m) start P [] v"
    using df.search_result [of g m flt start "[]"] by blast
  with that assms show ?thesis by (auto simp: dfs_def fold_snoc simp del: dfs_loop.simps)
qed

text \<open>
  Depth-first search visits each node at most once and only nodes within the depth limit; without a limit
  it visits exactly the nodes that breadth-first search visits.
\<close>

theorem dfs_sound:
  assumes "get_node g start \<noteq> None"
  shows "distinct (dfs g start m flt) \<and> start \<in> set (dfs g start m flt) \<and>
    set (dfs g start m flt) \<subseteq> set (bfs g start m flt) \<and>
    set (dfs g start None flt) = set (bfs g start None flt)"
proof -
  have A: "distinct (dfs g start m flt)" "start \<in> set (dfs g start m flt)" "set (dfs g start m flt) \<subseteq> set (bfs g start m flt)" for m
  proof -
    obtain P v where P: "dfs g start m flt = map fst P" "search_inv (targets flt g) (depth_reached m) start P [] v"
      by (rule dfs_result [OF assms])
    note D = search_inv_done [OF P(2)]
    show "distinct (dfs g start m flt)" "start \<in> set (dfs g start m flt)" using D(1,3) by (simp_all add: P(1))
    show "set (dfs g start m flt) \<subseteq> set (bfs g start m flt)"
      unfolding P(1) bfs_result(2) [OF assms] set_map using D(4) max_reached_stop by fastforce
  qed
  have "set (bfs g start None flt) \<subseteq> set (dfs g start None flt)"
  proof -
    obtain P v where P: "dfs g start None flt = map fst P" "search_inv (targets flt g) (depth_reached None) start P [] v"
      by (rule dfs_result [OF assms])
    note D = search_inv_done [OF P(2)]
    have "x \<in> fst ` set P" if "x \<in> reach_in (targets flt g) start k" for x k
      using that
    proof (induction k arbitrary: x)
      case (Suc k)
      then obtain z where z: "z \<in> fst ` set P" "x \<in> set (targets flt g z)" unfolding reach_in_Suc by blast
      then obtain d where "(z, d) \<in> set P" by auto
      then show ?case using D(5) [of z d] z(2) by (auto simp: depth_reached_def)
    qed (use D(3) in simp)
    then show ?thesis by (auto simp: P(1) bfs_result(2) [OF assms])
  qed
  with A show ?thesis by blast
qed

theorem dfs_sound_witness: "set (dfs line_graph ''a'' None None) = set (bfs line_graph ''a'' None None)"
proof -
  have "get_node line_graph ''a'' \<noteq> None" by (simp only: line_facts(1)) simp
  then show ?thesis using dfs_sound by blast
qed

text \<open>A node first met on a long path is not expanded again when a short path reaches it.\<close>

definition detour :: graph where
  "detour = network [''s'', ''a'', ''b'', ''x'', ''y'', ''z'']
     [(''1'', ''s'', ''a''), (''2'', ''s'', ''b''), (''3'', ''b'', ''x''), (''4'', ''x'', ''y''), (''5'', ''a'', ''y''), (''6'', ''y'', ''z'')]"

lemma detour_facts: "get_node detour n \<noteq> None \<longleftrightarrow> n \<in> {''s'', ''a'', ''b'', ''x'', ''y'', ''z''}"
  "map e_target (outgoing_edges detour ''s'') = [''a'', ''b'']" "map e_target (outgoing_edges detour ''a'') = [''y'']"
  "map e_target (outgoing_edges detour ''b'') = [''x'']" "map e_target (outgoing_edges detour ''x'') = [''y'']"
  "map e_target (outgoing_edges detour ''y'') = [''z'']" "map e_target (outgoing_edges detour ''z'') = []"
  using network_edges [of "[''s'', ''a'', ''b'', ''x'', ''y'', ''z'']" "[(''1'', ''s'', ''a''), (''2'', ''s'', ''b''),
    (''3'', ''b'', ''x''), (''4'', ''x'', ''y''), (''5'', ''a'', ''y''), (''6'', ''y'', ''z'')]"]
  by (auto simp: detour_def)

lemma no_filter: "filter (edge_passes None) es = es"
  by (simp add: edge_passes_def)

text \<open>
  With a depth limit depth-first search is incomplete: there is a reachable graph with a node three hops
  from the start that \<^verbatim>\<open>dfs\<close> with the limit three does not return, while \<^verbatim>\<open>bfs\<close> does.
\<close>

theorem dfs_depth_limit_misses:
  "\<exists>E g start x. graph_run E g \<and> iter_ok E \<and> x \<in> set (bfs g start (Some 3) None) \<and> x \<notin> set (dfs g start (Some 3) None)"
proof (intro exI conjI)
  show "graph_run (tiny_env id) detour" "iter_ok (tiny_env id)" by (simp_all add: detour_def network_run tiny_iter_ok)
  have live: "get_node detour ''s'' \<noteq> None" by (simp only: detour_facts(1)) simp
  have "dfs detour ''s'' (Some 3) None = [''s'', ''b'', ''x'', ''y'', ''a'']"
    using live by (simp add: dfs_def depth_reached_def push_targets_discover no_filter detour_facts(2-) Let_def)
  then show "''z'' \<notin> set (dfs detour ''s'' (Some 3) None)" by simp
  have step: "y \<in> reach_in (targets None detour) ''s'' (Suc k)"
    if "x \<in> reach_in (targets None detour) ''s'' k" "y \<in> set (map e_target (outgoing_edges detour x))" for x y k
    using that unfolding reach_in_Suc no_filter by blast
  have "''a'' \<in> reach_in (targets None detour) ''s'' (Suc 0)" by (rule step [of "''s''"]) (simp_all only: detour_facts(2-), simp_all)
  then have "''y'' \<in> reach_in (targets None detour) ''s'' (Suc (Suc 0))" by (rule step) (simp only: detour_facts(2-), simp)
  then have "''z'' \<in> reach_in (targets None detour) ''s'' (Suc (Suc (Suc 0)))" by (rule step) (simp only: detour_facts(2-), simp)
  then show "''z'' \<in> set (bfs detour ''s'' (Some 3) None)"
    unfolding bfs_result(2) [OF live] by (auto simp: max_reached_def numeral_3_eq_3)
qed

end
