(* ===== verification/Silk_Path.thy ===== *)
theory Silk_Path
  imports Silk_Engine
begin

text \<open>
  The shortest path search of \<^verbatim>\<open>src/engine.rs\<close>: a breadth-first search with parent pointers that stops at the
  goal and walks back. The outer \<open>None\<close> is a walk that never ends; it is proved not to happen.
\<close>

section \<open>Shortest path\<close>

fun path_scan :: "string \<Rightarrow> string \<Rightarrow> edge list \<Rightarrow> string list \<Rightarrow> (string, string) hash_map \<Rightarrow> string list \<Rightarrow>
    (string, string) hash_map + string list \<times> (string, string) hash_map \<times> string list" where
  "path_scan goal current [] visited parent queue = Inr (visited, parent, queue)"
| "path_scan goal current (e # es) visited parent queue =
     (if e_target e \<notin> set visited then
        (let visited' = visited @ [e_target e]; parent' = hm_insert (e_target e) current parent in
         if e_target e = goal then Inl parent'
         else path_scan goal current es visited' parent' (queue @ [e_target e]))
      else path_scan goal current es visited parent queue)"

text \<open>The walk back along the parents; a cycle among them would never end.\<close>

partial_function (option) rebuild_path :: "(string, string) hash_map \<Rightarrow> string \<Rightarrow> string list \<Rightarrow> string list option" where
  "rebuild_path parent cur path =
     (case hm_get parent cur of None \<Rightarrow> Some (rev path) | Some p \<Rightarrow> rebuild_path parent p (path @ [p]))"

lemma path_scan_found:
  assumes "goal \<notin> set v" "goal \<in> set (map e_target es)"
  shows "\<exists>parent'. path_scan goal cur es v parent q = Inl parent' \<and> hm_get parent' goal = Some cur \<and>
    (\<forall>x \<in> set v. hm_get parent' x = hm_get parent x)"
  using assms
proof (induction es arbitrary: v parent q)
  case (Cons e es)
  show ?case
  proof (cases "e_target e \<in> set v \<or> e_target e = goal")
    case False
    with Cons.prems Cons.IH [of "v @ [e_target e]" "hm_insert (e_target e) cur parent" "q @ [e_target e]"]
    obtain parent' where "path_scan goal cur es (v @ [e_target e]) (hm_insert (e_target e) cur parent) (q @ [e_target e]) = Inl parent'"
      "hm_get parent' goal = Some cur" "\<forall>x \<in> set v. hm_get parent' x = hm_get (hm_insert (e_target e) cur parent) x" by auto
    with False show ?thesis by (auto simp: Let_def update_conv')
  qed (use Cons in \<open>auto simp: Let_def update_conv'\<close>)
qed simp

lemma path_scan_not_found:
  assumes "goal \<notin> set (discover (map e_target es) v)"
  shows "\<exists>parent'. path_scan goal cur es v parent q =
      Inr (v @ discover (map e_target es) v, parent', q @ discover (map e_target es) v) \<and>
    (\<forall>x. hm_get parent' x = (if x \<in> set (discover (map e_target es) v) then Some cur else hm_get parent x))"
  using assms
proof (induction es arbitrary: v parent q)
  case (Cons e es)
  show ?case
  proof (cases "e_target e \<in> set v")
    case False
    with Cons.prems have g: "e_target e \<noteq> goal" "goal \<notin> set (discover (map e_target es) (v @ [e_target e]))" by auto
    from Cons.IH [OF this(2), of "hm_insert (e_target e) cur parent" "q @ [e_target e]"] obtain parent' where
      "path_scan goal cur es (v @ [e_target e]) (hm_insert (e_target e) cur parent) (q @ [e_target e]) =
        Inr ((v @ [e_target e]) @ discover (map e_target es) (v @ [e_target e]), parent',
          (q @ [e_target e]) @ discover (map e_target es) (v @ [e_target e]))"
      "\<forall>x. hm_get parent' x = (if x \<in> set (discover (map e_target es) (v @ [e_target e])) then Some cur
          else hm_get (hm_insert (e_target e) cur parent) x)" by blast
    with False g show ?thesis by (auto simp: Let_def update_conv')
  qed (use Cons in auto)
qed simp

lemma path_scan_measure:
  assumes "path_scan goal cur (outgoing_edges g n) v parent q = Inr (v', parent', q')"
  shows "unvisited g v' + length q' = unvisited g v + length q"
proof -
  have "goal \<notin> set (map e_target (outgoing_edges g n)) \<or> goal \<in> set v"
    using assms path_scan_found [of goal v "outgoing_edges g n" cur parent q] by auto
  then have "goal \<notin> set (discover (map e_target (outgoing_edges g n)) v)" by auto
  then have "v' = v @ discover (neighbors g n) v" "q' = q @ discover (neighbors g n) v"
    using assms path_scan_not_found [of goal "outgoing_edges g n" v cur parent q] by (auto simp: neighbors_def)
  then show ?thesis
    using discover_shrinks [of "hm_keys (gr_nodes g)" "neighbors g n" v] targets_universe [of None g n]
    by (simp add: unvisited_def targets_all)
qed

function path_loop :: "graph \<Rightarrow> string \<Rightarrow> string list \<Rightarrow> (string, string) hash_map \<Rightarrow> string list \<Rightarrow> string list option option" where
  "path_loop g goal visited parent [] = Some None"
| "path_loop g goal visited parent (current # queue) =
     (case path_scan goal current (outgoing_edges g current) visited parent queue of
        Inl parent' \<Rightarrow> map_option Some (rebuild_path parent' goal [goal])
      | Inr (visited', parent', queue') \<Rightarrow> path_loop g goal visited' parent' queue')"
  by pat_completeness auto

termination path_loop
  by (relation "measure (\<lambda>(g, t, v, p, q). unvisited g v + length q)") (auto dest!: path_scan_measure)

definition shortest_path :: "graph \<Rightarrow> string \<Rightarrow> string \<Rightarrow> string list option option" where
  "shortest_path g start goal =
     (if get_node g start = None \<or> get_node g goal = None then Some None
      else if start = goal then Some (Some [start])
      else path_loop g goal [start] [] [start])"

text \<open>Every discovered node has a parent one level up, and the start has none.\<close>

definition parents_ok :: "('a \<Rightarrow> 'a list) \<Rightarrow> 'a \<Rightarrow> ('a, 'a) hash_map \<Rightarrow> ('a \<times> nat) list \<Rightarrow> bool" where
  "parents_ok succs s parent L \<longleftrightarrow> hm_get parent s = None \<and>
     (\<forall>(x, d) \<in> set L. case d of 0 \<Rightarrow> x = s
        | Suc k \<Rightarrow> \<exists>p. hm_get parent x = Some p \<and> (p, k) \<in> set L \<and> x \<in> set (succs p))"

lemma parents_okD:
  assumes "parents_ok succs s parent L"
  shows "hm_get parent s = None" and "(y, 0) \<in> set L \<Longrightarrow> y = s"
    and "(y, Suc k) \<in> set L \<Longrightarrow> \<exists>p. hm_get parent y = Some p \<and> (p, k) \<in> set L \<and> y \<in> set (succs p)"
proof -
  show "hm_get parent s = None" using assms by (simp add: parents_ok_def)
  have "case d of 0 \<Rightarrow> x = s | Suc k \<Rightarrow> \<exists>p. hm_get parent x = Some p \<and> (p, k) \<in> set L \<and> x \<in> set (succs p)"
    if "(x, d) \<in> set L" for x d using assms that unfolding parents_ok_def by blast
  from this [of y 0] this [of y "Suc k"] show "(y, 0) \<in> set L \<Longrightarrow> y = s"
    "(y, Suc k) \<in> set L \<Longrightarrow> \<exists>p. hm_get parent y = Some p \<and> (p, k) \<in> set L \<and> y \<in> set (succs p)" by simp_all
qed

lemma parents_okI:
  assumes "hm_get parent s = None" and "\<And>y. (y, 0) \<in> set L \<Longrightarrow> y = s"
    and "\<And>y k. (y, Suc k) \<in> set L \<Longrightarrow> \<exists>p. hm_get parent y = Some p \<and> (p, k) \<in> set L \<and> y \<in> set (succs p)"
  shows "parents_ok succs s parent L"
  unfolding parents_ok_def using assms by (auto split: nat.splits)

definition walk :: "('a \<Rightarrow> 'a list) \<Rightarrow> 'a list \<Rightarrow> bool" where
  "walk succs = successively (\<lambda>a b. b \<in> set (succs a))"

lemma rebuild_path_walk:
  assumes "parents_ok succs s parent L"
  shows "(x, d) \<in> set L \<Longrightarrow> \<exists>ps. rebuild_path parent x acc = Some (ps @ rev acc) \<and> length ps = d \<and>
    walk succs (ps @ [x]) \<and> hd (ps @ [x]) = s"
proof (induction d arbitrary: x acc)
  case 0
  then have "x = s" "hm_get parent s = None" using assms by (auto simp: parents_ok_def)
  then show ?case by (simp add: rebuild_path.simps [of parent s] walk_def)
next
  case (Suc d)
  then obtain p where p: "hm_get parent x = Some p" "(p, d) \<in> set L" "x \<in> set (succs p)"
    using parents_okD(3) [OF assms] by blast
  obtain ps where "rebuild_path parent p (acc @ [p]) = Some (ps @ rev (acc @ [p]))" "length ps = d" "walk succs (ps @ [p])"
    "hd (ps @ [p]) = s" using Suc.IH [OF p(2)] by blast
  with p show ?case
    by (intro exI [of _ "ps @ [p]"]) (auto simp: rebuild_path.simps [of parent x] walk_def successively_append_iff hd_append)
qed

definition shortest :: "('a \<Rightarrow> 'a list) \<Rightarrow> 'a \<Rightarrow> 'a \<Rightarrow> 'a list \<Rightarrow> bool" where
  "shortest succs s t path \<longleftrightarrow> path \<noteq> [] \<and> hd path = s \<and> last path = t \<and> walk succs path \<and>
     length path = Suc (distance succs s t)"

lemma path_step_found:
  assumes level: "level_inv succs (\<lambda>_. False) P ((x, d) # q) v" and s: "(s, 0) \<in> set (P @ (x, d) # q)"
    and sound: "search_inv succs (\<lambda>_. False) s P ((x, d) # q) v"
    and par: "parents_ok succs s parent (P @ (x, d) # q)"
    and t: "t \<in> set (succs x)" "t \<notin> set v"
    and new: "hm_get parent' t = Some x" "\<forall>y \<in> set v. hm_get parent' y = hm_get parent y"
  shows "\<exists>path. rebuild_path parent' t [t] = Some path \<and> shortest succs s t path \<and> t \<in> reach_in succs s (Suc d)"
proof -
  let ?L = "P @ (x, d) # q"
  have v: "v = map fst ?L" using level by (simp add: level_inv_def)
  have same: "hm_get parent' y = hm_get parent y" if "(y, e) \<in> set ?L" for y e
  proof -
    have "fst (y, e) \<in> fst ` set ?L" using that by (rule imageI)
    then show ?thesis using new(2) by (simp only: v set_map fst_conv)
  qed
  have "parents_ok succs s parent' ?L"
    by (rule parents_okI) (use parents_okD [OF par] same [OF s] same in \<open>metis+\<close>)
  then obtain ps where ps: "rebuild_path parent' x [t, x] = Some (ps @ rev [t, x])" "length ps = d" "walk succs (ps @ [x])"
    "hd (ps @ [x]) = s" using rebuild_path_walk [of succs s parent' ?L x d "[t, x]"] by auto
  have x: "x \<in> reach_in succs s d" using sound by (simp add: search_inv_def)
  have "distance succs s t = Suc d"
    unfolding distance_def
  proof (rule Least_equality)
    show r: "t \<in> reach_in succs s (Suc d)" using x t(1) by (auto simp: reach_in_Suc)
    fix k assume k: "t \<in> reach_in succs s k"
    show "Suc d \<le> k"
    proof (rule ccontr)
      assume "\<not> Suc d \<le> k"
      then obtain e where "(t, e) \<in> set ?L" using level_inv_front [OF level s k] by auto
      then show False using t(2) v by force
    qed
  qed
  moreover have "rebuild_path parent' t [t] = Some ((ps @ [x]) @ [t])"
    using ps(1) new(1) by (simp add: rebuild_path.simps [of parent' t])
  moreover have "walk succs ((ps @ [x]) @ [t])" using ps(3) t(1) by (auto simp: walk_def successively_append_iff)
  moreover have "hd ((ps @ [x]) @ [t]) = s" using ps(4) by (simp add: hd_append split: if_splits)
  ultimately show ?thesis using ps(2) x t(1) by (auto simp: shortest_def reach_in_Suc)
qed

lemma path_step_next:
  assumes "level_inv succs (\<lambda>_. False) P ((x, d) # q) v" "parents_ok succs s parent (P @ (x, d) # q)"
    and s: "s \<in> set v"
    and new: "\<forall>y. hm_get parent' y = (if y \<in> set (discover (succs x) v) then Some x else hm_get parent y)"
  shows "parents_ok succs s parent' ((P @ [(x, d)]) @ q @ at_depth (Suc d) (discover (succs x) v))"
proof -
  let ?L = "P @ (x, d) # q" and ?L' = "(P @ [(x, d)]) @ q @ at_depth (Suc d) (discover (succs x) v)"
  have v: "v = map fst ?L" using assms(1) by (simp add: level_inv_def)
  note par = parents_okD [OF assms(2)]
  have old: "hm_get parent' y = hm_get parent y" if "(y, e) \<in> set ?L" for y e
    using that new v by force
  have "\<exists>p. hm_get parent' y = Some p \<and> (p, k) \<in> set ?L' \<and> y \<in> set (succs p)" if "(y, Suc k) \<in> set ?L'" for y k
  proof (cases "(y, Suc k) \<in> set ?L")
    case True
    then show ?thesis using par(3) [OF True] old [OF True] by auto
  next
    case False
    then have "k = d" "y \<in> set (discover (succs x) v)" using that by auto
    then show ?thesis using new by auto
  qed
  moreover have "y = s" if "(y, 0) \<in> set ?L'" for y using that par(2) [of y] by auto
  moreover have "hm_get parent' s = None" using new s par(1) by auto
  ultimately show ?thesis by (intro parents_okI)
qed

lemma path_loop_correct:
  assumes "level_inv (neighbors g) (\<lambda>_. False) P Q v" "search_inv (neighbors g) (\<lambda>_. False) s P Q v" "(s, 0) \<in> set (P @ Q)"
    "parents_ok (neighbors g) s parent (P @ Q)" "t \<notin> set v"
  shows "if \<exists>k. t \<in> reach_in (neighbors g) s k then \<exists>path. path_loop g t v parent (map fst Q) = Some (Some path) \<and> shortest (neighbors g) s t path
    else path_loop g t v parent (map fst Q) = Some None"
  using assms
proof (induction "unvisited g v + length Q" arbitrary: v P Q parent rule: less_induct)
  case less
  show ?case
  proof (cases Q)
    case Nil
    have "t \<notin> reach_in (neighbors g) s k" for k
      using level_inv_end [of "neighbors g" "\<lambda>_. False" P v s t k] less.prems(1,3,5) Nil by (force simp: level_inv_def)
    with Nil show ?thesis by simp
  next
    case (Cons xd q)
    obtain x d where xd: "xd = (x, d)" by fastforce
    let ?new = "discover (neighbors g x) v"
    note L = less.prems [unfolded Cons xd]
    show ?thesis
    proof (cases "t \<in> set (neighbors g x)")
      case True
      then obtain parent' where p: "path_scan t x (outgoing_edges g x) v parent (map fst q) = Inl parent'"
        "hm_get parent' t = Some x" "\<forall>y \<in> set v. hm_get parent' y = hm_get parent y"
        using path_scan_found [OF L(5), of "outgoing_edges g x" x parent "map fst q"] by (auto simp: neighbors_def)
      obtain path where "rebuild_path parent' t [t] = Some path" "shortest (neighbors g) s t path" "t \<in> reach_in (neighbors g) s (Suc d)"
        using path_step_found [OF L(1,3,2,4) True L(5) p(2,3)] by blast
      then show ?thesis using p(1) Cons xd by auto
    next
      case False
      then obtain parent' where p: "path_scan t x (outgoing_edges g x) v parent (map fst q) = Inr (v @ ?new, parent', map fst q @ ?new)"
        "\<forall>y. hm_get parent' y = (if y \<in> set ?new then Some x else hm_get parent y)"
        using path_scan_not_found [of t "outgoing_edges g x" v x parent "map fst q"] by (auto simp: neighbors_def simp del: set_discover) (auto simp: neighbors_def)
      have f: "found (neighbors g) (\<lambda>_. False) v x d = ?new" by (simp add: found_def)
      have m: "unvisited g (v @ ?new) + length (q @ at_depth (Suc d) ?new) < unvisited g v + length Q"
        using path_scan_measure [OF p(1)] Cons by simp
      have s: "s \<in> set v" using L(2) by (simp add: search_inv_def)
      have 1: "level_inv (neighbors g) (\<lambda>_. False) (P @ [(x, d)]) (q @ at_depth (Suc d) ?new) (v @ ?new)"
        using level_inv_step [OF L(1)] by (simp add: f)
      have 2: "search_inv (neighbors g) (\<lambda>_. False) s (P @ [(x, d)]) (q @ at_depth (Suc d) ?new) (v @ ?new)"
        using search_inv_step [OF L(2), of x d q "q @ at_depth (Suc d) ?new"] by (simp add: f)
      have 3: "(s, 0) \<in> set ((P @ [(x, d)]) @ q @ at_depth (Suc d) ?new)" using L(3) by auto
      have 4: "t \<notin> set (v @ ?new)" using L(5) False by simp
      note IH = less.hyps [OF m 1 2 3 path_step_next [OF L(1,4) s p(2)] 4]
      have "path_loop g t v parent (map fst Q) = path_loop g t (v @ ?new) parent' (map fst (q @ at_depth (Suc d) ?new))"
        using p(1) by (simp add: Cons xd o_def)
      with IH show ?thesis by (simp only:)
    qed
  qed
qed

text \<open>
  C32. Shortest paths. The search always ends. Between live nodes it returns a path exactly when one exists,
  and then one that starts at the first node, ends at the second, follows edges of the graph and has the
  least possible length; if an endpoint is not live it returns no path.
\<close>

theorem shortest_path_optimal:
  "(get_node g s = None \<or> get_node g t = None \<longrightarrow> shortest_path g s t = Some None) \<and>
   (get_node g s \<noteq> None \<and> get_node g t \<noteq> None \<longrightarrow>
      (if \<exists>k. t \<in> reach_in (neighbors g) s k
       then \<exists>path. shortest_path g s t = Some (Some path) \<and> path \<noteq> [] \<and> hd path = s \<and> last path = t \<and>
         successively (\<lambda>a b. b \<in> set (neighbors g a)) path \<and> length path = Suc (distance (neighbors g) s t)
       else shortest_path g s t = Some None))"
proof (intro conjI impI)
  assume live: "get_node g s \<noteq> None \<and> get_node g t \<noteq> None"
  show "if \<exists>k. t \<in> reach_in (neighbors g) s k
       then \<exists>path. shortest_path g s t = Some (Some path) \<and> path \<noteq> [] \<and> hd path = s \<and> last path = t \<and>
         successively (\<lambda>a b. b \<in> set (neighbors g a)) path \<and> length path = Suc (distance (neighbors g) s t)
       else shortest_path g s t = Some None"
  proof (cases "s = t")
    case True
    have "distance (neighbors g) s s = 0" unfolding distance_def by (rule Least_equality) simp_all
    moreover have "\<exists>k. s \<in> reach_in (neighbors g) s k" by (rule exI [of _ 0]) simp
    ultimately show ?thesis using live True by (auto simp: shortest_path_def)
  next
    case False
    have "parents_ok (neighbors g) s [] ([] @ [(s, 0)])" by (simp add: parents_ok_def)
    moreover have "shortest_path g s t = path_loop g t [s] [] (map fst [(s, 0)])"
      using False live by (auto simp: shortest_path_def simp del: path_loop.simps)
    ultimately show ?thesis
      using path_loop_correct [OF level_inv_start search_inv_start, of s g "[]" t] False
      unfolding shortest_def walk_def by (cases "\<exists>k. t \<in> reach_in (neighbors g) s k") (simp_all del: path_loop.simps)
  qed
qed (auto simp: shortest_path_def)

theorem shortest_path_optimal_witness:
  "\<exists>path. shortest_path line_graph ''a'' ''b'' = Some (Some path) \<and> hd path = ''a'' \<and> last path = ''b''"
proof -
  have "get_node line_graph ''a'' \<noteq> None" "get_node line_graph ''b'' \<noteq> None" by (simp_all only: line_facts(1)) simp_all
  moreover have "''b'' \<in> reach_in (neighbors line_graph) ''a'' 1" using line_facts(2) by (auto simp: reach_in_Suc targets_all)
  ultimately show ?thesis using shortest_path_optimal [of line_graph "''a''" "''b''"] by metis
qed

end
