(* ===== verification/Silk_Pattern.thy ===== *)
theory Silk_Pattern
  imports Silk_Path
begin

text \<open>
  Pattern matching over node types, \<^verbatim>\<open>src/engine.rs\<close>: chains extended type by type with an early return at a
  limit, compared with the unlimited reference enumeration.
\<close>

section \<open>Pattern matching\<close>

text \<open>The three nested loops; the left side of the sum is the early return when the limit is reached.\<close>

fun match_edges :: "graph \<Rightarrow> string \<Rightarrow> string list \<Rightarrow> nat \<Rightarrow> nat \<Rightarrow> edge list \<Rightarrow> string list list \<Rightarrow>
    string list list + string list list" where
  "match_edges g next_type chain max_results n_results [] extended = Inr extended"
| "match_edges g next_type chain max_results n_results (e # es) extended =
     (case get_node g (e_target e) of
        None \<Rightarrow> match_edges g next_type chain max_results n_results es extended
      | Some target_node \<Rightarrow>
        if n_type target_node = next_type \<and> e_target e \<notin> set chain then
          (let extended' = extended @ [chain @ [e_target e]] in
           if n_results + length extended' \<ge> max_results then Inl extended'
           else match_edges g next_type chain max_results n_results es extended')
        else match_edges g next_type chain max_results n_results es extended)"

fun match_chains :: "graph \<Rightarrow> string \<Rightarrow> nat \<Rightarrow> nat \<Rightarrow> string list list \<Rightarrow> string list list \<Rightarrow>
    string list list + string list list" where
  "match_chains g next_type max_results n_results [] extended = Inr extended"
| "match_chains g next_type max_results n_results (chain # chs) extended =
     (case match_edges g next_type chain max_results n_results (outgoing_edges g (last chain)) extended of
        Inl extended' \<Rightarrow> Inl extended'
      | Inr extended' \<Rightarrow> match_chains g next_type max_results n_results chs extended')"

fun match_types :: "graph \<Rightarrow> nat \<Rightarrow> nat \<Rightarrow> string list \<Rightarrow> string list list \<Rightarrow> string list list + string list list" where
  "match_types g max_results n_results [] chs = Inr chs"
| "match_types g max_results n_results (next_type # types) chs =
     (case match_chains g next_type max_results n_results chs [] of
        Inl extended \<Rightarrow> Inl extended
      | Inr extended \<Rightarrow> match_types g max_results n_results types extended)"

fun match_starts :: "graph \<Rightarrow> string list \<Rightarrow> nat \<Rightarrow> node list \<Rightarrow> string list list \<Rightarrow> string list list" where
  "match_starts g types max_results [] results = results"
| "match_starts g types max_results (start # starts) results =
     (case match_types g max_results (length results) types [[n_id start]] of
        Inl extended \<Rightarrow> take max_results (results @ extended)
      | Inr chs \<Rightarrow>
        (let results' = results @ chs in
         if length results' \<ge> max_results then take max_results results'
         else match_starts g types max_results starts results'))"

definition pattern_match :: "graph \<Rightarrow> string list \<Rightarrow> nat \<Rightarrow> string list list" where
  "pattern_match g type_sequence max_results =
     (case type_sequence of [] \<Rightarrow> []
      | first # types \<Rightarrow> match_starts g types max_results (nodes_by_type g first) [])"

text \<open>The reference: every extension of every chain, without a limit.\<close>

definition fits :: "graph \<Rightarrow> string \<Rightarrow> string list \<Rightarrow> string \<Rightarrow> bool" where
  "fits g ty chain t \<longleftrightarrow> (\<exists>n. get_node g t = Some n \<and> n_type n = ty) \<and> t \<notin> set chain"

definition extensions :: "graph \<Rightarrow> string \<Rightarrow> string list list \<Rightarrow> string list list" where
  "extensions g ty chs =
     concat (map (\<lambda>chain. map (\<lambda>t. chain @ [t]) (filter (fits g ty chain) (neighbors g (last chain)))) chs)"

definition all_chains :: "graph \<Rightarrow> string list \<Rightarrow> node \<Rightarrow> string list list" where
  "all_chains g types start = fold (extensions g) types [[n_id start]]"

lemma match_edges_cases:
  "(\<exists>ext'. match_edges g ty chain mx n es ext = Inl ext' \<and> mx \<le> n + length ext') \<or>
   match_edges g ty chain mx n es ext = Inr (ext @ map (\<lambda>t. chain @ [t]) (filter (fits g ty chain) (map e_target es)))"
proof (induction es arbitrary: ext)
  case (Cons e es)
  have f: "fits g ty chain (e_target e) \<longleftrightarrow> (case get_node g (e_target e) of None \<Rightarrow> False | Some n \<Rightarrow> n_type n = ty \<and> e_target e \<notin> set chain)"
    by (auto simp: fits_def split: option.splits)
  show ?case
  proof (cases "fits g ty chain (e_target e)")
    case True
    then show ?thesis using Cons [of "ext @ [chain @ [e_target e]]"] by (auto simp: f Let_def split: option.splits)
  next
    case False
    then show ?thesis using Cons [of ext] by (auto simp: f split: option.splits)
  qed
qed simp

lemma match_chains_cases:
  "(\<exists>ext'. match_chains g ty mx n chs ext = Inl ext' \<and> mx \<le> n + length ext') \<or>
   match_chains g ty mx n chs ext = Inr (ext @ extensions g ty chs)"
proof (induction chs arbitrary: ext)
  case (Cons c cs)
  then show ?case
    using match_edges_cases [of g ty c mx n "outgoing_edges g (last c)" ext]
    by (fastforce simp: extensions_def neighbors_def)
qed (simp add: extensions_def)

lemma match_types_cases:
  "(\<exists>ext'. match_types g mx n types chs = Inl ext' \<and> mx \<le> n + length ext') \<or>
   match_types g mx n types chs = Inr (fold (extensions g) types chs)"
proof (induction types arbitrary: chs)
  case (Cons ty tys)
  then show ?case using match_chains_cases [of g ty mx n chs "[]"] by fastforce
qed simp

lemma match_starts_cases:
  assumes "length results < mx"
  shows "length (match_starts g types mx starts results) = mx \<or>
    match_starts g types mx starts results = results @ concat (map (all_chains g types) starts)"
  using assms
proof (induction starts arbitrary: results)
  case (Cons s ss)
  from match_types_cases [of g mx "length results" types "[[n_id s]]"] show ?case
  proof
    assume "\<exists>ext'. match_types g mx (length results) types [[n_id s]] = Inl ext' \<and> mx \<le> length results + length ext'"
    then show ?thesis by auto
  next
    assume r: "match_types g mx (length results) types [[n_id s]] = Inr (fold (extensions g) types [[n_id s]])"
    show ?thesis
    proof (cases "mx \<le> length (results @ all_chains g types s)")
      case False
      then show ?thesis using Cons.IH [of "results @ all_chains g types s"] r by (auto simp: all_chains_def Let_def)
    qed (use r in \<open>auto simp: all_chains_def Let_def\<close>)
  qed
qed simp

text \<open>What a full chain is: a simple path whose nodes after the first have the given types.\<close>

definition typed_chain :: "graph \<Rightarrow> string list \<Rightarrow> string \<Rightarrow> string list \<Rightarrow> bool" where
  "typed_chain g types start chain \<longleftrightarrow> length chain = Suc (length types) \<and> hd chain = start \<and> distinct chain \<and>
     walk (neighbors g) chain \<and>
     (\<forall>i < length types. \<exists>n. get_node g (chain ! Suc i) = Some n \<and> n_type n = types ! i)"

lemma extensions_typed:
  "chain' \<in> set (extensions g ty chs) \<longleftrightarrow>
     (\<exists>chain t. chain \<in> set chs \<and> chain' = chain @ [t] \<and> t \<in> set (neighbors g (last chain)) \<and> fits g ty chain t)"
  by (auto simp: extensions_def)

lemma typed_chain_snoc:
  "typed_chain g (types @ [ty]) start chain' \<longleftrightarrow>
     (\<exists>chain t. typed_chain g types start chain \<and> chain' = chain @ [t] \<and> t \<in> set (neighbors g (last chain)) \<and> fits g ty chain t)"
proof
  assume l: "typed_chain g (types @ [ty]) start chain'"
  then obtain chain t where c: "chain' = chain @ [t]" "length chain = Suc (length types)"
    unfolding typed_chain_def by (metis length_append_singleton length_0_conv nat.distinct(1) rev_exhaust nat.inject)
  then have ne: "chain \<noteq> []" by auto
  have ty: "\<exists>n. get_node g (chain' ! Suc i) = Some n \<and> n_type n = (types @ [ty]) ! i" if "i < Suc (length types)" for i
    using l that by (simp add: typed_chain_def)
  have "fits g ty chain t" using ty [of "length types"] l c by (simp add: fits_def typed_chain_def nth_append)
  moreover have "\<exists>n. get_node g (chain ! Suc i) = Some n \<and> n_type n = types ! i" if "i < length types" for i
    using ty [of i] that c by (simp add: nth_append)
  ultimately show "\<exists>chain t. typed_chain g types start chain \<and> chain' = chain @ [t] \<and> t \<in> set (neighbors g (last chain)) \<and> fits g ty chain t"
    using l c ne by (intro exI [of _ chain] exI [of _ t]) (auto simp: typed_chain_def walk_def successively_append_iff)
next
  assume "\<exists>chain t. typed_chain g types start chain \<and> chain' = chain @ [t] \<and> t \<in> set (neighbors g (last chain)) \<and> fits g ty chain t"
  then obtain chain t where c: "typed_chain g types start chain" "chain' = chain @ [t]" "t \<in> set (neighbors g (last chain))" "fits g ty chain t"
    by blast
  then have "chain \<noteq> []" by (auto simp: typed_chain_def)
  moreover have "\<exists>n. get_node g (chain' ! Suc i) = Some n \<and> n_type n = (types @ [ty]) ! i" if "i < Suc (length types)" for i
    using that c by (cases "i = length types") (auto simp: typed_chain_def fits_def nth_append less_Suc_eq)
  ultimately show "typed_chain g (types @ [ty]) start chain'"
    using c by (auto simp: typed_chain_def walk_def successively_append_iff fits_def)
qed

lemma all_chains_typed: "chain \<in> set (all_chains g types start) \<longleftrightarrow> typed_chain g types (n_id start) chain"
proof (induction types arbitrary: chain rule: rev_induct)
  case Nil
  show ?case by (auto simp: all_chains_def typed_chain_def walk_def length_Suc_conv)
next
  case (snoc ty tys)
  show ?case using snoc by (simp add: all_chains_def extensions_typed typed_chain_snoc)
qed

text \<open>
  C34. Pattern matching never returns more chs than the limit, and whenever it returns fewer, the answer is
  complete and exact: it consists of the simple paths whose first node is a live node of the first type (or
  a subtype) and whose further nodes have the further types.
\<close>

theorem pattern_match_exact:
  "length (pattern_match g (ty # types) mx) \<le> mx \<and>
   (length (pattern_match g (ty # types) mx) < mx \<longrightarrow>
      pattern_match g (ty # types) mx = concat (map (all_chains g types) (nodes_by_type g ty)) \<and>
      set (pattern_match g (ty # types) mx) =
        {chain. \<exists>start \<in> set (nodes_by_type g ty). typed_chain g types (n_id start) chain})"
proof -
  have le: "length (match_starts g types mx starts results) \<le> mx" if "length results \<le> mx" for starts results
    using that by (induction starts arbitrary: results) (auto simp: Let_def split: sum.splits)
  have "pattern_match g (ty # types) mx = concat (map (all_chains g types) (nodes_by_type g ty))"
    if "length (pattern_match g (ty # types) mx) < mx"
    using match_starts_cases [of "[]" mx g types "nodes_by_type g ty"] that by (simp add: pattern_match_def)
  then show ?thesis using le [of "[]"] by (auto simp: all_chains_typed pattern_match_def)
qed

lemma line_fits: "fits line_graph ''n'' chain t \<longleftrightarrow> t \<in> {''a'', ''b'', ''c''} \<and> t \<notin> set chain"
  using line_facts(1) [of t] line_node_type [of t] unfolding fits_def by blast

lemma line_chains:
  "map (all_chains line_graph [''n'']) (nodes_by_type line_graph ''n'') = [[[''a'', ''b'']], [[''b'', ''c'']], []]"
proof -
  have "map (all_chains line_graph [''n'']) (nodes_by_type line_graph ''n'') =
      map (\<lambda>i. extensions line_graph ''n'' [[i]]) (map n_id (nodes_by_type line_graph ''n''))"
    by (simp add: all_chains_def)
  also have "\<dots> = [[[''a'', ''b'']], [[''b'', ''c'']], []]"
    using line_facts(2,5,6) by (simp add: line_facts(7) extensions_def line_fits targets_all)
  finally show ?thesis .
qed

text \<open>
  At the limit the answer can contain chains that do not match: there is a reachable graph and a sequence of
  three types for which a limit of one yields a chain of two nodes.
\<close>

theorem pattern_match_truncates_chains:
  "\<exists>E g types chain. graph_run E g \<and> iter_ok E \<and> chain \<in> set (pattern_match g types 1) \<and> length chain < length types"
proof (intro exI conjI)
  show "graph_run (tiny_env id) line_graph" "iter_ok (tiny_env id)" by (simp_all add: line_facts(4) tiny_iter_ok)
  obtain e where e: "outgoing_edges line_graph ''a'' = [e]" "e_target e = ''b''"
    using line_facts(2) by (auto simp: targets_all neighbors_def)
  obtain start rest where s: "nodes_by_type line_graph ''n'' = start # rest" "n_id start = ''a''"
    using line_facts(7) by (cases "nodes_by_type line_graph ''n''") auto
  obtain n where n: "get_node line_graph ''b'' = Some n" "n_type n = ''n''"
    using line_facts(1) [of "''b''"] line_node_type by auto
  show "[''a'', ''b''] \<in> set (pattern_match line_graph [''n'', ''n'', ''n''] 1)"
    using e s n by (simp add: pattern_match_def)
qed simp

theorem pattern_match_exact_witness: "set (pattern_match line_graph [''n'', ''n''] 10) = {[''a'', ''b''], [''b'', ''c'']}"
proof -
  obtain e f where e: "outgoing_edges line_graph ''a'' = [e]" "e_target e = ''b''" "outgoing_edges line_graph ''b'' = [f]" "e_target f = ''c''"
    "outgoing_edges line_graph ''c'' = []"
    using line_facts(2,5,6) by (auto simp: targets_all neighbors_def)
  obtain x y z where s: "nodes_by_type line_graph ''n'' = [x, y, z]" "n_id x = ''a''" "n_id y = ''b''" "n_id z = ''c''"
    using line_facts(7) by auto
  obtain n m where n: "get_node line_graph ''b'' = Some n" "n_type n = ''n''" "get_node line_graph ''c'' = Some m" "n_type m = ''n''"
    using line_facts(1) [of "''b''"] line_facts(1) [of "''c''"] line_node_type by auto
  have "length (pattern_match line_graph [''n'', ''n''] 10) < 10"
    using e s n by (simp add: pattern_match_def)
  then have "pattern_match line_graph [''n'', ''n''] 10 = concat (map (all_chains line_graph [''n'']) (nodes_by_type line_graph ''n''))"
    using pattern_match_exact [of line_graph "''n''" "[''n'']" 10] by blast
  then show ?thesis by (simp add: line_chains)
qed

end
