(* ===== verification/Silk_Order.thy ===== *)
theory Silk_Order
  imports Silk_Path
begin

text \<open>
  Topological sort and cycle detection on the graph, \<^verbatim>\<open>src/engine.rs\<close>: Kahn's algorithm over in-degree
  counters. The outer \<open>None\<close> is a counter below zero; the inner one is a cycle.
\<close>

section \<open>Topological order\<close>

definition live_ids :: "graph \<Rightarrow> string list" where
  "live_ids g = remdups (map n_id (all_nodes g))"

fun count_in_degrees :: "string list \<Rightarrow> edge list \<Rightarrow> (string, nat) hash_map \<Rightarrow> (string, nat) hash_map" where
  "count_in_degrees ids [] in_degree = in_degree"
| "count_in_degrees ids (e # es) in_degree =
     count_in_degrees ids es
       (if e_target e \<in> set ids \<and> e_source e \<in> set ids
        then hm_insert (e_target e) ((case hm_get in_degree (e_target e) of None \<Rightarrow> 0 | Some d \<Rightarrow> d) + 1) in_degree
        else in_degree)"

text \<open>A counter below zero would panic.\<close>

fun relax_targets :: "edge list \<Rightarrow> (string, nat) hash_map \<Rightarrow> string list \<Rightarrow> ((string, nat) hash_map \<times> string list) option" where
  "relax_targets [] in_degree queue = Some (in_degree, queue)"
| "relax_targets (e # es) in_degree queue =
     (case hm_get in_degree (e_target e) of
        None \<Rightarrow> relax_targets es in_degree queue
      | Some 0 \<Rightarrow> None
      | Some (Suc d) \<Rightarrow>
          relax_targets es (hm_insert (e_target e) d in_degree) (if d = 0 then queue @ [e_target e] else queue))"

lemma relax_targets_measure:
  "relax_targets es m q = Some (m', q') \<Longrightarrow> length q' + sum_list (map snd m') \<le> length q + sum_list (map snd m)"
proof (induction es m q rule: relax_targets.induct)
  case (2 e es m q)
  then show ?case using sum_update [of m "e_target e"] by (fastforce split: if_splits option.splits nat.splits)
qed simp

function order_loop :: "graph \<Rightarrow> (string, nat) hash_map \<Rightarrow> string list \<Rightarrow> string list \<Rightarrow> string list option" where
  "order_loop g in_degree [] result = Some result"
| "order_loop g in_degree (node_id # queue) result =
     (case relax_targets (outgoing_edges g node_id) in_degree queue of None \<Rightarrow> None
      | Some (in_degree', queue') \<Rightarrow> order_loop g in_degree' queue' (result @ [node_id]))"
  by pat_completeness auto

termination order_loop
  by (relation "measure (\<lambda>(g, m, q, r). length q + sum_list (map snd m))") (auto dest!: relax_targets_measure)

definition topological_sort :: "graph \<Rightarrow> string list option option" where
  "topological_sort g =
     (let node_ids = live_ids g;
          in_degree = count_in_degrees node_ids (all_edges g) (map (\<lambda>id. (id, 0)) node_ids);
          queue = sort (map fst (filter (\<lambda>(_, deg). deg = 0) in_degree))
      in case order_loop g in_degree queue [] of None \<Rightarrow> None
         | Some result \<Rightarrow> Some (if length result = length node_ids then Some result else None))"

definition has_cycle :: "graph \<Rightarrow> bool option" where
  "has_cycle g = map_option (\<lambda>r. r = None) (topological_sort g)"

section \<open>Counting edges\<close>

definition edge_rel :: "graph \<Rightarrow> (string \<times> string) set" where
  "edge_rel g = {(e_source e, e_target e) | e. e \<in> set (all_edges g)}"

lemma all_nodes_ids: "graph_inv g \<Longrightarrow> set (live_ids g) = {i. get_node g i \<noteq> None}"
proof -
  assume inv: "graph_inv g"
  have "n \<in> set (all_nodes g) \<longleftrightarrow> get_node g (n_id n) = Some n" for n
    using set_values [of "gr_nodes g"] inv graph_invD(1) [OF inv]
    by (force simp: all_nodes_def get_node_Some graph_inv_def node_inv_def)
  then show ?thesis using graph_invD(1) [OF inv] by (force simp: live_ids_def get_node_Some simp del: not_None_eq)
qed

lemma all_edges_iff:
  assumes "graph_inv g"
  shows "e \<in> set (all_edges g) \<longleftrightarrow> get_edge g (e_id e) = Some e \<and> get_node g (e_source e) \<noteq> None \<and> get_node g (e_target e) \<noteq> None"
proof -
  have "e \<in> set (map snd (gr_edges g)) \<longleftrightarrow> (\<exists>i. hm_get (gr_edges g) i = Some e)"
    using set_values [of "gr_edges g"] assms by (auto simp: graph_inv_def edge_inv_def)
  then show ?thesis using edge_indexD(3) [OF assms] by (auto simp: all_edges_def is_node_live_iff get_edge_Some simp del: not_None_eq)
qed

lemma distinct_all_edges:
  assumes "graph_inv g"
  shows "distinct (all_edges g)"
proof -
  have wf: "hm_wf (gr_edges g)" using assms by (simp add: graph_inv_def edge_inv_def)
  have "map e_id (map snd (gr_edges g)) = map fst (gr_edges g)"
    using edge_indexD(3) [OF assms] wf by (auto simp: map_of_eq_Some_iff)
  with wf have "distinct (map snd (gr_edges g))" by (metis distinct_map)
  then show ?thesis by (simp add: all_edges_def)
qed

lemma distinct_outgoing:
  assumes "graph_inv g"
  shows "distinct (outgoing_edges g n)"
proof -
  have "distinct (List.map_filter (get_edge g) ids)" if "distinct ids" for ids
    using that
  proof (induction ids)
    case (Cons i ids)
    have "get_edge g j \<noteq> Some e" if "get_edge g i = Some e" "j \<in> set ids" for e j
      using that Cons.prems edge_indexD(3) [OF assms, of i e] edge_indexD(3) [OF assms, of j e] by (auto simp: get_edge_Some)
    with Cons show ?case by (auto simp: map_filter_simps set_map_filter split: option.splits)
  qed (simp add: map_filter_simps)
  then show ?thesis using assms by (simp add: outgoing_edges_def graph_inv_def edge_inv_def)
qed

text \<open>The edges into \<open>t\<close> from nodes that are not yet ordered, and those from one node.\<close>

definition open_in :: "graph \<Rightarrow> string list \<Rightarrow> string \<Rightarrow> nat" where
  "open_in g acc t = length (filter (\<lambda>e. e_target e = t \<and> e_source e \<notin> set acc) (all_edges g))"

definition into :: "edge list \<Rightarrow> string \<Rightarrow> nat" where
  "into es t = length (filter (\<lambda>e. e_target e = t) es)"

lemma open_in_snoc:
  assumes "graph_inv g" "get_node g x \<noteq> None" "x \<notin> set acc"
  shows "open_in g acc t = open_in g (acc @ [x]) t + into (outgoing_edges g x) t"
proof -
  have split: "length (filter (\<lambda>e. e_target e = t \<and> e_source e \<notin> set acc) es) =
      length (filter (\<lambda>e. e_target e = t \<and> e_source e \<notin> set (acc @ [x])) es) +
      length (filter (\<lambda>e. e_target e = t \<and> e_source e = x) es)" for es
    using assms(3) by (induction es) auto
  have "length (filter (\<lambda>e. e_target e = t \<and> e_source e = x) (all_edges g)) = into (outgoing_edges g x) t"
  proof -
    have "set (filter (\<lambda>e. e_target e = t \<and> e_source e = x) (all_edges g)) = set (filter (\<lambda>e. e_target e = t) (outgoing_edges g x))"
      using assms(2) by (auto simp: all_edges_iff [OF assms(1)] outgoing_edges_iff [OF assms(1)] simp del: not_None_eq)
    then show ?thesis
      using distinct_card [of "filter (\<lambda>e. e_target e = t \<and> e_source e = x) (all_edges g)"]
        distinct_card [of "filter (\<lambda>e. e_target e = t) (outgoing_edges g x)"]
        distinct_all_edges [OF assms(1)] distinct_outgoing [OF assms(1), of x] by (simp add: into_def)
  qed
  then show ?thesis unfolding open_in_def split [of "all_edges g"] by simp
qed

lemma open_in_0_iff: "open_in g acc t = 0 \<longleftrightarrow> (\<forall>s. (s, t) \<in> edge_rel g \<longrightarrow> s \<in> set acc)"
  by (auto simp: open_in_def edge_rel_def filter_empty_conv)

lemma count_in_degrees_get:
  "set ids = hm_keys m \<Longrightarrow> hm_get (count_in_degrees ids es m) t =
     map_option (\<lambda>d. d + length (filter (\<lambda>e. e_target e = t \<and> e_target e \<in> set ids \<and> e_source e \<in> set ids) es)) (hm_get m t)"
proof (induction ids es m rule: count_in_degrees.induct)
  case (2 ids e es m)
  show ?case
  proof (cases "e_target e \<in> set ids \<and> e_source e \<in> set ids")
    case True
    then obtain d where d: "hm_get m (e_target e) = Some d" using "2.prems" in_keys_get by metis
    with True "2.prems" have "set ids = hm_keys (hm_insert (e_target e) (d + 1) m)" by (auto simp: dom_update)
    with 2 True d show ?thesis by (auto simp: update_conv')
  qed (use 2 in \<open>auto intro: option.map_cong0\<close>)
qed (simp add: option.map_id [unfolded id_def])

lemma count_in_degrees_wf: "hm_wf m \<Longrightarrow> hm_wf (count_in_degrees ids es m)"
  by (induction ids es m rule: count_in_degrees.induct) (auto simp: distinct_update)

lemma relax_targets_spec:
  assumes "\<forall>t d. hm_get m t = Some d \<longrightarrow> into es t \<le> d"
  shows "\<exists>m' new. relax_targets es m q = Some (m', q @ new) \<and> distinct new \<and>
    set new = {t. \<exists>d > 0. hm_get m t = Some d \<and> into es t = d} \<and>
    (\<forall>t. hm_get m' t = map_option (\<lambda>d. d - into es t) (hm_get m t))"
  using assms
proof (induction es arbitrary: m q)
  case Nil
  then show ?case by (auto simp: into_def option.map_id [unfolded id_def])
next
  case (Cons e es)
  let ?t = "e_target e"
  have into: "into (e # es) t = (if t = ?t then Suc (into es t) else into es t)" for t by (simp add: into_def)
  show ?case
  proof (cases "hm_get m ?t")
    case None
    then have ne: "t \<noteq> ?t" if "hm_get m t = Some d" for t d using that by auto
    have "\<forall>t d. hm_get m t = Some d \<longrightarrow> into es t \<le> d" using Cons.prems ne into by auto
    from Cons.IH [where q = q, OF this] obtain m' new where IH: "relax_targets es m q = Some (m', q @ new)" "distinct new"
      "set new = {t. \<exists>d > 0. hm_get m t = Some d \<and> into es t = d}" "\<forall>t. hm_get m' t = map_option (\<lambda>d. d - into es t) (hm_get m t)" by blast
    have "set new = {t. \<exists>d > 0. hm_get m t = Some d \<and> into (e # es) t = d}" unfolding IH(3) using ne by (auto simp: into)
    moreover have "\<forall>t. hm_get m' t = map_option (\<lambda>d. d - into (e # es) t) (hm_get m t)"
      using IH(4) None by (auto simp: into)
    ultimately show ?thesis using IH(1,2) None by auto
  next
    case (Some d0)
    then obtain d where d: "hm_get m ?t = Some (Suc d)" "into es ?t \<le> d" using Cons.prems [rule_format, OF Some] Some into [of ?t] by (cases d0) auto
    let ?m = "hm_insert ?t d m" and ?q = "if d = 0 then q @ [?t] else q"
    have "\<forall>t e. hm_get ?m t = Some e \<longrightarrow> into es t \<le> e" using Cons.prems d(2) by (auto simp: update_conv' into split: if_splits)
    from Cons.IH [where q = ?q, OF this] obtain m' new where IH: "relax_targets es ?m ?q = Some (m', ?q @ new)" "distinct new"
      "set new = {t. \<exists>e > 0. hm_get ?m t = Some e \<and> into es t = e}"
      "\<forall>t. hm_get m' t = map_option (\<lambda>e. e - into es t) (hm_get ?m t)" by blast
    let ?new = "if d = 0 then ?t # new else new"
    have "relax_targets (e # es) m q = Some (m', q @ ?new)" using d IH(1) by simp
    moreover have "distinct ?new" using IH(2,3) by (auto simp: update_conv')
    moreover have "set ?new = {t. \<exists>e' > 0. hm_get m t = Some e' \<and> into (e # es) t = e'}"
      using d IH(3) by (auto simp: update_conv' into)
    moreover have "\<forall>t. hm_get m' t = map_option (\<lambda>e'. e' - into (e # es) t) (hm_get m t)"
      using d IH(4) by (auto simp: update_conv' into)
    ultimately show ?thesis by blast
  qed
qed

section \<open>The loop\<close>

definition parents_before :: "('a \<times> 'a) set \<Rightarrow> 'a list \<Rightarrow> bool" where
  "parents_before R xs \<longleftrightarrow> (\<forall>i < length xs. \<forall>s. (s, xs ! i) \<in> R \<longrightarrow> s \<in> set (take i xs))"

lemma parents_before_snoc: "parents_before R xs \<Longrightarrow> \<forall>s. (s, x) \<in> R \<longrightarrow> s \<in> set xs \<Longrightarrow> parents_before R (xs @ [x])"
  by (auto simp: parents_before_def nth_append less_Suc_eq)

definition order_inv :: "graph \<Rightarrow> (string, nat) hash_map \<Rightarrow> string list \<Rightarrow> string list \<Rightarrow> bool" where
  "order_inv g m q acc \<longleftrightarrow> distinct (acc @ q) \<and> set (acc @ q) = {t. get_node g t \<noteq> None \<and> open_in g acc t = 0} \<and>
     (\<forall>t. hm_get m t = (if get_node g t = None then None else Some (open_in g acc t))) \<and> parents_before (edge_rel g) acc"

lemma order_inv_step:
  assumes "graph_inv g" "order_inv g m (x # q) acc"
  shows "\<exists>m' new. relax_targets (outgoing_edges g x) m q = Some (m', q @ new) \<and> order_inv g m' (q @ new) (acc @ [x])"
proof -
  have I: "distinct (acc @ x # q)" "set (acc @ x # q) = {t. get_node g t \<noteq> None \<and> open_in g acc t = 0}"
    "\<And>t. hm_get m t = (if get_node g t = None then None else Some (open_in g acc t))" "parents_before (edge_rel g) acc"
    using assms(2) unfolding order_inv_def by blast+
  have x: "get_node g x \<noteq> None" "open_in g acc x = 0" "x \<notin> set acc" using I(1,2) by auto
  note snoc = open_in_snoc [OF assms(1) x(1,3)]
  have "\<forall>t d. hm_get m t = Some d \<longrightarrow> into (outgoing_edges g x) t \<le> d" using snoc I(3) by (auto split: if_splits)
  from relax_targets_spec [where q = q, OF this] obtain m' new where r: "relax_targets (outgoing_edges g x) m q = Some (m', q @ new)"
    "distinct new" "set new = {t. \<exists>d > 0. hm_get m t = Some d \<and> into (outgoing_edges g x) t = d}"
    "\<forall>t. hm_get m' t = map_option (\<lambda>d. d - into (outgoing_edges g x) t) (hm_get m t)" by blast
  have new: "set new = {t. get_node g t \<noteq> None \<and> open_in g acc t > 0 \<and> open_in g (acc @ [x]) t = 0}"
    unfolding r(3) I(3) using snoc by (auto split: if_splits)
  have z: "open_in g acc t = 0 \<Longrightarrow> open_in g (acc @ [x]) t = 0" for t using snoc [of t] by simp
  have "set ((acc @ [x]) @ q @ new) = {t. get_node g t \<noteq> None \<and> open_in g (acc @ [x]) t = 0}"
    using I(2) new z by (auto simp del: not_None_eq)
  moreover have "distinct ((acc @ [x]) @ q @ new)"
  proof -
    have "set new \<inter> set (acc @ x # q) = {}" unfolding new I(2) by auto
    then show ?thesis using I(1) r(2) by auto
  qed
  moreover have "hm_get m' t = (if get_node g t = None then None else Some (open_in g (acc @ [x]) t))" for t
    using r(4) I(3) [of t] snoc [of t] by simp
  moreover have "parents_before (edge_rel g) (acc @ [x])"
    using parents_before_snoc [OF I(4)] x(2) by (simp add: open_in_0_iff)
  ultimately show ?thesis using r(1) by (auto simp: order_inv_def)
qed

lemma order_loop_result:
  "graph_inv g \<Longrightarrow> order_inv g m q acc \<Longrightarrow> \<exists>r m'. order_loop g m q acc = Some r \<and> order_inv g m' [] r"
proof (induction g m q acc rule: order_loop.induct)
  case (2 g m x q acc)
  then obtain m' new where "relax_targets (outgoing_edges g x) m q = Some (m', q @ new)" "order_inv g m' (q @ new) (acc @ [x])"
    using order_inv_step by blast
  with 2 show ?case by simp
qed auto

lemma order_inv_start:
  assumes "graph_inv g"
  defines "m \<equiv> count_in_degrees (live_ids g) (all_edges g) (map (\<lambda>i. (i, 0)) (live_ids g))"
  shows "order_inv g m (sort (map fst (filter (\<lambda>(_, d). d = 0) m))) []"
proof -
  have ids: "set (live_ids g) = {i. get_node g i \<noteq> None}" by (rule all_nodes_ids [OF assms(1)])
  have "hm_get (map (\<lambda>i. (i, 0 :: nat)) xs) t = (if t \<in> set xs then Some 0 else None)" for xs :: "string list" and t
    by (induction xs) auto
  then have z: "hm_get (map (\<lambda>i. (i, 0 :: nat)) (live_ids g)) t = (if get_node g t = None then None else Some 0)" for t
    using ids by auto
  have "filter (\<lambda>e. e_target e = t \<and> e_target e \<in> set (live_ids g) \<and> e_source e \<in> set (live_ids g)) (all_edges g) =
      filter (\<lambda>e. e_target e = t \<and> e_source e \<notin> set []) (all_edges g)" for t
    using all_edges_iff [OF assms(1)] by (intro filter_cong) (auto simp: ids simp del: not_None_eq)
  then have get: "hm_get m t = (if get_node g t = None then None else Some (open_in g [] t))" for t
    unfolding m_def by (subst count_in_degrees_get) (auto simp: z open_in_def image_image)
  have wf: "hm_wf m" unfolding m_def by (rule count_in_degrees_wf) (simp add: live_ids_def o_def)
  then have "distinct (map fst (filter (\<lambda>(_, d). d = 0) m))" by (simp add: distinct_map_filter)
  moreover have "set (map fst (filter (\<lambda>(_, d). d = 0) m)) = {t. hm_get m t = Some 0}"
    using wf by (force simp: map_of_eq_Some_iff)
  ultimately show ?thesis by (simp add: order_inv_def get parents_before_def split: if_splits) auto
qed

lemma ordered_acyclic:
  assumes "distinct xs" "parents_before R xs" "Range R \<subseteq> set xs"
  shows "acyclic R"
proof (rule acyclicI, rule allI, rule notI)
  have hop: "\<exists>i j. i < j \<and> j < length xs \<and> a = xs ! i \<and> b = xs ! j" if "(a, b) \<in> R" for a b
  proof -
    have "b \<in> set xs" using assms(3) that by blast
    then obtain j where j: "j < length xs" "b = xs ! j" unfolding in_set_conv_nth by blast
    then have "a \<in> set (take j xs)" using assms(2) that unfolding parents_before_def by blast
    then obtain i where "i < j" "a = xs ! i" unfolding in_set_conv_nth by auto
    then show ?thesis using j by blast
  qed
  have path: "\<exists>i j. i < j \<and> j < length xs \<and> a = xs ! i \<and> b = xs ! j" if "(a, b) \<in> R\<^sup>+" for a b
    using that
  proof (induction rule: trancl_induct)
    case (step y z)
    then obtain i j where ij: "i < j" "j < length xs" "a = xs ! i" "y = xs ! j" by blast
    obtain i' j' where ij': "i' < j'" "j' < length xs" "y = xs ! i'" "z = xs ! j'" using hop [OF step(2)] by blast
    have "j = i'" using assms(1) ij(2,4) ij'(1-3) nth_eq_iff_index_eq [of xs j i'] by simp
    with ij ij' show ?case using order.strict_trans by blast
  qed (rule hop)
  fix x assume "(x, x) \<in> R\<^sup>+"
  then obtain i j where "i < j" "j < length xs" "xs ! i = xs ! j" using path by metis
  then show False using assms(1) nth_eq_iff_index_eq [of xs i j] by simp
qed

text \<open>
  C33. The graph's topological sort never underflows a counter. In every reachable graph it returns an order
  exactly when the live edges between live nodes are acyclic, and then the order lists every live node once,
  after all nodes with an edge to it; \<^verbatim>\<open>has_cycle\<close> decides acyclicity.
\<close>

theorem topological_sort_correct:
  assumes "graph_run E g" and "iter_ok E"
  shows "(if acyclic (edge_rel g)
      then \<exists>order. topological_sort g = Some (Some order) \<and> distinct order \<and> set order = {i. get_node g i \<noteq> None} \<and>
        parents_before (edge_rel g) order
      else topological_sort g = Some None) \<and>
    has_cycle g = Some (\<not> acyclic (edge_rel g))"
proof -
  note inv = graph_run_inv [OF assms]
  let ?V = "{i. get_node g i \<noteq> None}"
  obtain r m' where r: "order_loop g (count_in_degrees (live_ids g) (all_edges g) (map (\<lambda>i. (i, 0)) (live_ids g)))
      (sort (map fst (filter (\<lambda>(_, d). d = 0) (count_in_degrees (live_ids g) (all_edges g) (map (\<lambda>i. (i, 0)) (live_ids g)))))) [] = Some r"
    "order_inv g m' [] r"
    using order_loop_result [OF inv order_inv_start [OF inv]] by blast
  have R: "distinct r" "set r = {t. get_node g t \<noteq> None \<and> open_in g r t = 0}" "parents_before (edge_rel g) r"
    using r(2) by (simp_all add: order_inv_def)
  have ids: "set (live_ids g) = ?V" "length (live_ids g) = card ?V"
    using all_nodes_ids [OF inv] distinct_card [of "live_ids g"] by (simp_all add: live_ids_def)
  have fin: "finite ?V" using ids(1) by (metis List.finite_set)
  have ends: "edge_rel g \<subseteq> ?V \<times> ?V" unfolding edge_rel_def using all_edges_iff [OF inv] by blast
  have full: "length r = length (live_ids g) \<longleftrightarrow> set r = ?V"
  proof -
    have "set r \<subseteq> ?V" unfolding R(2) by blast
    then show ?thesis using distinct_card [OF R(1)] ids(2) card_subset_eq [OF fin, of "set r"] by metis
  qed
  have "acyclic (edge_rel g)" if "set r = ?V"
    by (rule ordered_acyclic [OF R(1,3)]) (use ends that in blast)
  moreover have "set r = ?V" if ac: "acyclic (edge_rel g)"
  proof (rule ccontr)
    assume "set r \<noteq> ?V"
    then have ne: "?V - set r \<noteq> {}" unfolding R(2) by blast
    have "finite (edge_rel g)" using ends fin by (rule finite_subset [OF _ finite_cartesian_product]) (rule fin)
    then have "wf (edge_rel g)" using ac by (rule finite_acyclic_wf)
    then obtain t where t: "t \<in> ?V - set r" "\<And>s. (s, t) \<in> edge_rel g \<Longrightarrow> s \<notin> ?V - set r"
      by (rule wfE_min' [OF _ ne]) (rule that, assumption, blast)
    have "open_in g r t \<noteq> 0" using t(1) unfolding R(2) by auto
    then obtain s where "(s, t) \<in> edge_rel g" "s \<notin> set r" by (auto simp: open_in_0_iff)
    then show False using t(2) ends by blast
  qed
  ultimately have iff: "length r = length (live_ids g) \<longleftrightarrow> acyclic (edge_rel g)" using full by blast
  have "topological_sort g = Some (if length r = length (live_ids g) then Some r else None)"
    using r(1) by (simp add: topological_sort_def Let_def)
  then show ?thesis using R iff full by (auto simp: has_cycle_def)
qed

theorem topological_sort_correct_witness: "has_cycle line_graph = Some (\<not> acyclic (edge_rel line_graph))"
  by (rule conjunct2 [OF topological_sort_correct [OF line_facts(4) tiny_iter_ok(1)]])

end
