(* ===== verification/Silk_Gossip.thy ===== *)
theory Silk_Gossip
  imports Silk_Prelude
begin

text \<open>
  The peer registry of \<^verbatim>\<open>src/src/gossip.rs\<close>: a \<^verbatim>\<open>BTreeMap\<close> of known peers and the seed
  that the instance id contributes to the pseudo-random choice of sync targets.

  \<^item> The wall clock of \<^verbatim>\<open>now_ms()\<close> is an argument of the two operations that read it.
  \<^item> The fan-out \<^verbatim>\<open>((n as f64).ln() + 1.0).ceil() as usize\<close> is the argument \<open>fan\<close>: the precision of
    \<^verbatim>\<open>f64::ln\<close> is left open by the platform, and no result here depends on its value.
  \<^item> The \<^verbatim>\<open>while\<close> loop of \<^verbatim>\<open>select_sync_targets\<close> draws until enough distinct peers were drawn, so
    nothing in the code bounds it. It is a partial function, and that it returns is proved: the
    generator runs through all \<open>2 ^ 64\<close> states, so every peer is drawn in the end, as long
    as the 31 bits kept of a state reach every index.
  \<^item> The message strings of \<^verbatim>\<open>verify_compaction_safe\<close> are the values of a datatype.
\<close>

unbundle bit_operations_syntax

declare map_of_eq_Some_iff [simp del] Some_eq_map_of_iff [simp del]

section \<open>State\<close>

record peer_info =
  pi_peer_id :: string
  pi_address :: string
  pi_last_seen_ms :: u64

record peer_registry =
  pr_peers :: "(string, peer_info) btree_map"
  pr_instance_seed :: u64

definition registry_new :: peer_registry where
  "registry_new = \<lparr>pr_peers = [], pr_instance_seed = 0\<rparr>"

text \<open>FNV-1a over the bytes of the instance id.\<close>

definition fnv_step :: "char \<Rightarrow> u64 \<Rightarrow> u64" where
  "fnv_step b h = (h XOR of_char b) * 0x100000001b3"

definition with_instance_id :: "string \<Rightarrow> peer_registry" where
  "with_instance_id instance_id = \<lparr>pr_peers = [], pr_instance_seed = fold fnv_step instance_id 0xcbf29ce484222325\<rparr>"

definition register_peer :: "peer_registry \<Rightarrow> string \<Rightarrow> string \<Rightarrow> peer_registry" where
  "register_peer r peer_id address =
     r\<lparr>pr_peers := bt_insert peer_id \<lparr>pi_peer_id = peer_id, pi_address = address, pi_last_seen_ms = 0\<rparr> (pr_peers r)\<rparr>"

definition unregister_peer :: "peer_registry \<Rightarrow> string \<Rightarrow> peer_registry \<times> bool" where
  "unregister_peer r peer_id =
     (r\<lparr>pr_peers := AList.delete peer_id (pr_peers r)\<rparr>, bt_get (pr_peers r) peer_id \<noteq> None)"

definition list_peers :: "peer_registry \<Rightarrow> peer_info list" where
  "list_peers r = map snd (pr_peers r)"

definition get_peer :: "peer_registry \<Rightarrow> string \<Rightarrow> peer_info option" where
  "get_peer r peer_id = bt_get (pr_peers r) peer_id"

text \<open>The linear congruential generator, and the loop that draws until enough distinct peers are selected.\<close>

definition lcg :: "u64 \<Rightarrow> u64" where
  "lcg state = state * 6364136223846793005 + 1442695040888963407"

definition drawn :: "string list \<Rightarrow> u64 \<Rightarrow> string" where
  "drawn peer_ids state = peer_ids ! (unat (drop_bit 33 state) mod length peer_ids)"

partial_function (option) select_loop :: "string list \<Rightarrow> nat \<Rightarrow> string list \<Rightarrow> u64 \<Rightarrow> string list option" where
  "select_loop peer_ids fan_out selected state =
     (if length selected < fan_out then
        let state' = lcg state; candidate = drawn peer_ids state' in
        select_loop peer_ids fan_out (if candidate \<in> set selected then selected else selected @ [candidate]) state'
      else Some selected)"

text \<open>\<open>fan\<close> stands for \<^verbatim>\<open>((n as f64).ln() + 1.0).ceil() as usize\<close>.\<close>

definition select_sync_targets :: "(nat \<Rightarrow> nat) \<Rightarrow> u64 \<Rightarrow> peer_registry \<Rightarrow> string list option" where
  "select_sync_targets fan now_ms r =
     (let n = length (pr_peers r); peer_ids = map fst (pr_peers r) in
      if n = 0 then Some []
      else if n \<le> 2 then Some peer_ids
      else select_loop peer_ids (min (fan n) n) [] (now_ms XOR pr_instance_seed r))"

definition record_sync :: "u64 \<Rightarrow> peer_registry \<Rightarrow> string \<Rightarrow> peer_registry" where
  "record_sync now_ms r peer_id =
     (case bt_get (pr_peers r) peer_id of None \<Rightarrow> r
      | Some p \<Rightarrow> r\<lparr>pr_peers := bt_insert peer_id (p\<lparr>pi_last_seen_ms := now_ms\<rparr>) (pr_peers r)\<rparr>)"

datatype compaction_reason = NeverSynced string | SyncedBefore string u64 u64

definition verify_compaction_safe :: "peer_registry \<Rightarrow> u64 \<Rightarrow> bool \<times> compaction_reason list" where
  "verify_compaction_safe r latest_entry_ms =
     (if pr_peers r = [] then (True, [])
      else let reasons = map (\<lambda>p. if pi_last_seen_ms p = 0 then NeverSynced (pi_peer_id p)
                 else SyncedBefore (pi_peer_id p) (pi_last_seen_ms p) latest_entry_ms)
               (filter (\<lambda>p. pi_last_seen_ms p < latest_entry_ms) (list_peers r))
           in (reasons = [], reasons))"

section \<open>The generator has full period\<close>

fun geometric :: "nat \<Rightarrow> nat \<Rightarrow> nat" where
  "geometric a 0 = 0"
| "geometric a (Suc n) = a * geometric a n + 1"

lemma geometric_add: "geometric a (m + n) = a ^ n * geometric a m + geometric a n"
  by (induction n) (auto simp: algebra_simps)

lemma geometric_double: "geometric a (2 * m) = (a ^ m + 1) * geometric a m"
proof -
  have "geometric a (m + m) = (a ^ m + 1) * geometric a m" by (simp add: geometric_add algebra_simps)
  then show ?thesis by (simp only: mult_2)
qed

text \<open>If \<open>a\<close> is one modulo four, the sum of \<open>n\<close> of its powers has exactly the powers of two of \<open>n\<close>.\<close>

lemma power_plus_one:
  assumes "a mod 4 = (1 :: nat)"
  shows "\<exists>q. odd q \<and> a ^ m + 1 = 2 * q"
proof -
  have "a ^ m mod 4 = 1" using power_mod [of a 4 m] assms by simp
  then have "(a ^ m + 1) mod 4 = 2" by presburger
  then show ?thesis by presburger
qed

lemma geometric_odd: "a mod 4 = 1 \<Longrightarrow> odd (geometric a (Suc (2 * m)))"
  using power_plus_one [of a m] by (auto simp: geometric_double)

lemma pow2_dvd_geometric:
  assumes "a mod 4 = 1"
  shows "2 ^ k dvd geometric a n \<longleftrightarrow> 2 ^ k dvd n"
proof (induction k arbitrary: n)
  case (Suc k)
  show ?case
  proof (cases "even n")
    case True
    then obtain m where n: "n = 2 * m" by blast
    obtain q where q: "odd q" "a ^ m + 1 = 2 * q" using power_plus_one [OF assms] by blast
    have "2 ^ Suc k dvd geometric a n \<longleftrightarrow> 2 ^ k dvd q * geometric a m"
      by (simp add: n geometric_double q(2)[simplified])
    also have "\<dots> \<longleftrightarrow> 2 ^ k dvd geometric a m"
      using q(1) by (intro coprime_dvd_mult_right_iff) (simp add: coprime_commute)
    also have "\<dots> \<longleftrightarrow> 2 ^ Suc k dvd n" by (simp add: Suc.IH n)
    finally show ?thesis .
  next
    case False
    then obtain m where n: "n = Suc (2 * m)" by (auto elim: oddE)
    have "odd (geometric a n)" using geometric_odd [OF assms] n by simp
    then have "\<not> 2 ^ Suc k dvd geometric a n" using dvd_trans [of 2 "2 ^ Suc k"] by auto
    moreover have "\<not> 2 ^ Suc k dvd n" using False dvd_trans [of 2 "2 ^ Suc k" n] by auto
    ultimately show ?thesis by blast
  qed
qed simp

definition lcg_a :: nat where "lcg_a = 6364136223846793005"
definition lcg_c :: nat where "lcg_c = 1442695040888963407"

lemma lcg_parts: "lcg_a mod 4 = 1" "odd lcg_a" "odd lcg_c" "lcg x = of_nat lcg_a * x + of_nat lcg_c"
  by (simp_all add: lcg_a_def lcg_c_def lcg_def mult.commute)

text \<open>The orbit of zero visits every state, hence so does every orbit.\<close>

lemma lcg_orbit: "(lcg ^^ n) 0 = of_nat (lcg_c * geometric lcg_a n)"
  by (induction n) (simp_all add: lcg_parts(4) algebra_simps)

lemma of_nat_u64_eq: "(of_nat x :: u64) = of_nat y \<longleftrightarrow> x mod 2 ^ 64 = y mod 2 ^ 64"
  by (simp add: of_nat_eq_iff word_of_nat_eq_iff take_bit_eq_mod)

lemma lcg_orbit_inj:
  assumes "i \<le> j" "j < 2 ^ 64" "(lcg ^^ i) 0 = (lcg ^^ j) 0"
  shows "i = j"
proof -
  have g: "geometric lcg_a j = lcg_a ^ i * geometric lcg_a (j - i) + geometric lcg_a i"
    using geometric_add [of lcg_a "j - i" i] assms(1) by simp
  have "lcg_c * geometric lcg_a j mod 2 ^ 64 = lcg_c * geometric lcg_a i mod 2 ^ 64"
    using assms(3) unfolding lcg_orbit of_nat_u64_eq by simp
  then have "2 ^ 64 dvd lcg_c * geometric lcg_a j - lcg_c * geometric lcg_a i"
    by (rule mod_eq_dvd_iff_nat [THEN iffD1, rotated]) (simp add: g)
  moreover have "lcg_c * geometric lcg_a j - lcg_c * geometric lcg_a i = (lcg_c * lcg_a ^ i) * geometric lcg_a (j - i)"
    unfolding g by (simp add: algebra_simps)
  moreover have "coprime (2 ^ 64) (lcg_c * lcg_a ^ i)" 
    by (simp only: coprime_mult_right_iff coprime_power_left_iff coprime_power_right_iff coprime_left_2_iff_odd lcg_parts(2,3) simp_thms)
  ultimately have "2 ^ 64 dvd geometric lcg_a (j - i)" using coprime_dvd_mult_right_iff by metis
  then have "2 ^ 64 dvd j - i" by (simp only: pow2_dvd_geometric [OF lcg_parts(1)])
  then show ?thesis using assms(1,2) by (metis dvd_imp_le le_add_diff_inverse2 less_imp_diff_less linorder_not_less add.left_neutral neq0_conv)
qed

lemma lcg_orbit_all: "\<exists>i < 2 ^ 64. (lcg ^^ i) 0 = x"
proof -
  let ?f = "\<lambda>i. (lcg ^^ i) 0"
  have "inj_on ?f {..<2 ^ 64}" by (rule inj_onI) (metis lcg_orbit_inj lessThan_iff nle_le)
  then have "card (?f ` {..<2 ^ 64}) = 2 ^ 64" by (simp only: card_image card_lessThan)
  moreover have "card (UNIV :: u64 set) = 2 ^ 64" by (simp add: card_word)
  ultimately have "?f ` {..<2 ^ 64} = UNIV" by (intro card_subset_eq) (simp_all only: finite_class.finite subset_UNIV)
  then have "x \<in> ?f ` {..<2 ^ 64}" by (simp only: UNIV_I)
  then show ?thesis by blast
qed

lemma lcg_reaches: "\<exists>n. (lcg ^^ Suc n) x = y"
proof -
  define N where "N = (2 ^ 64 :: nat)"
  obtain i j where ij: "i < N" "(lcg ^^ i) 0 = x" "(lcg ^^ j) 0 = y"
    using lcg_orbit_all [of x] lcg_orbit_all [of y] unfolding N_def by blast
  have "2 ^ 64 dvd lcg_c * geometric lcg_a N"
    using pow2_dvd_geometric [OF lcg_parts(1), of 64 N] by (simp add: N_def)
  then have "(lcg ^^ N) 0 = 0" unfolding lcg_orbit using of_nat_u64_eq [of "lcg_c * geometric lcg_a N" 0] by simp
  then have "(lcg ^^ (j + N)) 0 = y" using ij(3) by (simp add: funpow_add)
  moreover have "j + N = Suc (j + N - i - 1) + i" using ij(1) by simp
  ultimately have "(lcg ^^ Suc (j + N - i - 1)) ((lcg ^^ i) 0) = y" by (metis comp_apply funpow_add)
  then show ?thesis using ij(2) by blast
qed

section \<open>Selection\<close>

lemma unat_of_nat_u64: "x < 2 ^ 64 \<Longrightarrow> unat (of_nat x :: u64) = x"
  by (simp add: unat_of_nat)

lemma drawn_all:
  assumes "p \<in> set ids" "length ids \<le> 2 ^ 31"
  shows "\<exists>s. drawn ids s = p"
proof -
  obtain i where i: "i < length ids" "p = ids ! i" using assms(1) by (auto simp: in_set_conv_nth)
  have "i < 2 ^ 31" using i(1) assms(2) by simp
  then have "i * 2 ^ 33 < 2 ^ 64" by simp
  then have "unat (of_nat (i * 2 ^ 33) :: u64) = i * 2 ^ 33" by (rule unat_of_nat_u64)
  then have "unat (drop_bit 33 (of_nat (i * 2 ^ 33) :: u64)) = i"
    unfolding unat_drop_bit_eq by (simp only: drop_bit_eq_div) simp
  then show ?thesis using i by (intro exI [of _ "of_nat (i * 2 ^ 33)"]) (simp add: drawn_def)
qed

lemma select_progress:
  assumes "length selected < fan"
  shows "drawn ids ((lcg ^^ Suc n) state) \<notin> set selected \<Longrightarrow>
    \<exists>k. select_loop ids fan selected state = select_loop ids fan (selected @ [drawn ids ((lcg ^^ Suc k) state)]) ((lcg ^^ Suc k) state) \<and>
      drawn ids ((lcg ^^ Suc k) state) \<notin> set selected"
proof (induction n arbitrary: state)
  case 0
  then show ?case using assms by (intro exI [of _ 0]) (simp add: select_loop.simps [of ids fan selected] Let_def)
next
  case (Suc n)
  show ?case
  proof (cases "drawn ids (lcg state) \<in> set selected")
    case True
    have "drawn ids ((lcg ^^ Suc n) (lcg state)) \<notin> set selected" using Suc.prems by (simp add: funpow_swap1)
    then obtain k where k: "select_loop ids fan selected (lcg state) =
        select_loop ids fan (selected @ [drawn ids ((lcg ^^ Suc k) (lcg state))]) ((lcg ^^ Suc k) (lcg state))"
      "drawn ids ((lcg ^^ Suc k) (lcg state)) \<notin> set selected" using Suc.IH by blast
    moreover have "(lcg ^^ Suc k) (lcg state) = (lcg ^^ Suc (Suc k)) state" by (simp add: funpow_swap1)
    moreover have "select_loop ids fan selected state = select_loop ids fan selected (lcg state)"
      using True assms by (subst select_loop.simps) (simp add: Let_def)
    ultimately show ?thesis by metis
  next
    case False
    then show ?thesis using assms by (intro exI [of _ 0]) (simp add: select_loop.simps [of ids fan selected] Let_def)
  qed
qed

lemma select_loop_ends:
  assumes "length ids \<le> 2 ^ 31" "distinct ids" "fan \<le> length ids"
  shows "distinct selected \<Longrightarrow> set selected \<subseteq> set ids \<Longrightarrow> length selected \<le> fan \<Longrightarrow>
    \<exists>ts. select_loop ids fan selected state = Some ts \<and> distinct ts \<and> set ts \<subseteq> set ids \<and> length ts = fan"
proof (induction "fan - length selected" arbitrary: selected state)
  case 0
  then show ?case by (subst select_loop.simps) auto
next
  case (Suc m)
  then have lt: "length selected < fan" by simp
  have "card (set selected) < card (set ids)" using Suc.prems(1) assms(2,3) lt by (simp add: distinct_card)
  then obtain p where p: "p \<in> set ids" "p \<notin> set selected"
    by (metis card_mono finite_set linorder_not_less subsetI)
  obtain s where s: "drawn ids s = p" using drawn_all [OF p(1) assms(1)] by blast
  obtain n where "(lcg ^^ Suc n) state = s" using lcg_reaches by blast
  then obtain k where k: "select_loop ids fan selected state =
      select_loop ids fan (selected @ [drawn ids ((lcg ^^ Suc k) state)]) ((lcg ^^ Suc k) state)"
    "drawn ids ((lcg ^^ Suc k) state) \<notin> set selected"
    using select_progress [OF lt, of ids n state] s p(2) by auto
  have "ids \<noteq> []" using p(1) by auto
  then have "drawn ids ((lcg ^^ Suc k) state) \<in> set ids" by (simp add: drawn_def)
  then have "\<exists>ts. select_loop ids fan (selected @ [drawn ids ((lcg ^^ Suc k) state)]) ((lcg ^^ Suc k) state) = Some ts \<and>
      distinct ts \<and> set ts \<subseteq> set ids \<and> length ts = fan"
    using Suc.hyps(2) Suc.prems k(2) lt by (intro Suc.hyps(1)) simp_all
  then show ?case by (simp only: k(1))
qed

section \<open>The registry over its operations\<close>

text \<open>Histories of the registry, for the invariant and for the contract of the compaction check.\<close>

datatype registry_op = Register string string | Unregister string | Synced u64 string

fun registry_step :: "registry_op \<Rightarrow> peer_registry \<Rightarrow> peer_registry" where
  "registry_step (Register peer_id address) r = register_peer r peer_id address"
| "registry_step (Unregister peer_id) r = fst (unregister_peer r peer_id)"
| "registry_step (Synced now_ms peer_id) r = record_sync now_ms r peer_id"

definition registry_wf :: "peer_registry \<Rightarrow> bool" where
  "registry_wf r \<longleftrightarrow> bt_wf (pr_peers r) \<and> (\<forall>(k, p) \<in> set (pr_peers r). pi_peer_id p = k)"

lemma set_delete_subset: "set (AList.delete k m) \<subseteq> set m"
  by (auto simp: AList.delete_eq)

lemma set_bt_insert: "set (bt_insert k v m) \<subseteq> insert (k, v) (set m)"
  by (induction m) auto

lemma registry_wf_step: "registry_wf r \<Longrightarrow> registry_wf (registry_step e r)"
  by (cases e)
    (auto simp: registry_wf_def register_peer_def unregister_peer_def record_sync_def bt_wf_insert bt_wf_delete
       split: option.splits dest!: subsetD [OF set_bt_insert] subsetD [OF set_delete_subset] map_of_SomeD)

lemma registry_wf_run: "registry_wf r \<Longrightarrow> registry_wf (fold registry_step ops r)"
  by (induction ops arbitrary: r) (auto simp: registry_wf_step)

text \<open>The specification: when a peer was last heard of, read off the history, newest operation first.\<close>

fun last_heard :: "registry_op list \<Rightarrow> string \<Rightarrow> u64 option" where
  "last_heard [] p = None"
| "last_heard (Register q a # ops) p = (if p = q then Some 0 else last_heard ops p)"
| "last_heard (Unregister q # ops) p = (if p = q then None else last_heard ops p)"
| "last_heard (Synced t q # ops) p = (if p = q then map_option (\<lambda>_. t) (last_heard ops p) else last_heard ops p)"

lemma get_peer_step:
  "get_peer (registry_step (Register q a) r) p = (if p = q then Some \<lparr>pi_peer_id = q, pi_address = a, pi_last_seen_ms = 0\<rparr> else get_peer r p)"
  "get_peer (registry_step (Unregister q) r) p = (if p = q then None else get_peer r p)"
  "get_peer (registry_step (Synced t q) r) p = (if p = q then map_option (\<lambda>i. i\<lparr>pi_last_seen_ms := t\<rparr>) (get_peer r p) else get_peer r p)"
  by (auto simp: get_peer_def register_peer_def unregister_peer_def record_sync_def map_simps split: option.splits)

lemma last_heard_spec:
  "map_option pi_last_seen_ms (get_peer (fold registry_step ops registry_new) p) = last_heard (rev ops) p"
proof (induction ops rule: rev_induct)
  case (snoc e ops)
  then show ?case
    by (cases e) (auto simp: get_peer_step option.map_comp comp_def snoc [symmetric] simp del: registry_step.simps)
qed (simp add: registry_new_def get_peer_def)

definition sync_reason :: "u64 \<Rightarrow> string \<Rightarrow> u64 \<Rightarrow> compaction_reason" where
  "sync_reason latest p t = (if t = 0 then NeverSynced p else SyncedBefore p t latest)"

lemma compaction_reasons:
  "set (snd (verify_compaction_safe r latest))
     = {sync_reason latest (pi_peer_id i) (pi_last_seen_ms i) |i. i \<in> set (list_peers r) \<and> pi_last_seen_ms i < latest}"
  by (auto simp: verify_compaction_safe_def list_peers_def Let_def sync_reason_def)

lemma compaction_safe_iff: "fst (verify_compaction_safe r latest) \<longleftrightarrow> snd (verify_compaction_safe r latest) = []"
  by (simp add: verify_compaction_safe_def Let_def)

lemma set_list_peers: "registry_wf r \<Longrightarrow> set (list_peers r) = {i. get_peer r (pi_peer_id i) = Some i}"
  by (force simp: registry_wf_def list_peers_def get_peer_def bt_wf_distinct map_of_eq_Some_iff intro: rev_image_eqI)

lemma get_peer_id: "registry_wf r \<Longrightarrow> get_peer r p = Some i \<Longrightarrow> pi_peer_id i = p"
  by (auto simp: registry_wf_def get_peer_def dest!: map_of_SomeD)

text \<open>
  After any history of registrations, removals and syncs, the compaction check names exactly the
  peers that are still registered and that last synced, since their latest registration, before
  the latest entry; it reports safe exactly when it names none. Peers that were unregistered do not
  count, and registering a peer again forgets that it ever synced.
\<close>

theorem compaction_safe_exact:
  "set (snd (verify_compaction_safe (fold registry_step ops registry_new) latest))
     = {sync_reason latest p t |p t. last_heard (rev ops) p = Some t \<and> t < latest} \<and>
   (fst (verify_compaction_safe (fold registry_step ops registry_new) latest)
     \<longleftrightarrow> {p. \<exists>t. last_heard (rev ops) p = Some t \<and> t < latest} = {})"
proof -
  let ?r = "fold registry_step ops registry_new"
  have wf: "registry_wf ?r" by (rule registry_wf_run) (simp add: registry_wf_def registry_new_def bt_wf_def)
  have "\<exists>i. get_peer ?r p = Some i \<and> pi_last_seen_ms i = t \<and> pi_peer_id i = p" if "last_heard (rev ops) p = Some t" for p t
    using that get_peer_id [OF wf] unfolding last_heard_spec [symmetric] by blast
  moreover have "last_heard (rev ops) p = Some (pi_last_seen_ms i)" if "get_peer ?r p = Some i" for p i
    using that unfolding last_heard_spec [symmetric] by simp
  ultimately have *: "set (snd (verify_compaction_safe ?r latest)) = {sync_reason latest p t |p t. last_heard (rev ops) p = Some t \<and> t < latest}"
    unfolding compaction_reasons set_list_peers [OF wf] by blast
  then show ?thesis unfolding compaction_safe_iff by (simp add: set_empty [symmetric] del: set_empty)
qed

text \<open>
  C37. The selection of sync targets always returns: whatever the clock, the seed of the instance
  and the fan-out, the loop ends and yields distinct registered peers, all of them when there are
  at most two, and otherwise as many as the fan-out asks for, capped by their number.
\<close>

theorem select_sync_targets_ends:
  assumes "registry_wf r" "length (pr_peers r) \<le> 2 ^ 31"
  shows "\<exists>ts. select_sync_targets fan now_ms r = Some ts \<and> distinct ts \<and> (\<forall>t \<in> set ts. get_peer r t \<noteq> None) \<and>
    length ts = (if length (pr_peers r) \<le> 2 then length (pr_peers r) else min (fan (length (pr_peers r))) (length (pr_peers r)))"
proof -
  let ?ids = "map fst (pr_peers r)"
  have d: "distinct ?ids" using assms(1) by (simp add: registry_wf_def bt_wf_distinct)
  have mem: "get_peer r t \<noteq> None \<longleftrightarrow> t \<in> set ?ids" for t by (simp add: get_peer_def map_of_eq_None_iff)
  have "\<exists>ts. select_loop ?ids (min (fan (length (pr_peers r))) (length (pr_peers r))) [] (now_ms XOR pr_instance_seed r) = Some ts \<and>
    distinct ts \<and> set ts \<subseteq> set ?ids \<and> length ts = min (fan (length (pr_peers r))) (length (pr_peers r))"
    using d assms(2) by (intro select_loop_ends) simp_all
  then show ?thesis using d by (auto simp: select_sync_targets_def Let_def mem simp del: set_map not_None_eq)
qed

theorem select_sync_targets_ends_witness:
  "\<exists>ts. select_sync_targets (\<lambda>_. 3) 1700000000000 (fold registry_step (map (\<lambda>p. Register p p) [''a'', ''b'', ''c'', ''d'']) (with_instance_id ''me'')) = Some ts \<and>
     distinct ts \<and> (\<forall>t \<in> set ts. t \<in> {''a'', ''b'', ''c'', ''d''}) \<and> length ts = 3"
proof -
  let ?r = "fold registry_step (map (\<lambda>p. Register p p) [''a'', ''b'', ''c'', ''d'']) (with_instance_id ''me'')"
  have "registry_wf ?r" by (rule registry_wf_run) (simp add: registry_wf_def with_instance_id_def bt_wf_def)
  moreover have "length (pr_peers ?r) = 4" by code_simp
  moreover have "map fst (pr_peers ?r) = [''a'', ''b'', ''c'', ''d'']" by code_simp
  then have "get_peer ?r t \<noteq> None \<longleftrightarrow> t \<in> {''a'', ''b'', ''c'', ''d''}" for t
    unfolding get_peer_def map_of_eq_None_iff set_map [symmetric] by simp
  ultimately show ?thesis using select_sync_targets_ends [of ?r "\<lambda>_. 3" 1700000000000] by simp
qed

end
