(* ===== verification/Silk_Redb.thy ===== *)
theory Silk_Redb
  imports Silk_Prelude
begin

text \<open>
  The embedded key-value database \<^verbatim>\<open>redb\<close> as the code calls it. The crate is not part of the repository, so
  it is a parameter: a record of the calls that \<^verbatim>\<open>store.rs\<close> and \<^verbatim>\<open>obslog.rs\<close> make, each of which may fail
  with a message. A database has type \<open>'d\<close>, a transaction \<open>'t\<close>, and the bytes of a row's value are the
  opaque type \<open>'v\<close>, which only the codecs look into.

  \<open>redb_laws\<close> names what the code relies on, as documented: tables are ordered maps on byte strings, a
  transaction starts from the committed state, a commit publishes exactly what the transaction did,
  and a transaction that is dropped before its commit leaves no trace (the model then simply keeps
  the old database). Reading a row may fail. \<open>redb_up\<close> says that no call fails. The journal
  database at the end of the theory satisfies both, so the hypotheses can hold.
\<close>

declare map_of_eq_Some_iff [simp del] Some_eq_map_of_iff [simp del]

section \<open>Results in sequence\<close>

text \<open>The operator \<^verbatim>\<open>?\<close>.\<close>

fun rbind :: "('e, 'a) result \<Rightarrow> ('a \<Rightarrow> ('e, 'b) result) \<Rightarrow> ('e, 'b) result" where
  "rbind (Inl e) f = Inl e"
| "rbind (Inr x) f = f x"

lemma rbind_Inr_iff: "rbind r f = Inr y \<longleftrightarrow> (\<exists>x. r = Inr x \<and> f x = Inr y)"
  by (cases r) auto

lemma rbind_ok: "\<exists>x. r = Inr x \<Longrightarrow> (\<And>x. \<exists>y. f x = Inr y) \<Longrightarrow> \<exists>y. rbind r f = Inr y"
  by auto

section \<open>The calls\<close>

type_synonym bytes = string

record ('d, 't, 'v) redb =
  rd_begin_write :: "'d \<Rightarrow> (string, 't) result"
  rd_begin_read :: "'d \<Rightarrow> (string, 't) result"
  rd_open_table :: "'t \<Rightarrow> string \<Rightarrow> (string, 't) result"
  rd_insert :: "'t \<Rightarrow> string \<Rightarrow> bytes \<Rightarrow> 'v \<Rightarrow> (string, 't) result"
  rd_remove :: "'t \<Rightarrow> string \<Rightarrow> bytes \<Rightarrow> (string, 't) result"
  rd_iter :: "'t \<Rightarrow> string \<Rightarrow> (string, (string, bytes \<times> 'v) result list) result"
  rd_range :: "'t \<Rightarrow> string \<Rightarrow> bytes \<Rightarrow> bytes \<Rightarrow> (string, (string, bytes \<times> 'v) result list) result"
  rd_commit :: "'t \<Rightarrow> (string, 'd) result"

text \<open>The key of an entry: the 32 bytes of its hash.\<close>

definition hash_bytes :: "hash \<Rightarrow> bytes" where
  "hash_bytes h = map (\<lambda>i. char_of (unat (drop_bit (8 * (31 - i)) h))) [0..<32]"

lemma hash_bytes_inj: "hash_bytes h = hash_bytes h' \<Longrightarrow> h = h'"
proof (rule bit_word_eqI)
  fix n assume eq: "hash_bytes h = hash_bytes h'" and n: "n < LENGTH(256)"
  define j where "j = n div 8"
  have j: "j < 32" "n = 8 * j + n mod 8" "n mod 8 < 8" using n by (auto simp: j_def)
  have "hash_bytes h ! (31 - j) = hash_bytes h' ! (31 - j)" using eq by simp
  then have "(char_of (unat (drop_bit (8 * j) h)) :: char) = char_of (unat (drop_bit (8 * j) h'))"
    using j(1) nth_upt [of 0 "31 - j" 32] by (simp add: hash_bytes_def del: nth_upt upt_rec_numeral char_of_eq_iff)
  then have "of_char (char_of (unat (drop_bit (8 * j) h)) :: char) = (of_char (char_of (unat (drop_bit (8 * j) h')) :: char) :: nat)"
    by (rule arg_cong)
  then have "unat (drop_bit (8 * j) h) mod 256 = unat (drop_bit (8 * j) h') mod 256" by (simp only: of_char_of)
  then have "take_bit 8 (unat (drop_bit (8 * j) h)) = take_bit 8 (unat (drop_bit (8 * j) h'))"
    by (simp add: take_bit_eq_mod)
  then have "bit (unat (drop_bit (8 * j) h)) (n mod 8) = bit (unat (drop_bit (8 * j) h')) (n mod 8)"
    using j(3) by (metis bit_take_bit_iff)
  then show "bit h n = bit h' n" using j n by (simp add: bit_unsigned_iff bit_drop_bit_eq exp_eq_zero_iff)
qed

section \<open>What redb promises\<close>

type_synonym 'v tables = "string \<Rightarrow> (bytes, 'v) btree_map"

definition redb_laws :: "('d, 't, 'v) redb \<Rightarrow> ('t \<Rightarrow> 'v tables) \<Rightarrow> ('d \<Rightarrow> 'v tables) \<Rightarrow> bool" where
  "redb_laws R tv dv \<longleftrightarrow>
     (\<forall>d t. rd_begin_write R d = Inr t \<longrightarrow> tv t = dv d) \<and>
     (\<forall>d t. rd_begin_read R d = Inr t \<longrightarrow> tv t = dv d) \<and>
     (\<forall>t n t'. rd_open_table R t n = Inr t' \<longrightarrow> tv t' = tv t) \<and>
     (\<forall>t n k v t'. rd_insert R t n k v = Inr t' \<longrightarrow> tv t' = (tv t)(n := bt_insert k v (tv t n))) \<and>
     (\<forall>t n k t'. rd_remove R t n k = Inr t' \<longrightarrow> tv t' = (tv t)(n := AList.delete k (tv t n))) \<and>
     (\<forall>t n items. rd_iter R t n = Inr items \<longrightarrow> list_all2 (\<lambda>i kv. isl i \<or> i = Inr kv) items (tv t n)) \<and>
     (\<forall>t n a b items. rd_range R t n a b = Inr items \<longrightarrow>
        list_all2 (\<lambda>i kv. isl i \<or> i = Inr kv) items (filter (\<lambda>(k, _). a \<le> k \<and> k \<le> b) (tv t n))) \<and>
     (\<forall>t d. rd_commit R t = Inr d \<longrightarrow> dv d = tv t) \<and>
     (\<forall>d n. bt_wf (dv d n))"

definition redb_up :: "('d, 't, 'v) redb \<Rightarrow> bool" where
  "redb_up R \<longleftrightarrow>
     (\<forall>d. \<exists>t. rd_begin_write R d = Inr t) \<and> (\<forall>d. \<exists>t. rd_begin_read R d = Inr t) \<and>
     (\<forall>t n. \<exists>t'. rd_open_table R t n = Inr t') \<and> (\<forall>t n k v. \<exists>t'. rd_insert R t n k v = Inr t') \<and>
     (\<forall>t n k. \<exists>t'. rd_remove R t n k = Inr t') \<and> (\<forall>t. \<exists>d. rd_commit R t = Inr d) \<and>
     (\<forall>t n. \<exists>items. rd_iter R t n = Inr items \<and> list_all (\<lambda>i. \<not> isl i) items) \<and>
     (\<forall>t n a b. \<exists>items. rd_range R t n a b = Inr items \<and> list_all (\<lambda>i. \<not> isl i) items)"

lemma redb_lawsD:
  assumes "redb_laws R tv dv"
  shows "rd_begin_write R d = Inr t \<Longrightarrow> tv t = dv d"
    and "rd_begin_read R d = Inr t \<Longrightarrow> tv t = dv d"
    and "rd_open_table R t n = Inr t' \<Longrightarrow> tv t' = tv t"
    and "rd_insert R t n k v = Inr t' \<Longrightarrow> tv t' = (tv t)(n := bt_insert k v (tv t n))"
    and "rd_remove R t n k = Inr t' \<Longrightarrow> tv t' = (tv t)(n := AList.delete k (tv t n))"
    and "rd_iter R t n = Inr items \<Longrightarrow> list_all2 (\<lambda>i kv. isl i \<or> i = Inr kv) items (tv t n)"
    and "rd_range R t n a b = Inr items \<Longrightarrow> list_all2 (\<lambda>i kv. isl i \<or> i = Inr kv) items (filter (\<lambda>(k, _). a \<le> k \<and> k \<le> b) (tv t n))"
    and "rd_commit R t = Inr d \<Longrightarrow> dv d = tv t"
    and "bt_wf (dv d n)"
  using assms unfolding redb_laws_def by simp_all

lemma redb_upE:
  assumes "redb_up R"
  shows "\<exists>t. rd_begin_write R d = Inr t" "\<exists>t. rd_begin_read R d = Inr t" "\<exists>t'. rd_open_table R t n = Inr t'"
    "\<exists>t'. rd_insert R t n k v = Inr t'" "\<exists>t'. rd_remove R t n k = Inr t'" "\<exists>d. rd_commit R t = Inr d"
    "\<exists>items. rd_iter R t n = Inr items \<and> list_all (\<lambda>i. \<not> isl i) items"
    "\<exists>items. rd_range R t n a b = Inr items \<and> list_all (\<lambda>i. \<not> isl i) items"
  using assms unfolding redb_up_def by blast+

lemma all_readable:
  assumes "list_all2 (\<lambda>i kv. isl i \<or> i = Inr kv) items kvs" "list_all (\<lambda>i. \<not> isl i) items"
  shows "items = map Inr kvs"
  using assms by (induction items kvs rule: list_all2_induct) auto

section \<open>A database in memory\<close>

text \<open>A database that is the journal of the writes it received.\<close>

type_synonym 'v journal = "(string \<times> bytes \<times> 'v option) list"

fun replay_write :: "string \<times> bytes \<times> 'v option \<Rightarrow> 'v tables \<Rightarrow> 'v tables" where
  "replay_write (n, k, Some v) ts = ts(n := bt_insert k v (ts n))"
| "replay_write (n, k, None) ts = ts(n := AList.delete k (ts n))"

definition journal_tables :: "'v journal \<Rightarrow> 'v tables" where
  "journal_tables j = fold replay_write j (\<lambda>_. [])"

definition mem_redb :: "('v journal, 'v journal, 'v) redb" where
  "mem_redb = \<lparr>rd_begin_write = Inr, rd_begin_read = Inr, rd_open_table = (\<lambda>t n. Inr t),
     rd_insert = (\<lambda>t n k v. Inr (t @ [(n, k, Some v)])), rd_remove = (\<lambda>t n k. Inr (t @ [(n, k, None)])),
     rd_iter = (\<lambda>t n. Inr (map Inr (journal_tables t n))),
     rd_range = (\<lambda>t n a b. Inr (map Inr (filter (\<lambda>(k, _). a \<le> k \<and> k \<le> b) (journal_tables t n)))), rd_commit = Inr\<rparr>"

lemma journal_wf: "bt_wf (journal_tables j n)"
proof -
  have "\<forall>n. bt_wf (journal_tables j n)"
    unfolding journal_tables_def
  proof (rule fold_inv [where P = "\<lambda>ts. \<forall>n. bt_wf (ts n)"])
    fix w :: "string \<times> bytes \<times> 'a option" and ts :: "'a tables" assume "\<forall>n. bt_wf (ts n)"
    then show "\<forall>n. bt_wf (replay_write w ts n)" by (cases "(w, ts)" rule: replay_write.cases) (auto simp: bt_wf_insert bt_wf_delete)
  qed (simp add: bt_wf_def)
  then show ?thesis by blast
qed

lemma mem_redb_ok: "redb_laws mem_redb journal_tables journal_tables" "redb_up mem_redb"
proof -
  have "list_all2 (\<lambda>i kv. isl i \<or> i = Inr kv) (map Inr kvs) kvs" for kvs :: "(bytes \<times> 'a) list"
    by (induction kvs) auto
  then show "redb_laws (mem_redb :: ('a journal, 'a journal, 'a) redb) journal_tables journal_tables"
    unfolding redb_laws_def by (auto simp: mem_redb_def journal_wf) (simp_all add: journal_tables_def)
  show "redb_up mem_redb" unfolding redb_up_def by (auto simp: mem_redb_def list_all_iff)
qed

end
