(* ===== verification/Silk_Store.thy ===== *)
theory Silk_Store
  imports Silk_Sync Silk_Redb
begin

text \<open>
  The persistent store of \<^verbatim>\<open>src/src/store.rs\<close>: the in-memory log beside a \<^verbatim>\<open>redb\<close> file with the tables
  \<^verbatim>\<open>entries\<close> (hash to encoded entry) and \<^verbatim>\<open>meta\<close> (the heads), written at once or, in deferred mode, from a
  list of pending entries.

  \<^item> \<open>H\<close> is the content hash, \<open>R\<close> the database (\<^verbatim>\<open>Silk_Redb\<close>) and \<open>C\<close> the MessagePack codec of entries and
    heads.
  \<^item> An operation returns the new store with its result: an error after the log was changed leaves
    the log changed, as the \<^verbatim>\<open>&mut self\<close> of the code does.
  \<^item> The worklist of \<^verbatim>\<open>reconstruct_oplog\<close> has no bound in the code: a hash could be queued again. It is a
    partial function, \<open>None\<close> is a run that does not end, and \<^verbatim>\<open>Silk_Reconstruct\<close> shows that it ends.
  \<^item> File permissions and \<^verbatim>\<open>reclaim_disk\<close>, which only asks the crate to shrink the file, are left out; the
    result of \<^verbatim>\<open>Database::create\<close> is an argument of \<open>store_open\<close>.
\<close>

section \<open>State\<close>

datatype flush_mode = Immediate | Deferred

record 'v store_codec =
  sc_entry_bytes :: "entry \<Rightarrow> 'v"
  sc_entry_of :: "'v \<Rightarrow> (string, entry) result"
  sc_heads_bytes :: "hash list \<Rightarrow> (string, 'v) result"

record 'd store =
  st_db :: 'd
  st_oplog :: oplog
  st_flush_mode :: flush_mode
  st_pending :: "entry list"

datatype store_failure =
    Database string
  | CorruptEntry string
  | MergeFailed merge_error
  | NoEntries
  | NoGenesisEntry
  | ReconstructFailed oplog_error
  | UnresolvedEntries nat

datatype store_error = StoreIo store_failure | NoGenesis | StoreOpLog oplog_error

text \<open>\<^verbatim>\<open>map_err(|e| StoreError::Io(e.to_string()))\<close>.\<close>

abbreviation io :: "(string, 'a) result \<Rightarrow> (store_error, 'a) result" where
  "io r \<equiv> map_sum (\<lambda>e. StoreIo (Database e)) id r"

section \<open>Writing\<close>

fun write_entries :: "('d, 't, 'v) redb \<Rightarrow> 'v store_codec \<Rightarrow> entry list \<Rightarrow> 't \<Rightarrow> (string, 't) result" where
  "write_entries R C [] t = Inr t"
| "write_entries R C (e # es) t =
     rbind (rd_insert R t ''entries'' (hash_bytes (en_hash e)) (sc_entry_bytes C e)) (write_entries R C es)"

definition write_heads :: "('d, 't, 'v) redb \<Rightarrow> 'v store_codec \<Rightarrow> hash list \<Rightarrow> 't \<Rightarrow> (string, 't) result" where
  "write_heads R C heads t =
     rbind (rd_open_table R t ''meta'') (\<lambda>t1.
     rbind (sc_heads_bytes C heads) (\<lambda>heads_bytes.
     rd_insert R t1 ''meta'' ''heads'' heads_bytes))"

definition persist_entry_and_heads :: "('d, 't, 'v) redb \<Rightarrow> 'v store_codec \<Rightarrow> 'd \<Rightarrow> oplog \<Rightarrow> entry \<Rightarrow> (store_error, 'd) result" where
  "persist_entry_and_heads R C db log e =
     io (rbind (rd_begin_write R db) (\<lambda>t.
         rbind (rd_open_table R t ''entries'') (\<lambda>t1.
         rbind (rd_insert R t1 ''entries'' (hash_bytes (en_hash e)) (sc_entry_bytes C e)) (\<lambda>t2.
         rbind (write_heads R C (ol_heads log) t2) (rd_commit R)))))"

definition persist_entries_and_heads :: "('d, 't, 'v) redb \<Rightarrow> 'v store_codec \<Rightarrow> 'd \<Rightarrow> oplog \<Rightarrow> entry list \<Rightarrow> (store_error, 'd) result" where
  "persist_entries_and_heads R C db log es =
     io (rbind (rd_begin_write R db) (\<lambda>t.
         rbind (rd_open_table R t ''entries'') (\<lambda>t1.
         rbind (write_entries R C es t1) (\<lambda>t2.
         rbind (write_heads R C (ol_heads log) t2) (rd_commit R)))))"

definition store_append :: "content_hash \<Rightarrow> ('d, 't, 'v) redb \<Rightarrow> 'v store_codec \<Rightarrow> 'd store \<Rightarrow> entry \<Rightarrow>
    'd store \<times> (store_error, bool) result" where
  "store_append H R C s e =
     (case oplog_append H (st_oplog s) e of
        (log, Inl err) \<Rightarrow> (s\<lparr>st_oplog := log\<rparr>, Inl (StoreOpLog err))
      | (log, Inr inserted) \<Rightarrow>
          (let s1 = s\<lparr>st_oplog := log\<rparr> in
           if \<not> inserted then (s1, Inr inserted)
           else case st_flush_mode s1 of
             Immediate \<Rightarrow> (case persist_entry_and_heads R C (st_db s1) log e of
                 Inl err \<Rightarrow> (s1, Inl err) | Inr db \<Rightarrow> (s1\<lparr>st_db := db\<rparr>, Inr inserted))
           | Deferred \<Rightarrow> (s1\<lparr>st_pending := st_pending s1 @ [e]\<rparr>, Inr inserted)))"

definition set_flush_mode :: "'d store \<Rightarrow> flush_mode \<Rightarrow> 'd store" where
  "set_flush_mode s mode = s\<lparr>st_flush_mode := mode\<rparr>"

definition store_flush :: "('d, 't, 'v) redb \<Rightarrow> 'v store_codec \<Rightarrow> 'd store \<Rightarrow> 'd store \<times> (store_error, nat) result" where
  "store_flush R C s =
     (if st_pending s = [] then (s, Inr 0)
      else let count = length (st_pending s); entries = st_pending s; s1 = s\<lparr>st_pending := []\<rparr> in
        case persist_entries_and_heads R C (st_db s1) (st_oplog s1) entries of
          Inl err \<Rightarrow> (s1, Inl err)
        | Inr db \<Rightarrow> (s1\<lparr>st_db := db\<rparr>, Inr count))"

definition pending_count :: "'d store \<Rightarrow> nat" where
  "pending_count s = length (st_pending s)"

text \<open>The merge loop of the store: that of \<^verbatim>\<open>sync.rs\<close>, collecting the new entries.\<close>

fun store_merge_pass :: "content_hash \<Rightarrow> oplog \<Rightarrow> entry list \<Rightarrow> nat \<Rightarrow> entry list \<Rightarrow> entry list \<Rightarrow>
    oplog \<times> (merge_error, nat \<times> entry list \<times> entry list) result" where
  "store_merge_pass H log [] inserted new_entries next_remaining = (log, Inr (inserted, new_entries, next_remaining))"
| "store_merge_pass H log (e # es) inserted new_entries next_remaining =
     (case oplog_append H log e of
        (log', Inr True) \<Rightarrow> store_merge_pass H log' es (inserted + 1) (new_entries @ [e]) next_remaining
      | (log', Inr False) \<Rightarrow> store_merge_pass H log' es inserted new_entries next_remaining
      | (log', Inl (MissingParent _)) \<Rightarrow> store_merge_pass H log' es inserted new_entries (next_remaining @ [e])
      | (log', Inl InvalidHash) \<Rightarrow> (log', Inl (InvalidEntryHash (en_hash e))))"

fun store_merge_loop :: "content_hash \<Rightarrow> nat \<Rightarrow> oplog \<Rightarrow> entry list \<Rightarrow> nat \<Rightarrow> entry list \<Rightarrow>
    oplog \<times> (merge_error, nat \<times> entry list) result" where
  "store_merge_loop H 0 log remaining inserted new_entries = (log, Inr (inserted, new_entries))"
| "store_merge_loop H (Suc max_passes) log remaining inserted new_entries =
     (if remaining = [] then (log, Inr (inserted, new_entries))
      else case store_merge_pass H log remaining inserted new_entries [] of
        (log', Inl err) \<Rightarrow> (log', Inl err)
      | (log', Inr (inserted', new_entries', next_remaining)) \<Rightarrow>
          if length next_remaining = length remaining then (log', Inl (UnresolvableParents (length remaining)))
          else store_merge_loop H max_passes log' next_remaining inserted' new_entries')"

definition store_merge :: "content_hash \<Rightarrow> ('d, 't, 'v) redb \<Rightarrow> 'v store_codec \<Rightarrow> 'd store \<Rightarrow> entry list \<Rightarrow>
    'd store \<times> (store_error, nat) result" where
  "store_merge H R C s entries =
     (case store_merge_loop H (length entries + 1) (st_oplog s) entries 0 [] of
        (log, Inl err) \<Rightarrow> (s\<lparr>st_oplog := log\<rparr>, Inl (StoreIo (MergeFailed err)))
      | (log, Inr (inserted, new_entries)) \<Rightarrow>
          (let s1 = s\<lparr>st_oplog := log\<rparr> in
           if new_entries = [] then (s1, Inr inserted)
           else case st_flush_mode s1 of
             Immediate \<Rightarrow> (case persist_entries_and_heads R C (st_db s1) log new_entries of
                 Inl err \<Rightarrow> (s1, Inl err) | Inr db \<Rightarrow> (s1\<lparr>st_db := db\<rparr>, Inr inserted))
           | Deferred \<Rightarrow> (s1\<lparr>st_pending := st_pending s1 @ new_entries\<rparr>, Inr inserted)))"

text \<open>Compaction: every row that can be read is removed, then the checkpoint is inserted.\<close>

fun remove_keys :: "('d, 't, 'v) redb \<Rightarrow> bytes list \<Rightarrow> 't \<Rightarrow> (string, 't) result" where
  "remove_keys R [] t = Inr t"
| "remove_keys R (k # ks) t = rbind (rd_remove R t ''entries'' k) (remove_keys R ks)"

definition readable_keys :: "(string, bytes \<times> 'v) result list \<Rightarrow> bytes list" where
  "readable_keys items = List.map_filter (\<lambda>r. case r of Inl _ \<Rightarrow> None | Inr (k, _) \<Rightarrow> Some k) items"

definition store_replace_with_checkpoint :: "('d, 't, 'v) redb \<Rightarrow> 'v store_codec \<Rightarrow> 'd store \<Rightarrow> entry \<Rightarrow>
    'd store \<times> (store_error, unit) result" where
  "store_replace_with_checkpoint R C s checkpoint =
     (case io (rbind (rd_begin_write R (st_db s)) (\<lambda>t.
               rbind (rd_open_table R t ''entries'') (\<lambda>t1.
               rbind (rd_iter R t1 ''entries'') (\<lambda>items.
               rbind (remove_keys R (readable_keys items) t1) (\<lambda>t2.
               rbind (rd_insert R t2 ''entries'' (hash_bytes (en_hash checkpoint)) (sc_entry_bytes C checkpoint)) (\<lambda>t3.
               rbind (write_heads R C [en_hash checkpoint] t3) (rd_commit R))))))) of
        Inl err \<Rightarrow> (s, Inl err)
      | Inr db \<Rightarrow> (s\<lparr>st_db := db, st_oplog := oplog_replace_with_checkpoint checkpoint\<rparr>, Inr ()))"

section \<open>Opening\<close>

fun decode_entries :: "'v store_codec \<Rightarrow> (string, bytes \<times> 'v) result list \<Rightarrow> (store_error, entry list) result" where
  "decode_entries C [] = Inr []"
| "decode_entries C (item # items) =
     (case item of Inl err \<Rightarrow> Inl (StoreIo (Database err))
      | Inr (_, bs) \<Rightarrow>
        (case sc_entry_of C bs of Inl err \<Rightarrow> Inl (StoreIo (CorruptEntry err))
         | Inr e \<Rightarrow> rbind (decode_entries C items) (\<lambda>es. Inr (e # es))))"

definition load_entries :: "('d, 't, 'v) redb \<Rightarrow> 'v store_codec \<Rightarrow> 'd \<Rightarrow> (store_error, entry list) result" where
  "load_entries R C db =
     rbind (io (rd_begin_read R db)) (\<lambda>t.
       case rd_open_table R t ''entries'' of Inl _ \<Rightarrow> Inr []
       | Inr t1 \<Rightarrow> rbind (io (rd_iter R t1 ''entries'')) (decode_entries C))"

text \<open>The reverse index of \<^verbatim>\<open>reconstruct_oplog\<close> and the parents each entry still waits for.\<close>

fun block_on_parents :: "hash \<Rightarrow> hash list \<Rightarrow> (hash, hash list) hash_map \<Rightarrow> (hash, hash list) hash_map" where
  "block_on_parents h [] children = children"
| "block_on_parents h (p # ps) children =
     block_on_parents h ps
       (hm_insert p ((case hm_get children p of None \<Rightarrow> [] | Some kids \<Rightarrow> kids) @ [h]) children)"

fun block_entries :: "hash hash_set \<Rightarrow> (hash \<times> entry) list \<Rightarrow> (hash, hash list) hash_map \<Rightarrow> (hash, hash hash_set) hash_map \<Rightarrow>
    (hash, hash list) hash_map \<times> (hash, hash hash_set) hash_map" where
  "block_entries resolved [] children pend = (children, pend)"
| "block_entries resolved ((h, e) # es) children pend =
     (if h \<in> set resolved then block_entries resolved es children pend
      else block_entries resolved es (block_on_parents h (remdups (en_next e)) children) (hm_insert h (remdups (en_next e)) pend))"

text \<open>An entry was appended: its children wait for one parent less.\<close>

fun unblock_kids :: "hash \<Rightarrow> hash list \<Rightarrow> (hash, hash hash_set) hash_map \<Rightarrow> hash list \<Rightarrow> (hash, hash hash_set) hash_map \<times> hash list" where
  "unblock_kids h [] pend ready = (pend, ready)"
| "unblock_kids h (k # ks) pend ready =
     (case hm_get pend k of None \<Rightarrow> unblock_kids h ks pend ready
      | Some pp \<Rightarrow>
        (let pp' = hs_remove h pp in
         unblock_kids h ks (hm_insert k pp' pend) (if pp' = [] then ready @ [k] else ready)))"

definition unblock :: "(hash, hash list) hash_map \<Rightarrow> hash \<Rightarrow> (hash, hash hash_set) hash_map \<times> hash list \<Rightarrow>
    (hash, hash hash_set) hash_map \<times> hash list" where
  "unblock children h st =
     (case hm_get children h of None \<Rightarrow> st | Some kids \<Rightarrow> unblock_kids h kids (fst st) (snd st))"

partial_function (option) ready_loop :: "content_hash \<Rightarrow> (hash, entry) hash_map \<Rightarrow> (hash, hash list) hash_map \<Rightarrow> oplog \<Rightarrow>
    (hash, hash hash_set) hash_map \<Rightarrow> hash list \<Rightarrow> (store_error, oplog \<times> (hash, hash hash_set) hash_map) result option" where
  "ready_loop H by_hash children log pend ready =
     (case ready of [] \<Rightarrow> Some (Inr (log, pend))
      | h # rest \<Rightarrow>
        (case hm_get by_hash h of None \<Rightarrow> ready_loop H by_hash children log pend rest
         | Some e \<Rightarrow>
           (case snd (oplog_append H log e) of Inl err \<Rightarrow> Some (Inl (StoreIo (ReconstructFailed err)))
            | Inr _ \<Rightarrow>
              ready_loop H by_hash children (fst (oplog_append H log e))
                (fst (unblock children h (pend, rest))) (snd (unblock children h (pend, rest))))))"

declare ready_loop.simps [code]

definition reconstruct_oplog :: "content_hash \<Rightarrow> entry list \<Rightarrow> (store_error, oplog) result option" where
  "reconstruct_oplog H entries =
     (if entries = [] then Some (Inl (StoreIo NoEntries))
      else
        let by_hash = fold (\<lambda>e. hm_insert (en_hash e) e) entries [];
            roots = filter (\<lambda>e. en_next e = []) entries in
        case roots of [] \<Rightarrow> Some (Inl (StoreIo NoGenesisEntry))
        | genesis # others \<Rightarrow>
          (let log = fold (\<lambda>root log. fst (oplog_append H log root)) others (oplog_new genesis);
               resolved = fold (\<lambda>root. hs_insert (en_hash root)) others [en_hash genesis];
               (children, pend) = block_entries resolved by_hash [] [];
               (pend1, ready) = fold (unblock children) resolved (pend, []) in
           case ready_loop H by_hash children log pend1 ready of None \<Rightarrow> None
           | Some (Inl err) \<Rightarrow> Some (Inl err)
           | Some (Inr (log', pend2)) \<Rightarrow>
             (let unresolved = filter (\<lambda>(_, parents). parents \<noteq> []) pend2 in
              if unresolved \<noteq> [] then Some (Inl (StoreIo (UnresolvedEntries (length unresolved))))
              else Some (Inr log'))))"

definition open_tables :: "('d, 't, 'v) redb \<Rightarrow> 'd \<Rightarrow> (string, 'd) result" where
  "open_tables R db =
     rbind (rd_begin_write R db) (\<lambda>t.
     rbind (rd_open_table R t ''entries'') (\<lambda>t1.
     rbind (rd_open_table R t1 ''meta'') (rd_commit R)))"

definition store_open :: "content_hash \<Rightarrow> ('d, 't, 'v) redb \<Rightarrow> 'v store_codec \<Rightarrow> (string, 'd) result \<Rightarrow> entry option \<Rightarrow>
    (store_error, 'd store) result option" where
  "store_open H R C created genesis =
     (case rbind (io created) (\<lambda>db.
            rbind (io (open_tables R db)) (\<lambda>db1.
            rbind (load_entries R C db1) (\<lambda>existing. Inr (db1, existing)))) of
        Inl err \<Rightarrow> Some (Inl err)
      | Inr (db, existing_entries) \<Rightarrow>
          if existing_entries \<noteq> [] then
            map_option (\<lambda>r. rbind r (\<lambda>log.
              Inr \<lparr>st_db = db, st_oplog = log, st_flush_mode = Immediate, st_pending = []\<rparr>)) (reconstruct_oplog H existing_entries)
          else case genesis of None \<Rightarrow> Some (Inl NoGenesis)
          | Some g \<Rightarrow>
              Some (rbind (persist_entry_and_heads R C db (oplog_new g) g) (\<lambda>db1.
                Inr \<lparr>st_db = db1, st_oplog = oplog_new g, st_flush_mode = Immediate, st_pending = []\<rparr>)))"

end
