(* ===== verification/Silk_Reconstruct.thy ===== *)
theory Silk_Reconstruct
  imports Silk_Store Silk_Convergence
begin

text \<open>
  Rebuilding the log from an unordered list of entries, \<^verbatim>\<open>Store::reconstruct_oplog\<close>: the worklist ends, no
  append fails, and the log that comes out holds the same entries, whatever the order of the list.
\<close>

declare map_of_eq_Some_iff [simp del] Some_eq_map_of_iff [simp del]

section \<open>The reverse index\<close>

abbreviation kids_of :: "(hash, hash list) hash_map \<Rightarrow> hash \<Rightarrow> hash list" where
  "kids_of children p \<equiv> (case hm_get children p of None \<Rightarrow> [] | Some kids \<Rightarrow> kids)"

lemma kids_block_on_parents:
  "distinct ps \<Longrightarrow> kids_of (block_on_parents h ps children) p = kids_of children p @ (if p \<in> set ps then [h] else [])"
  by (induction ps arbitrary: children) (auto simp: update_conv')

lemma block_entries_spec:
  assumes "block_entries resolved es children pend = (children', pend')" "hm_wf es"
  shows "kids_of children' p = kids_of children p @ map fst (filter (\<lambda>(h, e). h \<notin> set resolved \<and> p \<in> set (en_next e)) es)"
    and "map_of pend' h = (case map_of es h of Some e \<Rightarrow> if h \<in> set resolved then map_of pend h else Some (remdups (en_next e))
          | None \<Rightarrow> map_of pend h)"
    and "hm_wf pend \<Longrightarrow> hm_wf pend'"
  using assms
proof (induction resolved es children pend rule: block_entries.induct)
  case (2 resolved h' e es children pend)
  {
    case 1
    with 2 show ?case by (auto simp: kids_block_on_parents split: if_splits)
  next
    case 2
    have "map_of es h' = None" using 2(2) by (auto simp: map_of_eq_None_iff)
    with 2 "2.IH"(2,5) show ?case by (auto simp: update_conv' split: if_splits option.splits)
  next
    case 3
    with "2.IH"(3,6) show ?case by (auto simp: distinct_update split: if_splits)
  }
qed simp_all

lemma unblock_eq: "unblock children h st = unblock_kids h (kids_of children h) (fst st) (snd st)"
  by (auto simp: unblock_def split: option.splits)

lemma unblock_kids_spec:
  "distinct ks \<Longrightarrow> unblock_kids h ks pend ready = (pend', ready') \<Longrightarrow>
    (\<forall>k. map_of pend' k = (if k \<in> set ks then map_option (hs_remove h) (map_of pend k) else map_of pend k)) \<and>
    ready' = ready @ filter (\<lambda>k. map_option (hs_remove h) (map_of pend k) = Some []) ks \<and>
    (hm_wf pend \<longrightarrow> hm_wf pend')"
proof (induction ks arbitrary: pend ready)
  case (Cons k ks)
  show ?case
  proof (cases "map_of pend k")
    case None
    with Cons show ?thesis by auto
  next
    case (Some pp)
    let ?pend1 = "hm_insert k (hs_remove h pp) pend"
    have "unblock_kids h ks ?pend1 (if hs_remove h pp = [] then ready @ [k] else ready) = (pend', ready')"
      using Cons.prems(2) Some by (simp add: Let_def)
    from Cons.IH [OF _ this] Cons.prems(1)
    have IH: "\<forall>j. map_of pend' j = (if j \<in> set ks then map_option (hs_remove h) (map_of ?pend1 j) else map_of ?pend1 j)"
      "ready' = (if hs_remove h pp = [] then ready @ [k] else ready) @ filter (\<lambda>k. map_option (hs_remove h) (map_of ?pend1 k) = Some []) ks"
      "hm_wf ?pend1 \<longrightarrow> hm_wf pend'" by auto
    have "filter (\<lambda>k. map_option (hs_remove h) (map_of ?pend1 k) = Some []) ks = filter (\<lambda>k. map_option (hs_remove h) (map_of pend k) = Some []) ks"
      using Cons.prems(1) by (intro filter_cong) (auto simp: update_conv')
    then show ?thesis using IH Some Cons.prems(1) by (auto simp: update_conv' distinct_update)
  qed
qed auto

section \<open>The worklist\<close>

text \<open>\<open>N\<close> maps the entries that are not roots; \<open>D\<close> are the hashes whose children were unblocked.\<close>

definition enabled :: "(hash \<rightharpoonup> entry) \<Rightarrow> hash set \<Rightarrow> hash set" where
  "enabled N D = {h. \<exists>e. N h = Some e \<and> set (en_next e) \<subseteq> D}"

definition blocked_on :: "(hash \<rightharpoonup> entry) \<Rightarrow> hash set \<Rightarrow> hash \<rightharpoonup> hash list" where
  "blocked_on N D h = map_option (\<lambda>e. filter (\<lambda>p. p \<notin> D) (remdups (en_next e))) (N h)"

definition kids_ok :: "(hash \<rightharpoonup> entry) \<Rightarrow> (hash, hash list) hash_map \<Rightarrow> bool" where
  "kids_ok N children \<longleftrightarrow> (\<forall>p. distinct (kids_of children p) \<and> set (kids_of children p) = {h. \<exists>e. N h = Some e \<and> p \<in> set (en_next e)})"

definition work_inv :: "(hash \<rightharpoonup> entry) \<Rightarrow> hash set \<Rightarrow> (hash, hash hash_set) hash_map \<Rightarrow> bool" where
  "work_inv N D pend \<longleftrightarrow> map_of pend = blocked_on N D \<and> hm_wf pend \<and> D \<inter> dom N \<subseteq> enabled N D"

lemma hs_remove_filter: "hs_remove h (filter (\<lambda>p. p \<notin> D) xs) = filter (\<lambda>p. p \<notin> insert h D) xs"
  by (induction xs) (auto simp: hs_remove_def)

lemma unblock_step:
  assumes inv: "work_inv N D pend" and kids: "kids_ok N children"
    and ready: "set ready = enabled N D - insert h D" "distinct ready"
    and h: "h \<notin> D" "h \<in> dom N \<Longrightarrow> h \<in> enabled N D"
    and st: "unblock children h (pend, ready) = (pend', ready')"
  shows "work_inv N (insert h D) pend' \<and> set ready' = enabled N (insert h D) - insert h D \<and> distinct ready'"
proof -
  let ?ks = "kids_of children h"
  have ks: "distinct ?ks" "set ?ks = {k. \<exists>e. N k = Some e \<and> h \<in> set (en_next e)}"
    using kids by (auto simp: kids_ok_def)
  have "unblock_kids h ?ks pend ready = (pend', ready')" using st by (simp only: unblock_eq fst_conv snd_conv)
  note u = unblock_kids_spec [OF ks(1) this, THEN conjunct1, rule_format]
    unblock_kids_spec [OF ks(1) this, THEN conjunct2, THEN conjunct1]
    unblock_kids_spec [OF ks(1) this, THEN conjunct2, THEN conjunct2]
  have pend: "map_of pend = blocked_on N D" using inv by (simp add: work_inv_def)
  have removed: "map_option (hs_remove h) (blocked_on N D k) = blocked_on N (insert h D) k" for k
    by (simp add: blocked_on_def hs_remove_filter option.map_comp comp_def)
  have "blocked_on N (insert h D) k = blocked_on N D k" if "k \<notin> set ?ks" for k
    using that unfolding ks(2) blocked_on_def by (cases "N k") (auto intro!: filter_cong)
  then have "map_of pend' = blocked_on N (insert h D)" by (auto simp: u(1) pend removed fun_eq_iff)
  moreover have mono: "enabled N D \<subseteq> enabled N (insert h D)" by (auto simp: enabled_def)
  moreover have "insert h D \<inter> dom N \<subseteq> enabled N (insert h D)"
    using inv h(2) mono by (auto simp: work_inv_def)
  ultimately have "work_inv N (insert h D) pend'" using u(3) inv by (simp add: work_inv_def)
  moreover have new: "set (filter (\<lambda>k. map_option (hs_remove h) (map_of pend k) = Some []) ?ks) = {k \<in> set ?ks. k \<in> enabled N (insert h D)}"
    unfolding pend removed set_filter by (auto simp: blocked_on_def enabled_def filter_empty_conv)
  have fresh: "k \<notin> insert h D \<and> k \<notin> enabled N D" if k: "k \<in> set ?ks" for k
  proof -
    obtain e where e: "N k = Some e" "h \<in> set (en_next e)" using k unfolding ks(2) by blast
    then have "k \<notin> enabled N D" using h(1) by (auto simp: enabled_def)
    moreover have "k \<in> dom N" using e(1) by blast
    ultimately show ?thesis using h(2) inv by (auto simp: work_inv_def)
  qed
  have "enabled N (insert h D) - enabled N D \<subseteq> set ?ks" using ks(2) by (auto simp: enabled_def)
  then have "set ready' = enabled N (insert h D) - insert h D"
    unfolding u(2) set_append ready(1) new using mono fresh by blast
  moreover have "distinct ready'" unfolding u(2) using ready ks(1) fresh by auto
  ultimately show ?thesis by blast
qed

lemma unblock_roots:
  assumes kids: "kids_ok N children"
  shows "work_inv N D pend \<Longrightarrow> set ready = enabled N D - D \<Longrightarrow> distinct ready \<Longrightarrow> distinct rs \<Longrightarrow> set rs \<inter> D = {} \<Longrightarrow>
    set rs \<inter> dom N = {} \<Longrightarrow> fold (unblock children) rs (pend, ready) = (pend', ready') \<Longrightarrow>
    work_inv N (D \<union> set rs) pend' \<and> set ready' = enabled N (D \<union> set rs) - (D \<union> set rs) \<and> distinct ready'"
proof (induction rs arbitrary: D pend ready)
  case (Cons r rs)
  obtain pend1 ready1 where u: "unblock children r (pend, ready) = (pend1, ready1)" by fastforce
  have "enabled N D - D = enabled N D - insert r D" using Cons.prems(6) by (auto simp: enabled_def)
  then have "work_inv N (insert r D) pend1 \<and> set ready1 = enabled N (insert r D) - insert r D \<and> distinct ready1"
    using Cons.prems by (intro unblock_step [OF _ kids _ _ _ _ u]) auto
  then show ?case using Cons.IH [of "insert r D" pend1 ready1] Cons.prems u by auto
qed simp

section \<open>Appending along the worklist\<close>

definition ordinary :: "entry \<Rightarrow> bool" where
  "ordinary e \<longleftrightarrow> \<not> (en_next e = [] \<and> is_checkpoint (en_payload e))"

text \<open>The part of a log that lies in \<open>S\<close>.\<close>

definition part_of :: "content_hash \<Rightarrow> oplog \<Rightarrow> hash set \<Rightarrow> oplog \<Rightarrow> bool" where
  "part_of H A S L \<longleftrightarrow> oplog_inv H L \<and> oplog_get L = oplog_get A |` S"

lemma append_part:
  assumes A: "oplog_inv H A" "oplog_get A h = Some e" and L: "part_of H A S L"
    and new: "h \<notin> S" "set (en_next e) \<subseteq> S" "ordinary e"
  shows "\<exists>L'. oplog_append H L e = (L', Inr True) \<and> part_of H A (insert h S) L'"
proof -
  have h: "en_hash e = h" and v: "verify_hash H e" using oplog_invD(2) [OF A(1)] A(2) by (simp_all add: oplog_get_def)
  have inv: "oplog_inv H L" and get: "oplog_get L = oplog_get A |` S" using L by (simp_all add: part_of_def)
  have "set (en_next e) \<subseteq> stored A"
    using A(2) stored_invD(3) [OF A(1)] by (auto simp: causal_def oplog_get_def Domain_iff)
  then have par: "set (en_next e) \<subseteq> stored L" and fresh: "en_hash e \<notin> stored L" using new h by (auto simp: get)
  have "find (\<lambda>p. \<not> hm_contains (ol_entries L) p) (en_next e) = None"
    using par by (auto simp: find_None_list_all hm_contains_iff keys_stored)
  then have "oplog_append H L e = (insert_entry L e, Inr True)"
    using v fresh new(3) by (auto simp: oplog_append_def hm_contains_iff keys_stored ordinary_def)
  moreover have "oplog_get (insert_entry L e) = (oplog_get L)(en_hash e \<mapsto> e)"
    by (simp add: oplog_get_def insert_entry_simps update_conv' fun_eq_iff)
  then have "oplog_get (insert_entry L e) = oplog_get A |` insert h S"
    using h A(2) by (auto simp: get restrict_map_def fun_eq_iff)
  ultimately show ?thesis
    using insert_entry_inv [OF inv v fresh [folded keys_stored] par [folded keys_stored]] by (auto simp: part_of_def)
qed

lemma restrict_superset: "dom m \<subseteq> D \<Longrightarrow> m |` D = m"
  by (rule ext) (metis domIff restrict_in restrict_out subsetD)

lemma ready_loop_ends:
  assumes A: "oplog_inv H A" "\<And>h. map_of by_hash h = oplog_get A h" and kids: "kids_ok N children"
    and N: "N = oplog_get A |` (- set res)" "\<forall>h e. N h = Some e \<longrightarrow> en_next e \<noteq> []"
  shows "work_inv N D pend \<Longrightarrow> set ready = enabled N D - D \<Longrightarrow> distinct ready \<Longrightarrow> set res \<subseteq> D \<Longrightarrow> part_of H A D L \<Longrightarrow>
    \<exists>D' pend' L'. ready_loop H by_hash children L pend ready = Some (Inr (L', pend')) \<and>
      D \<subseteq> D' \<and> work_inv N D' pend' \<and> enabled N D' \<subseteq> D' \<and> part_of H A D' L'"
proof (induction "card (UNIV - D)" arbitrary: D pend ready L rule: less_induct)
  case less
  show ?case
  proof (cases ready)
    case Nil
    then have "ready_loop H by_hash children L pend ready = Some (Inr (L, pend))" by (simp add: ready_loop.simps)
    with Nil less.prems show ?thesis by auto
  next
    case (Cons h rest)
    then have h: "h \<in> enabled N D" "h \<notin> D" using less.prems(2) by auto
    then obtain e where e: "N h = Some e" "set (en_next e) \<subseteq> D" by (auto simp: enabled_def)
    then have get: "oplog_get A h = Some e" by (auto simp: N(1) restrict_map_def split: if_splits)
    have "ordinary e" using N(2) e(1) by (auto simp: ordinary_def)
    then obtain L1 where app: "oplog_append H L e = (L1, Inr True)" and L1: "part_of H A (insert h D) L1"
      using append_part [OF A(1) get less.prems(5) h(2) e(2)] by blast
    obtain pend1 ready1 where u: "unblock children h (pend, rest) = (pend1, ready1)" by fastforce
    have "set rest = enabled N D - insert h D" "distinct rest" using less.prems(2,3) Cons by auto
    from unblock_step [OF less.prems(1) kids this h(2) _ u]
    have step: "work_inv N (insert h D) pend1" "set ready1 = enabled N (insert h D) - insert h D" "distinct ready1"
      using h(1) by auto
    have "card (UNIV - insert h D) < card (UNIV - D)" using h(2) by (intro psubset_card_mono) auto
    from less.hyps [OF this step _ L1] less.prems(4)
    obtain D' pend' L' where r: "ready_loop H by_hash children L1 pend1 ready1 = Some (Inr (L', pend'))"
      "insert h D \<subseteq> D'" "work_inv N D' pend'" "enabled N D' \<subseteq> D'" "part_of H A D' L'" by blast
    have "ready_loop H by_hash children L pend ready = ready_loop H by_hash children L1 pend1 ready1"
      by (subst ready_loop.simps) (simp add: Cons A(2) get app u)
    then show ?thesis using r by auto
  qed
qed

text \<open>A worklist that is empty has reached every entry whose ancestors are all there.\<close>

lemma all_reached:
  assumes A: "oplog_inv H A" and N: "N = oplog_get A |` (- R)" and "R \<subseteq> D" "enabled N D \<subseteq> D"
  shows "stored A \<subseteq> D"
proof
  fix h assume "h \<in> stored A"
  have "wf (causal A)"
  proof (rule finite_acyclic_wf)
    have "causal A \<subseteq> stored A \<times> stored A" using causal_stored [OF A] by auto
    moreover have "finite (stored A)" by (simp add: keys_stored [symmetric])
    ultimately show "finite (causal A)" by (meson finite_SigmaI finite_subset)
    show "acyclic (causal A)" by (rule stored_invD(9) [OF A])
  qed
  then show "h \<in> D" using \<open>h \<in> stored A\<close>
  proof (induction h rule: wf_induct_rule)
    case (less h)
    then obtain e where e: "oplog_get A h = Some e" by blast
    show ?case
    proof (cases "h \<in> R")
      case False
      have "set (en_next e) \<subseteq> D"
      proof
        fix p assume "p \<in> set (en_next e)"
        then have "(p, h) \<in> causal A" using e by (auto simp: causal_def oplog_get_def)
        then show "p \<in> D" using less.IH causal_stored [OF A] by blast
      qed
      then have "h \<in> enabled N D" using e False by (auto simp: enabled_def N)
      then show ?thesis using assms(4) by blast
    qed (use assms(3) in blast)
  qed
qed

text \<open>A checkpoint is the only root of its log.\<close>

definition rebuildable :: "oplog \<Rightarrow> bool" where
  "rebuildable A \<longleftrightarrow> (\<forall>h e h' e'. oplog_get A h = Some e \<and> oplog_get A h' = Some e' \<and> en_next e = [] \<and> en_next e' = [] \<and> h \<noteq> h' \<longrightarrow>
     ordinary e)"

text \<open>The entries of a log in some order.\<close>

definition lists_log :: "entry list \<Rightarrow> oplog \<Rightarrow> bool" where
  "lists_log es A \<longleftrightarrow> distinct (map en_hash es) \<and> (\<forall>e. e \<in> set es \<longleftrightarrow> oplog_get A (en_hash e) = Some e)"

lemma index_entries: "distinct (map en_hash es) \<Longrightarrow> en_hash ` set es \<inter> hm_keys m = {} \<Longrightarrow>
  fold (\<lambda>e. hm_insert (en_hash e) e) es m = m @ map (\<lambda>e. (en_hash e, e)) es"
  by (induction es arbitrary: m) (auto simp: hm_insert_fresh)

lemma by_hash_get:
  assumes A: "oplog_inv H A" and es: "lists_log es A"
  shows "map_of (map (\<lambda>e. (en_hash e, e)) es) h = oplog_get A h"
proof (cases "oplog_get A h")
  case None
  have "h \<notin> en_hash ` set es" using es None by (auto simp: lists_log_def)
  then have "map_of (map (\<lambda>e. (en_hash e, e)) es) h = None" by (simp add: map_of_eq_None_iff image_image)
  with None show ?thesis by simp
next
  case (Some e)
  then have "en_hash e = h" using oplog_invD(2) [OF A] by (simp add: oplog_get_def)
  then have "(h, e) \<in> set (map (\<lambda>e. (en_hash e, e)) es)" using es Some by (auto simp: lists_log_def)
  then show ?thesis using es Some by (simp add: lists_log_def map_of_eq_Some_iff comp_def)
qed

lemma has_root:
  assumes "oplog_inv H A" "lists_log es A" "es \<noteq> []"
  shows "filter (\<lambda>e. en_next e = []) es \<noteq> []"
proof -
  obtain e where e: "e \<in> set es" using assms(3) by (cases es) auto
  let ?R = "en_hash ` set (filter (\<lambda>e. en_next e = []) es)"
  have "?R \<noteq> {}"
  proof
    assume none: "?R = {}"
    have "enabled (oplog_get A |` (- {})) {} \<subseteq> {}"
    proof
      fix h assume "h \<in> enabled (oplog_get A |` (- {})) {}"
      then obtain r where r: "oplog_get A h = Some r" "en_next r = []" by (auto simp: enabled_def)
      then have "en_hash r = h" using oplog_invD(2) [OF assms(1)] by (simp add: oplog_get_def)
      then show "h \<in> {}" using r none assms(2) by (auto simp: lists_log_def)
    qed
    then have "stored A \<subseteq> {}" using all_reached [OF assms(1) refl, of "{}" "{}"] by blast
    then show False using e assms(2) by (auto simp: lists_log_def)
  qed
  then show ?thesis by (auto simp del: set_filter)
qed

lemma append_roots:
  assumes A: "oplog_inv H A"
  shows "part_of H A S L \<Longrightarrow> distinct (map en_hash rs) \<Longrightarrow> en_hash ` set rs \<inter> S = {} \<Longrightarrow>
    \<forall>r \<in> set rs. oplog_get A (en_hash r) = Some r \<and> en_next r = [] \<and> ordinary r \<Longrightarrow>
    part_of H A (S \<union> en_hash ` set rs) (fold (\<lambda>root log. fst (oplog_append H log root)) rs L)"
proof (induction rs arbitrary: S L)
  case (Cons r rs)
  have "\<exists>L'. oplog_append H L r = (L', Inr True) \<and> part_of H A (insert (en_hash r) S) L'"
    using Cons.prems by (intro append_part [OF A]) auto
  then have "part_of H A (insert (en_hash r) S) (fst (oplog_append H L r))" by auto
  from Cons.IH [OF this] Cons.prems show ?case by auto
qed simp

lemma fold_insert_hashes:
  "set (fold (\<lambda>r. hs_insert (en_hash r)) rs s) = en_hash ` set rs \<union> set s"
  "distinct (fold (\<lambda>r. hs_insert (en_hash r)) rs s) = distinct s"
  by (induction rs arbitrary: s) auto

lemma blocked_start:
  assumes A: "oplog_inv H A" and es: "lists_log es A"
    and b: "block_entries res (map (\<lambda>e. (en_hash e, e)) es) [] [] = (children, pend)"
  shows "kids_ok (oplog_get A |` (- set res)) children" "work_inv (oplog_get A |` (- set res)) {} pend"
proof -
  let ?by = "map (\<lambda>e. (en_hash e, e)) es"
  have wf: "hm_wf ?by" using es by (simp add: lists_log_def comp_def)
  note spec = block_entries_spec [OF b wf]
  have mem: "(h, e) \<in> set ?by \<longleftrightarrow> oplog_get A h = Some e" for h e
    unfolding by_hash_get [OF A es, symmetric] using wf by (simp add: map_of_eq_Some_iff)
  have "set (kids_of children p) = {h. \<exists>e. (oplog_get A |` (- set res)) h = Some e \<and> p \<in> set (en_next e)}" for p
  proof -
    have "set (kids_of children p) = {h. \<exists>e. (h, e) \<in> set ?by \<and> h \<notin> set res \<and> p \<in> set (en_next e)}"
      unfolding spec(1) by force
    then show ?thesis unfolding mem by (auto simp: restrict_map_def)
  qed
  moreover have "distinct (kids_of children p)" for p
    unfolding spec(1) using wf by (simp add: distinct_map_filter)
  ultimately show "kids_ok (oplog_get A |` (- set res)) children" by (simp add: kids_ok_def)
  show "work_inv (oplog_get A |` (- set res)) {} pend"
    unfolding work_inv_def using spec(2,3)
    by (auto simp: fun_eq_iff by_hash_get [OF A es] blocked_on_def restrict_map_def split: option.splits)
qed

lemma roots_appended:
  assumes A: "oplog_inv H A" "rebuildable A" and es: "lists_log es A" and roots: "filter (\<lambda>e. en_next e = []) es = g # rs"
  shows "part_of H A (en_hash ` set (g # rs)) (fold (\<lambda>root log. fst (oplog_append H log root)) rs (oplog_new g))"
proof -
  have rootD: "oplog_get A (en_hash r) = Some r" "en_next r = []" if "r \<in> set (g # rs)" for r
    using that es(1) unfolding roots [symmetric] by (auto simp: lists_log_def)
  have d: "distinct (map en_hash (g # rs))" unfolding roots [symmetric] using es(1) by (simp add: lists_log_def distinct_map_filter)
  have "ordinary r" if "r \<in> set rs" for r
  proof -
    have "en_hash r \<noteq> en_hash g" using d imageI [OF that, of en_hash] by auto
    then show ?thesis using A(2) rootD [of r] rootD [of g] that unfolding rebuildable_def by (metis list.set_intros)
  qed
  moreover have "verify_hash H g" using oplog_invD(2) [OF A(1)] rootD [of g] by (simp add: oplog_get_def)
  then have "part_of H A {en_hash g} (oplog_new g)"
    using rootD [of g] oplog_new_inv [of H g] by (auto simp: part_of_def oplog_get_def oplog_new_def restrict_map_def fun_eq_iff)
  ultimately show ?thesis using append_roots [OF A(1), of "{en_hash g}" "oplog_new g" rs] d rootD by auto
qed

lemma nothing_unresolved:
  assumes A: "oplog_inv H A" and N: "N = oplog_get A |` (- R)" and inv: "work_inv N D pend" and all: "stored A \<subseteq> D"
  shows "filter (\<lambda>(_, parents). parents \<noteq> []) pend = []"
proof -
  have "ps = []" if "(h, ps) \<in> set pend" for h ps
  proof -
    have "blocked_on N D h = Some ps" using that inv by (simp add: work_inv_def map_of_eq_Some_iff [symmetric])
    then obtain e where e: "N h = Some e" "ps = filter (\<lambda>p. p \<notin> D) (remdups (en_next e))" by (auto simp: blocked_on_def)
    then have "set (en_next e) \<subseteq> stored A"
      using stored_invD(3) [OF A] by (auto simp: causal_def oplog_get_def Domain_iff N restrict_map_def split: if_splits)
    then show ?thesis using e(2) all by (auto simp: filter_empty_conv)
  qed
  then show ?thesis by (auto simp: filter_empty_conv)
qed

lemma nonroots_have_parents:
  assumes A: "oplog_inv H A" and es: "lists_log es A"
  shows "\<forall>h e. (oplog_get A |` (- en_hash ` set (filter (\<lambda>e. en_next e = []) es))) h = Some e \<longrightarrow> en_next e \<noteq> []"
proof (intro allI impI)
  fix h e assume "(oplog_get A |` (- en_hash ` set (filter (\<lambda>e. en_next e = []) es))) h = Some e"
  then have h: "oplog_get A h = Some e" "h \<notin> en_hash ` set (filter (\<lambda>e. en_next e = []) es)"
    by (auto simp: restrict_map_def split: if_splits)
  then have "en_hash e = h" using oplog_invD(2) [OF A] by (simp add: oplog_get_def)
  then show "en_next e \<noteq> []" using h es by (auto simp: lists_log_def)
qed

lemma reconstruct_oplog_ok:
  assumes A: "oplog_inv H A" "rebuildable A" and es: "lists_log es A" "es \<noteq> []"
  shows "\<exists>L. reconstruct_oplog H es = Some (Inr L) \<and> oplog_inv H L \<and> same_log L A"
proof -
  let ?by = "map (\<lambda>e. (en_hash e, e)) es"
  have by_hash: "fold (\<lambda>e. hm_insert (en_hash e) e) es [] = ?by"
    using index_entries [of es "[]"] es(1) by (simp add: lists_log_def)
  obtain g rs where roots: "filter (\<lambda>e. en_next e = []) es = g # rs"
    using has_root [OF A(1) es] by (meson neq_Nil_conv)
  define res where "res = fold (\<lambda>r. hs_insert (en_hash r)) rs [en_hash g]"
  define N where "N = oplog_get A |` (- set res)"
  have res: "set res = en_hash ` set (g # rs)" "distinct res" by (auto simp: res_def fold_insert_hashes)
  let ?L0 = "fold (\<lambda>root log. fst (oplog_append H log root)) rs (oplog_new g)"
  have L0: "part_of H A (set res) ?L0" unfolding res(1) by (rule roots_appended [OF A es(1) roots])
  obtain children pend where b: "block_entries res ?by [] [] = (children, pend)" by fastforce
  note start = blocked_start [OF A(1) es(1) b, folded N_def]
  have nonroot: "\<forall>h e. N h = Some e \<longrightarrow> en_next e \<noteq> []"
    unfolding N_def res(1) roots [symmetric] by (rule nonroots_have_parents [OF A(1) es(1)])
  obtain pend1 ready where f: "fold (unblock children) res (pend, []) = (pend1, ready)" by fastforce
  have "enabled N {} = {}" using nonroot by (auto simp: enabled_def)
  then have "work_inv N (set res) pend1 \<and> set ready = enabled N (set res) - set res \<and> distinct ready"
    using unblock_roots [OF start(1,2) _ _ _ _ _ f] by (simp add: N_def res(2))
  then obtain D' pend' L' where r: "ready_loop H ?by children ?L0 pend1 ready = Some (Inr (L', pend'))"
      "set res \<subseteq> D'" "work_inv N D' pend'" "enabled N D' \<subseteq> D'" "part_of H A D' L'"
    using ready_loop_ends [OF A(1) by_hash_get [OF A(1) es(1)] start(1) N_def _ _ _ _ _ L0] nonroot by blast
  have all: "stored A \<subseteq> D'" by (rule all_reached [OF A(1) N_def r(2,4)])
  then have "oplog_get A |` D' = oplog_get A" by (rule restrict_superset)
  then have L': "oplog_inv H L' \<and> same_log L' A" using r(5) by (simp add: part_of_def same_log_def oplog_get_def fun_eq_iff)
  have "reconstruct_oplog H es = Some (Inr L')"
    using es(2) roots r(1) b f nothing_unresolved [OF A(1) N_def r(3) all]
    by (simp add: reconstruct_oplog_def by_hash Let_def res_def [symmetric])
  then show ?thesis using L' by blast
qed

end
