(* ===== verification/Silk_Durability.thy ===== *)
theory Silk_Durability
  imports Silk_Reconstruct
begin

text \<open>
  What the file of a store holds. \<open>store_inv\<close> ties the table of entries to the log: every row is an entry of
  the log, and every entry of the log is a row or pending. All operations that succeed keep it,
  and from it follows that flushing and reopening gives the log back.
\<close>

declare map_of_eq_Some_iff [simp del] Some_eq_map_of_iff [simp del]

section \<open>What the writes leave on disk\<close>

definition codec_laws :: "'v store_codec \<Rightarrow> bool" where
  "codec_laws C \<longleftrightarrow> (\<forall>e. sc_entry_of C (sc_entry_bytes C e) = Inr e) \<and> (\<forall>hs. \<not> isl (sc_heads_bytes C hs))"

lemma io_Inr [simp]: "io r = Inr x \<longleftrightarrow> r = Inr x"
  by (cases r) auto

abbreviation row_of :: "'v store_codec \<Rightarrow> entry \<Rightarrow> bytes \<times> 'v" where
  "row_of C e \<equiv> (hash_bytes (en_hash e), sc_entry_bytes C e)"

lemma write_entries_view:
  assumes R: "redb_laws R tv dv"
  shows "write_entries R C es t = Inr t' \<Longrightarrow> tv t' ''entries'' = bt_extend (tv t ''entries'') (map (row_of C) es)"
proof (induction es arbitrary: t)
  case (Cons e es)
  then obtain t1 where t1: "rd_insert R t ''entries'' (hash_bytes (en_hash e)) (sc_entry_bytes C e) = Inr t1"
    "write_entries R C es t1 = Inr t'" by (auto simp: rbind_Inr_iff)
  with Cons.IH [OF t1(2)] show ?case by (simp add: redb_lawsD(4) [OF R t1(1)])
qed simp

lemma write_heads_view:
  assumes "redb_laws R tv dv" "write_heads R C hs t = Inr t'"
  shows "tv t' ''entries'' = tv t ''entries''"
  using assms(2) redb_lawsD(3,4) [OF assms(1)] by (auto simp: write_heads_def rbind_Inr_iff)

lemma persist_entries_view:
  assumes R: "redb_laws R tv dv" and p: "persist_entries_and_heads R C db log es = Inr db'"
  shows "dv db' ''entries'' = bt_extend (dv db ''entries'') (map (row_of C) es)"
proof -
  from p obtain t t1 t2 t3 where "rd_begin_write R db = Inr t" "rd_open_table R t ''entries'' = Inr t1"
    "write_entries R C es t1 = Inr t2" "write_heads R C (ol_heads log) t2 = Inr t3" "rd_commit R t3 = Inr db'"
    by (auto simp: persist_entries_and_heads_def rbind_Inr_iff)
  then show ?thesis
    using redb_lawsD(1,3,8) [OF R] write_entries_view [OF R, of C es t1 t2] write_heads_view [OF R, of C "ol_heads log" t2 t3] by simp
qed

lemma persist_entry_is_batch: "persist_entry_and_heads R C db log e = persist_entries_and_heads R C db log [e]"
proof -
  have "write_entries R C [e] t = rd_insert R t ''entries'' (hash_bytes (en_hash e)) (sc_entry_bytes C e)" for t
    by (cases "rd_insert R t ''entries'' (hash_bytes (en_hash e)) (sc_entry_bytes C e)") simp_all
  then show ?thesis by (simp add: persist_entry_and_heads_def persist_entries_and_heads_def del: write_entries.simps)
qed

lemma remove_keys_view:
  assumes R: "redb_laws R tv dv"
  shows "remove_keys R ks t = Inr t' \<Longrightarrow> tv t' ''entries'' = filter (\<lambda>(k, _). k \<notin> set ks) (tv t ''entries'')"
proof (induction ks arbitrary: t)
  case (Cons k ks)
  then obtain t1 where t1: "rd_remove R t ''entries'' k = Inr t1" "remove_keys R ks t1 = Inr t'" by (auto simp: rbind_Inr_iff)
  from Cons.IH [OF t1(2)] show ?case
    by (auto simp: redb_lawsD(5) [OF R t1(1)] AList.delete_eq intro!: filter_cong)
qed auto

lemma readable_all:
  assumes "list_all2 (\<lambda>i kv. isl i \<or> i = Inr kv) items kvs" "list_all (\<lambda>i. \<not> isl i) items"
  shows "readable_keys items = map fst kvs"
  using all_readable [OF assms] by (simp add: readable_keys_def map_filter_def comp_def split_beta)

section \<open>Durability\<close>

definition store_inv :: "content_hash \<Rightarrow> 'v store_codec \<Rightarrow> ('d \<Rightarrow> 'v tables) \<Rightarrow> 'd store \<Rightarrow> bool" where
  "store_inv H C dv s \<longleftrightarrow> oplog_inv H (st_oplog s) \<and> ol_entries (st_oplog s) \<noteq> [] \<and>
     (\<forall>k v. map_of (dv (st_db s) ''entries'') k = Some v \<longrightarrow>
        (\<exists>h e. k = hash_bytes h \<and> oplog_get (st_oplog s) h = Some e \<and> v = sc_entry_bytes C e)) \<and>
     (\<forall>h e. oplog_get (st_oplog s) h = Some e \<longrightarrow> e \<notin> set (st_pending s) \<longrightarrow>
        map_of (dv (st_db s) ''entries'') (hash_bytes h) = Some (sc_entry_bytes C e)) \<and>
     (\<forall>e \<in> set (st_pending s). oplog_get (st_oplog s) (en_hash e) = Some e)"

lemma map_of_rows:
  "map_of (rev (map (row_of C) es)) k = Some v \<Longrightarrow> \<exists>e \<in> set es. k = hash_bytes (en_hash e) \<and> v = sc_entry_bytes C e"
  by (auto dest!: map_of_SomeD)

lemma map_of_rows_mem:
  assumes "e \<in> set es" "\<And>e'. e' \<in> set es \<Longrightarrow> en_hash e' = en_hash e \<Longrightarrow> e' = e"
  shows "map_of (rev (map (row_of C) es)) (hash_bytes (en_hash e)) = Some (sc_entry_bytes C e)"
proof -
  have "map_of (rev (map (row_of C) es)) (hash_bytes (en_hash e)) \<noteq> None"
    unfolding map_of_eq_None_iff set_rev set_map image_image using assms(1) by simp
  then obtain v where v: "map_of (rev (map (row_of C) es)) (hash_bytes (en_hash e)) = Some v" by blast
  from map_of_rows [OF v] obtain e' where e': "e' \<in> set es" "hash_bytes (en_hash e) = hash_bytes (en_hash e')" "v = sc_entry_bytes C e'"
    by blast
  then have "e' = e" using assms(2) hash_bytes_inj by metis
  then show ?thesis using v e'(3) by simp
qed

text \<open>
  The one way the invariant is extended: entries \<open>es\<close> come to the log, and to the disk or to the
  pending list.
\<close>

definition extends_by :: "oplog \<Rightarrow> entry list \<Rightarrow> oplog \<Rightarrow> bool" where
  "extends_by log es log' \<longleftrightarrow> (\<forall>h e. oplog_get log h = Some e \<longrightarrow> oplog_get log' h = Some e) \<and>
     (\<forall>h e. oplog_get log' h = Some e \<longrightarrow> oplog_get log h = Some e \<or> e \<in> set es) \<and>
     (\<forall>e \<in> set es. oplog_get log' (en_hash e) = Some e)"

lemma written_inv:
  assumes R: "redb_laws R tv dv" and inv: "store_inv H C dv s" and log: "oplog_inv H log" "extends_by (st_oplog s) new log"
    and ps: "\<forall>e \<in> set pend. oplog_get log (en_hash e) = Some e" "set (st_pending s) \<subseteq> set es \<union> set pend"
      "set new \<subseteq> set es \<union> set pend" "\<forall>e \<in> set es. oplog_get log (en_hash e) = Some e"
    and w: "dv db' ''entries'' = bt_extend (dv (st_db s) ''entries'') (map (row_of C) es)"
  shows "store_inv H C dv (s\<lparr>st_oplog := log, st_db := db', st_pending := pend\<rparr>)"
proof -
  have get: "map_of (dv db' ''entries'') k = (case map_of (rev (map (row_of C) es)) k of None \<Rightarrow> map_of (dv (st_db s) ''entries'') k | Some v \<Rightarrow> Some v)" for k
    unfolding w by (rule bt_get_extend [OF redb_lawsD(9) [OF R]])
  have sound: "\<exists>h e. k = hash_bytes h \<and> oplog_get log h = Some e \<and> v = sc_entry_bytes C e" if v: "map_of (dv db' ''entries'') k = Some v" for k v
  proof (cases "map_of (rev (map (row_of C) es)) k")
    case None
    then have "map_of (dv (st_db s) ''entries'') k = Some v" using v by (simp add: get)
    then obtain h e where "k = hash_bytes h" "oplog_get (st_oplog s) h = Some e" "v = sc_entry_bytes C e"
      using inv unfolding store_inv_def by blast
    then show ?thesis using log(2) unfolding extends_by_def by blast
  next
    case (Some w)
    then have "map_of (rev (map (row_of C) es)) k = Some v" using v by (simp add: get)
    from map_of_rows [OF this] show ?thesis using ps(4) by blast
  qed
  have uniq: "e' = e" if "e \<in> set es" "e' \<in> set es" "en_hash e' = en_hash e" for e e'
    using that ps(4) by (metis option.inject)
  have complete: "map_of (dv db' ''entries'') (hash_bytes h) = Some (sc_entry_bytes C e)"
    if h: "oplog_get log h = Some e" "e \<notin> set pend" for h e
  proof (cases "e \<in> set es")
    case True
    moreover have "en_hash e = h" using h(1) oplog_invD(2) [OF log(1)] by (simp add: oplog_get_def)
    ultimately show ?thesis using map_of_rows_mem [OF True uniq, where C = C] unfolding get by auto
  next
    case False
    then have old: "oplog_get (st_oplog s) h = Some e" "e \<notin> set (st_pending s)"
      using h log(2) ps(2,3) unfolding extends_by_def by blast+
    then have "map_of (dv (st_db s) ''entries'') (hash_bytes h) = Some (sc_entry_bytes C e)" using inv by (simp add: store_inv_def)
    moreover have "v = sc_entry_bytes C e" if "map_of (rev (map (row_of C) es)) (hash_bytes h) = Some v" for v
      using map_of_rows [OF that] ps(4) h(1) hash_bytes_inj by fastforce
    ultimately show ?thesis unfolding get by (auto split: option.splits)
  qed
  have "ol_entries log \<noteq> []"
  proof -
    obtain h e where "oplog_get (st_oplog s) h = Some e"
      using inv unfolding store_inv_def oplog_get_def by (metis list.exhaust map_of_Cons_code(2) prod.exhaust)
    then show ?thesis using log(2) by (force simp: extends_by_def oplog_get_def)
  qed
  then show ?thesis
    unfolding store_inv_def using log(1) sound complete ps(1) by simp
qed

section \<open>The log grows\<close>

lemma extends_refl: "extends_by log [] log"
  by (simp add: extends_by_def)

lemma extends_trans: "extends_by a es b \<Longrightarrow> extends_by b es' c \<Longrightarrow> extends_by a (es @ es') c"
  unfolding extends_by_def set_append by blast

lemma append_extends:
  assumes "oplog_inv H log" "ordinary e" "oplog_append H log e = (log', r)"
  shows "oplog_inv H log'" "r = Inr True \<Longrightarrow> extends_by log [e] log'" "r \<noteq> Inr True \<Longrightarrow> log' = log"
proof -
  show "oplog_inv H log'" using oplog_append_inv [OF assms(1), of e] assms(3) by simp
  have get: "oplog_get (insert_entry log e) = (oplog_get log)(en_hash e \<mapsto> e)"
    by (simp add: oplog_get_def insert_entry_simps update_conv' fun_eq_iff)
  show "extends_by log [e] log'" if "r = Inr True"
  proof -
    have "log' = insert_entry log e" "oplog_get log (en_hash e) = None"
      using assms(2,3) that by (auto simp: oplog_append_def ordinary_def hm_contains_def oplog_get_def split: if_splits option.splits)
    then show ?thesis by (auto simp: extends_by_def get)
  qed
  show "log' = log" if "r \<noteq> Inr True"
    using assms(3) that by (auto simp: oplog_append_def split: if_splits option.splits)
qed

lemma store_merge_pass_extends:
  "oplog_inv H log \<Longrightarrow> \<forall>e \<in> set es. ordinary e \<Longrightarrow>
    store_merge_pass H log es n new nr = (log', Inr (n', new', nr')) \<Longrightarrow>
    \<exists>added. oplog_inv H log' \<and> extends_by log added log' \<and> new' = new @ added \<and> n' = n + length added \<and> set nr' \<subseteq> set nr \<union> set es"
proof (induction es arbitrary: log n new nr)
  case (Cons e es)
  obtain log1 r where app: "oplog_append H log e = (log1, r)" by fastforce
  have ext: "oplog_inv H log1" "r = Inr True \<Longrightarrow> extends_by log [e] log1" "r \<noteq> Inr True \<Longrightarrow> log1 = log"
    using append_extends [OF Cons.prems(1) _ app] Cons.prems(2) by auto
  have ord: "\<forall>e \<in> set es. ordinary e" using Cons.prems(2) by simp
  consider "r = Inr True" | "r = Inr False" | p where "r = Inl (MissingParent p)" | "r = Inl InvalidHash"
    by (metis (full_types) oplog_error.exhaust sum.exhaust)
  then show ?case
  proof cases
    case 1
    then have "store_merge_pass H log1 es (n + 1) (new @ [e]) nr = (log', Inr (n', new', nr'))"
      using Cons.prems(3) app by simp
    from Cons.IH [OF ext(1) ord this]
    obtain added where "oplog_inv H log'" "extends_by log1 added log'" "new' = (new @ [e]) @ added" "n' = n + 1 + length added" "set nr' \<subseteq> set nr \<union> set es"
      by blast
    then show ?thesis using extends_trans [OF ext(2) [OF 1]] by (intro exI [of _ "e # added"]) auto
  next
    case 2
    then have "store_merge_pass H log es n new nr = (log', Inr (n', new', nr'))" using Cons.prems(3) app ext(3) by simp
    from Cons.IH [OF Cons.prems(1) ord this] show ?thesis by auto
  next
    case 3
    then have "store_merge_pass H log es n new (nr @ [e]) = (log', Inr (n', new', nr'))" using Cons.prems(3) app ext(3) by simp
    from Cons.IH [OF Cons.prems(1) ord this] show ?thesis by auto
  next
    case 4
    then show ?thesis using Cons.prems(3) app by simp
  qed
qed (auto simp: extends_refl)

lemma store_merge_loop_extends:
  "oplog_inv H log \<Longrightarrow> \<forall>e \<in> set es. ordinary e \<Longrightarrow> store_merge_loop H k log es n new = (log', Inr (n', new')) \<Longrightarrow>
    \<exists>added. oplog_inv H log' \<and> extends_by log added log' \<and> new' = new @ added \<and> n' = n + length added"
proof (induction H k log es n new rule: store_merge_loop.induct)
  case (2 H k log es n new)
  show ?case
  proof (cases "es = []")
    case True
    then show ?thesis using "2.prems" by (auto simp: extends_refl)
  next
    case False
    then obtain log1 n1 new1 nr where pass: "store_merge_pass H log es n new [] = (log1, Inr (n1, new1, nr))"
      and loop: "length nr \<noteq> length es" "store_merge_loop H k log1 nr n1 new1 = (log', Inr (n', new'))"
      using "2.prems"(3) by (auto split: prod.splits sum.splits if_splits)
    obtain added where a: "oplog_inv H log1" "extends_by log added log1" "new1 = new @ added" "n1 = n + length added" "set nr \<subseteq> set es"
      using store_merge_pass_extends [OF "2.prems"(1,2) pass] by auto
    then have "\<forall>e \<in> set nr. ordinary e" using "2.prems"(2) by blast
    from "2.IH" [OF False pass [symmetric] refl refl refl loop(1) a(1) this loop(2)]
    obtain more where "oplog_inv H log'" "extends_by log1 more log'" "new' = new1 @ more" "n' = n1 + length more" by blast
    then show ?thesis using a extends_trans [OF a(2)] by (intro exI [of _ "added @ more"]) auto
  qed
qed (auto simp: extends_refl)

section \<open>Every operation keeps disk and log together\<close>

lemma pending_kept:
  "store_inv H C dv s \<Longrightarrow> extends_by (st_oplog s) new log \<Longrightarrow> \<forall>e \<in> set (st_pending s). oplog_get log (en_hash e) = Some e"
  by (auto simp: store_inv_def extends_by_def)

lemma kept_on_disk:
  assumes R: "redb_laws R tv dv" and inv: "store_inv H C dv s" and log: "oplog_inv H log" "extends_by (st_oplog s) new log"
    and p: "persist_entries_and_heads R C (st_db s) log new = Inr db"
  shows "store_inv H C dv (s\<lparr>st_oplog := log, st_db := db\<rparr>)"
  using written_inv [OF R inv log pending_kept [OF inv log(2)] _ _ _ persist_entries_view [OF R p]] log(2)
  by (auto simp: extends_by_def)

lemma kept_pending:
  assumes R: "redb_laws R tv dv" and inv: "store_inv H C dv s" and log: "oplog_inv H log" "extends_by (st_oplog s) new log"
  shows "store_inv H C dv (s\<lparr>st_oplog := log, st_pending := st_pending s @ new\<rparr>)"
proof -
  have "\<forall>e \<in> set (st_pending s @ new). oplog_get log (en_hash e) = Some e"
    using pending_kept [OF inv log(2)] log(2) by (auto simp: extends_by_def)
  from written_inv [OF R inv log this, of "[]" "st_db s"] show ?thesis by simp
qed

lemma store_append_inv:
  assumes R: "redb_laws R tv dv" and inv: "store_inv H C dv s" and e: "ordinary e"
    and a: "store_append H R C s e = (s', r)" "\<forall>f. r \<noteq> Inl (StoreIo f)"
  shows "store_inv H C dv s'"
proof -
  obtain log r1 where app: "oplog_append H (st_oplog s) e = (log, r1)" by fastforce
  have log: "oplog_inv H log" "r1 = Inr True \<Longrightarrow> extends_by (st_oplog s) [e] log" "r1 \<noteq> Inr True \<Longrightarrow> log = st_oplog s"
    using append_extends [OF _ e app] inv by (auto simp: store_inv_def)
  show ?thesis
  proof (cases "r1 = Inr True")
    case False
    then have "s' = s" using a(1) app log(3) by (auto simp: store_append_def Let_def split: sum.splits if_splits)
    then show ?thesis using inv by simp
  next
    case True
    note ext = log(2) [OF True]
    show ?thesis
    proof (cases "st_flush_mode s")
      case Deferred
      then have "s' = s\<lparr>st_oplog := log, st_pending := st_pending s @ [e]\<rparr>" using a(1) app True by (simp add: store_append_def Let_def)
      then show ?thesis using kept_pending [OF R inv log(1) ext] by simp
    next
      case Immediate
      show ?thesis
      proof (cases "persist_entry_and_heads R C (st_db s) log e")
        case (Inl err)
        moreover obtain f where "err = StoreIo f"
          using Inl by (auto simp: persist_entry_and_heads_def map_sum_def split: sum.splits elim!: rbind.elims)
        ultimately show ?thesis using a app True Immediate by (auto simp: store_append_def Let_def)
      next
        case (Inr db)
        then have "s' = s\<lparr>st_oplog := log, st_db := db\<rparr>" using a(1) app True Immediate by (simp add: store_append_def Let_def)
        then show ?thesis using kept_on_disk [OF R inv log(1) ext Inr [unfolded persist_entry_is_batch]] by simp
      qed
    qed
  qed
qed

lemma store_merge_inv:
  assumes R: "redb_laws R tv dv" and inv: "store_inv H C dv s" and es: "\<forall>e \<in> set es. ordinary e"
    and m: "store_merge H R C s es = (s', Inr n)"
  shows "store_inv H C dv s'"
proof -
  obtain log new where loop: "store_merge_loop H (length es + 1) (st_oplog s) es 0 [] = (log, Inr (n, new))"
    and s': "s' = (if new = [] then s\<lparr>st_oplog := log\<rparr> else if st_flush_mode s = Immediate
        then s\<lparr>st_oplog := log, st_db := st_db s'\<rparr> else s\<lparr>st_oplog := log, st_pending := st_pending s @ new\<rparr>)"
    and db: "new \<noteq> [] \<Longrightarrow> st_flush_mode s = Immediate \<Longrightarrow> persist_entries_and_heads R C (st_db s) log new = Inr (st_db s')"
    using m unfolding store_merge_def by (auto simp: Let_def split: prod.splits sum.splits if_splits flush_mode.splits)
  have log: "oplog_inv H log" "extends_by (st_oplog s) new log"
    using store_merge_loop_extends [OF _ es loop] inv by (auto simp: store_inv_def)
  show ?thesis
  proof (cases "new \<noteq> [] \<and> st_flush_mode s = Immediate")
    case True
    then have "s' = s\<lparr>st_oplog := log, st_db := st_db s'\<rparr>" using s' by simp
    then show ?thesis using kept_on_disk [OF R inv log db] True by metis
  next
    case False
    then have "s' = s\<lparr>st_oplog := log, st_pending := st_pending s @ new\<rparr>" by (subst s') auto
    then show ?thesis using kept_pending [OF R inv log] by simp
  qed
qed

lemma store_flush_inv:
  assumes R: "redb_laws R tv dv" and inv: "store_inv H C dv s" and f: "store_flush R C s = (s', Inr n)"
  shows "store_inv H C dv s'" "st_pending s' = []" "st_oplog s' = st_oplog s"
proof -
  have "store_inv H C dv s' \<and> st_pending s' = [] \<and> st_oplog s' = st_oplog s"
  proof (cases "st_pending s = []")
    case True
    then show ?thesis using f inv by (simp add: store_flush_def)
  next
    case False
    then obtain db where db: "persist_entries_and_heads R C (st_db s) (st_oplog s) (st_pending s) = Inr db"
      and s': "s' = s\<lparr>st_pending := [], st_db := db\<rparr>"
      using f by (auto simp: store_flush_def Let_def split: sum.splits)
    have "store_inv H C dv (s\<lparr>st_oplog := st_oplog s, st_db := db, st_pending := []\<rparr>)"
      using written_inv [OF R inv _ extends_refl, of "[]" "st_pending s" db] inv persist_entries_view [OF R db]
      by (simp add: store_inv_def)
    then show ?thesis by (cases s) (simp add: s')
  qed
  then show "store_inv H C dv s'" "st_pending s' = []" "st_oplog s' = st_oplog s" by blast+
qed

lemma checkpoint_inv:
  assumes R: "redb_laws R tv dv" "redb_up R" and p: "st_pending s = []" and cp: "verify_hash H cp" "en_next cp = []"
    and c: "store_replace_with_checkpoint R C s cp = (s', Inr ())"
  shows "store_inv H C dv s'"
proof -
  from c obtain t t1 items t2 t3 t4 db where steps: "rd_begin_write R (st_db s) = Inr t" "rd_open_table R t ''entries'' = Inr t1"
    "rd_iter R t1 ''entries'' = Inr items" "remove_keys R (readable_keys items) t1 = Inr t2"
    "rd_insert R t2 ''entries'' (hash_bytes (en_hash cp)) (sc_entry_bytes C cp) = Inr t3"
    "write_heads R C [en_hash cp] t3 = Inr t4" "rd_commit R t4 = Inr db"
    and s': "s' = s\<lparr>st_db := db, st_oplog := oplog_replace_with_checkpoint cp\<rparr>"
    by (auto simp: store_replace_with_checkpoint_def rbind_Inr_iff split: sum.splits)
  have "list_all (\<lambda>i. \<not> isl i) items" using redb_upE(7) [OF R(2), of t1 "''entries''"] steps(3) by auto
  then have keys: "readable_keys items = map fst (tv t1 ''entries'')" using readable_all redb_lawsD(6) [OF R(1) steps(3)] by blast
  have "tv t2 ''entries'' = []"
    unfolding remove_keys_view [OF R(1) steps(4)] keys by (auto simp: filter_empty_conv intro: rev_image_eqI)
  then have "dv db ''entries'' = [row_of C cp]"
    using redb_lawsD(4) [OF R(1) steps(5)] write_heads_view [OF R(1) steps(6)] redb_lawsD(8) [OF R(1) steps(7)] by simp
  moreover have "oplog_inv H (oplog_new cp)" by (rule oplog_new_inv [OF cp])
  ultimately show ?thesis
    using p by (auto simp: s' checkpoint_is_new store_inv_def oplog_new_def oplog_get_def split: if_splits)
qed

section \<open>Reopening\<close>

lemma decode_rows: "codec_laws C \<Longrightarrow> decode_entries C (map Inr (map (row_of C) es)) = Inr es"
  by (induction es) (auto simp: codec_laws_def)

lemma disk_lists_log:
  assumes R: "redb_laws R tv dv" and C: "codec_laws C" and inv: "store_inv H C dv s" "st_pending s = []"
  shows "\<exists>es. dv (st_db s) ''entries'' = map (row_of C) es \<and> lists_log es (st_oplog s) \<and> es \<noteq> []"
proof -
  let ?tab = "dv (st_db s) ''entries''"
  define es where "es = map (\<lambda>(k, v). projr (sc_entry_of C v)) ?tab"
  have d: "distinct (map fst ?tab)" by (rule bt_wf_distinct [OF redb_lawsD(9) [OF R]])
  have A: "oplog_inv H (st_oplog s)" using inv(1) by (simp add: store_inv_def)
  have row: "\<exists>e. (k, v) = row_of C e \<and> oplog_get (st_oplog s) (en_hash e) = Some e \<and> projr (sc_entry_of C v) = e" if "(k, v) \<in> set ?tab" for k v
  proof -
    have "map_of ?tab k = Some v" using that d by (simp add: map_of_eq_Some_iff)
    then obtain h e where e: "k = hash_bytes h" "oplog_get (st_oplog s) h = Some e" "v = sc_entry_bytes C e"
      using inv(1) unfolding store_inv_def by blast
    moreover have "en_hash e = h" using e(2) oplog_invD(2) [OF A] by (simp add: oplog_get_def)
    ultimately show ?thesis using C by (auto simp: codec_laws_def)
  qed
  have tab: "?tab = map (row_of C) es"
    unfolding es_def map_map by (rule map_idI [symmetric]) (use row in \<open>fastforce simp: comp_def\<close>)
  have "distinct (map en_hash es)" using d unfolding tab map_map comp_def fst_conv by (auto simp: distinct_map inj_on_def)
  moreover have "e \<in> set es \<longleftrightarrow> oplog_get (st_oplog s) (en_hash e) = Some e" for e
  proof
    assume "e \<in> set es"
    then show "oplog_get (st_oplog s) (en_hash e) = Some e" using row by (auto simp: es_def)
  next
    assume g: "oplog_get (st_oplog s) (en_hash e) = Some e"
    then have "map_of ?tab (hash_bytes (en_hash e)) = Some (sc_entry_bytes C e)" using inv by (simp add: store_inv_def)
    then have "row_of C e \<in> set ?tab" by (rule map_of_SomeD)
    moreover have "projr (sc_entry_of C (sc_entry_bytes C e)) = e" using C by (simp add: codec_laws_def)
    ultimately show "e \<in> set es" by (force simp: es_def)
  qed
  ultimately have l: "lists_log es (st_oplog s)" by (simp add: lists_log_def)
  moreover have "es \<noteq> []"
  proof
    assume "es = []"
    then have "oplog_get (st_oplog s) h = None" for h
      using l oplog_invD(2) [OF A, of h] by (cases "oplog_get (st_oplog s) h") (auto simp: lists_log_def oplog_get_def)
    then show False using inv(1) by (auto simp: store_inv_def oplog_get_def neq_Nil_conv split: if_splits) (metis option.distinct(1))
  qed
  ultimately show ?thesis using tab by blast
qed

lemma load_rows:
  assumes R: "redb_laws R tv dv" "redb_up R" and C: "codec_laws C" and d: "dv db ''entries'' = map (row_of C) es"
  shows "load_entries R C db = Inr es"
proof -
  obtain t where t: "rd_begin_read R db = Inr t" using redb_upE(2) [OF R(2)] by blast
  obtain t1 where t1: "rd_open_table R t ''entries'' = Inr t1" using redb_upE(3) [OF R(2)] by blast
  obtain items where i: "rd_iter R t1 ''entries'' = Inr items" "list_all (\<lambda>i. \<not> isl i) items" using redb_upE(7) [OF R(2)] by blast
  have "items = map Inr (map (row_of C) es)"
    using all_readable [OF redb_lawsD(6) [OF R(1) i(1)] i(2)] redb_lawsD(2) [OF R(1) t] redb_lawsD(3) [OF R(1) t1] d by simp
  then show ?thesis using t t1 i(1) decode_rows [OF C] by (simp add: load_entries_def del: map_map)
qed

lemma open_tables_view: "redb_laws R tv dv \<Longrightarrow> open_tables R db = Inr db' \<Longrightarrow> dv db' = dv db"
  by (auto simp: open_tables_def rbind_Inr_iff redb_lawsD(1,3,8))

lemma open_tables_ok: "redb_up R \<Longrightarrow> \<exists>db'. open_tables R db = Inr db'"
  unfolding open_tables_def by (intro rbind_ok redb_upE)

lemma reopen_ok:
  assumes R: "redb_laws R tv dv" "redb_up R" and C: "codec_laws C"
    and inv: "store_inv H C dv s" "st_pending s = []" "rebuildable (st_oplog s)"
  shows "\<exists>s'. store_open H R C (Inr (st_db s)) g = Some (Inr s') \<and> store_inv H C dv s' \<and> st_pending s' = [] \<and>
    same_log (st_oplog s') (st_oplog s)"
proof -
  obtain es where es: "dv (st_db s) ''entries'' = map (row_of C) es" "lists_log es (st_oplog s)" "es \<noteq> []"
    using disk_lists_log [OF R(1) C inv(1,2)] by blast
  obtain db where db: "open_tables R (st_db s) = Inr db" using open_tables_ok [OF R(2)] by blast
  note view = open_tables_view [OF R(1) db]
  have A: "oplog_inv H (st_oplog s)" using inv(1) by (simp add: store_inv_def)
  obtain L where L: "reconstruct_oplog H es = Some (Inr L)" "oplog_inv H L" "same_log L (st_oplog s)"
    using reconstruct_oplog_ok [OF A inv(3) es(2,3)] by blast
  let ?s' = "\<lparr>st_db = db, st_oplog = L, st_flush_mode = Immediate, st_pending = []\<rparr>"
  have "load_entries R C db = Inr es" using load_rows [OF R C] view es(1) by simp
  then have "store_open H R C (Inr (st_db s)) g = Some (Inr ?s')"
    using L(1) es(3) by (simp add: store_open_def db)
  moreover have "oplog_get L = oplog_get (st_oplog s)" using L(3) by (simp add: same_log_def oplog_get_def fun_eq_iff)
  then have "store_inv H C dv ?s'"
    using inv(1,2) L(2,3) view by (auto simp: store_inv_def same_log_def)
  ultimately show ?thesis using L(3) by simp
qed

lemma load_empty:
  assumes R: "redb_laws R tv dv" and d: "dv db ''entries'' = []" and l: "load_entries R C db = Inr es"
  shows "es = []"
proof -
  obtain t where t: "rd_begin_read R db = Inr t" using l by (auto simp: load_entries_def rbind_Inr_iff)
  show ?thesis
  proof (cases "rd_open_table R t ''entries''")
    case (Inl err)
    then show ?thesis using l t by (simp add: load_entries_def)
  next
    case (Inr t1)
    then obtain items where i: "rd_iter R t1 ''entries'' = Inr items" "decode_entries C items = Inr es"
      using l t by (auto simp: load_entries_def rbind_Inr_iff)
    have "items = []" using redb_lawsD(6) [OF R i(1)] redb_lawsD(2) [OF R t] redb_lawsD(3) [OF R Inr] d by simp
    then show ?thesis using i(2) by simp
  qed
qed

lemma open_new_inv:
  assumes R: "redb_laws R tv dv" and g: "verify_hash H g" "en_next g = []" and empty: "dv db ''entries'' = []"
    and o: "store_open H R C (Inr db) (Some g) = Some (Inr s)"
  shows "store_inv H C dv s"
proof -
  obtain db1 where db1: "open_tables R db = Inr db1" using o by (cases "open_tables R db") (simp_all add: store_open_def)
  have e1: "dv db1 ''entries'' = []" using open_tables_view [OF R db1] empty by simp
  obtain existing where l: "load_entries R C db1 = Inr existing"
    using o db1 by (cases "load_entries R C db1") (simp_all add: store_open_def)
  have "existing = []" by (rule load_empty [OF R e1 l])
  with l o db1 have p: "rbind (persist_entries_and_heads R C db1 (oplog_new g) [g]) (\<lambda>db2.
      Inr \<lparr>st_db = db2, st_oplog = oplog_new g, st_flush_mode = Immediate, st_pending = []\<rparr>) = Inr s"
    by (simp add: store_open_def persist_entry_is_batch)
  then obtain db2 where db2: "persist_entries_and_heads R C db1 (oplog_new g) [g] = Inr db2"
    and s: "s = \<lparr>st_db = db2, st_oplog = oplog_new g, st_flush_mode = Immediate, st_pending = []\<rparr>"
    unfolding rbind_Inr_iff by blast
  have "dv db2 ''entries'' = [row_of C g]" using persist_entries_view [OF R db2] e1 by simp
  then show ?thesis
    using oplog_new_inv [OF g] by (auto simp: s store_inv_def oplog_new_def oplog_get_def split: if_splits)
qed

section \<open>Runs of a store\<close>

inductive store_run :: "content_hash \<Rightarrow> ('d, 't, 'v) redb \<Rightarrow> 'v store_codec \<Rightarrow> ('d \<Rightarrow> 'v tables) \<Rightarrow> 'd store \<Rightarrow> bool"
  for H R C dv where
  created: "store_open H R C (Inr db) (Some g) = Some (Inr s) \<Longrightarrow> dv db ''entries'' = [] \<Longrightarrow> verify_hash H g \<Longrightarrow> en_next g = [] \<Longrightarrow>
    store_run H R C dv s"
| appended: "store_run H R C dv s \<Longrightarrow> ordinary e \<Longrightarrow> store_append H R C s e = (s', r) \<Longrightarrow> \<forall>f. r \<noteq> Inl (StoreIo f) \<Longrightarrow> store_run H R C dv s'"
| merged: "store_run H R C dv s \<Longrightarrow> \<forall>e \<in> set es. ordinary e \<Longrightarrow> store_merge H R C s es = (s', Inr n) \<Longrightarrow> store_run H R C dv s'"
| flushed: "store_run H R C dv s \<Longrightarrow> store_flush R C s = (s', Inr n) \<Longrightarrow> store_run H R C dv s'"
| mode: "store_run H R C dv s \<Longrightarrow> store_run H R C dv (set_flush_mode s m)"
| compacted: "store_run H R C dv s \<Longrightarrow> st_pending s = [] \<Longrightarrow> verify_hash H cp \<Longrightarrow> en_next cp = [] \<Longrightarrow>
    store_replace_with_checkpoint R C s cp = (s', Inr ()) \<Longrightarrow> store_run H R C dv s'"
| reopened: "store_run H R C dv s \<Longrightarrow> st_pending s = [] \<Longrightarrow> rebuildable (st_oplog s) \<Longrightarrow>
    store_open H R C (Inr (st_db s)) g = Some (Inr s') \<Longrightarrow> store_run H R C dv s'"

lemma store_run_inv:
  assumes "redb_laws R tv dv" "redb_up R" "codec_laws C"
  shows "store_run H R C dv s \<Longrightarrow> store_inv H C dv s"
proof (induction rule: store_run.induct)
  case (created db g s)
  show ?case by (rule open_new_inv [OF assms(1) created(3,4,2,1)])
next
  case (appended s e s' r)
  show ?case by (rule store_append_inv [OF assms(1) appended.IH appended.hyps(2-4)])
next
  case (merged s es s' n)
  show ?case by (rule store_merge_inv [OF assms(1) merged.IH merged.hyps(2,3)])
next
  case (flushed s s' n)
  show ?case by (rule store_flush_inv(1) [OF assms(1) flushed.IH flushed.hyps(2)])
next
  case (mode s m)
  then show ?case by (simp add: set_flush_mode_def store_inv_def)
next
  case (compacted s cp s')
  show ?case by (rule checkpoint_inv [OF assms(1,2) compacted.hyps(2-5)])
next
  case (reopened s g s')
  then show ?case using reopen_ok [OF assms reopened.IH reopened.hyps(2,3), of g] by simp
qed

lemma write_entries_ok: "redb_up R \<Longrightarrow> \<exists>t'. write_entries R C es t = Inr t'"
  by (induction es arbitrary: t) (auto intro!: rbind_ok redb_upE)

lemma heads_encoded: "codec_laws C \<Longrightarrow> \<exists>b. sc_heads_bytes C hs = Inr b"
  by (cases "sc_heads_bytes C hs") (auto simp: codec_laws_def isl_def)

lemma write_heads_ok: "redb_up R \<Longrightarrow> codec_laws C \<Longrightarrow> \<exists>t'. write_heads R C hs t = Inr t'"
  unfolding write_heads_def by (intro rbind_ok redb_upE heads_encoded)

lemma persist_ok: "redb_up R \<Longrightarrow> codec_laws C \<Longrightarrow> \<exists>db'. persist_entries_and_heads R C db log es = Inr db'"
  unfolding persist_entries_and_heads_def io_Inr by (intro rbind_ok redb_upE write_entries_ok write_heads_ok)

lemma flush_ok: "redb_up R \<Longrightarrow> codec_laws C \<Longrightarrow> \<exists>s'. store_flush R C s = (s', Inr (pending_count s))"
  using persist_ok [of R C "st_db s" "st_oplog s" "st_pending s"]
  by (auto simp: store_flush_def pending_count_def Let_def)

lemma same_log_heads:
  assumes "oplog_inv H L" "oplog_inv H L'" "same_log L L'"
  shows "set (ol_heads L) = set (ol_heads L')"
  unfolding stored_invD(4) [OF assms(1)] stored_invD(4) [OF assms(2)] same_log_causal [OF assms(3)]
  using assms(3) by (simp add: same_log_def oplog_get_def dom_def)

text \<open>
  C5. Durability, for the histories of \<open>store_run\<close>: a store is created in an empty database, entries are appended
  (or refused), merges and flushes succeed, the flush mode changes, compaction runs with nothing pending, the
  file is reopened; no appended or merged entry is a checkpoint without parents. The database keeps its laws
  and does not fail, and a checkpoint root in the log is its only root (\<open>rebuildable\<close>). Then a flush succeeds and
  writes every pending entry, and reopening the file ends with the same entries and heads. The exclusions are
  real: failed merges (\<open>failed_merge_breaks_reopen\<close>), compaction with pending entries (\<open>compaction_keeps_pending\<close>)
  and checkpoints that a merge brings (\<open>merged_checkpoint_not_persisted\<close>) lose the property.
\<close>

theorem store_durable:
  assumes "redb_laws R tv dv" "redb_up R" "codec_laws C" and "store_run H R C dv s" and "rebuildable (st_oplog s)"
  shows "\<exists>s1 s2. store_flush R C s = (s1, Inr (pending_count s)) \<and>
    store_open H R C (Inr (st_db s1)) g = Some (Inr s2) \<and> st_pending s2 = [] \<and>
    oplog_get (st_oplog s2) = oplog_get (st_oplog s) \<and> set (ol_heads (st_oplog s2)) = set (ol_heads (st_oplog s))"
proof -
  note inv = store_run_inv [OF assms(1-4)]
  obtain s1 where f: "store_flush R C s = (s1, Inr (pending_count s))" using flush_ok [OF assms(2,3)] by blast
  note s1 = store_flush_inv [OF assms(1) inv f]
  obtain s2 where s2: "store_open H R C (Inr (st_db s1)) g = Some (Inr s2)" "store_inv H C dv s2" "st_pending s2 = []"
    "same_log (st_oplog s2) (st_oplog s1)"
    using reopen_ok [OF assms(1-3) s1(1,2), of g] assms(5) s1(3) by auto
  have "set (ol_heads (st_oplog s2)) = set (ol_heads (st_oplog s))"
    using same_log_heads [of H "st_oplog s2" "st_oplog s1"] s2(2,4) s1(1,3) by (simp add: store_inv_def)
  moreover have "oplog_get (st_oplog s2) = oplog_get (st_oplog s)"
    using s2(4) s1(3) by (simp add: same_log_def oplog_get_def fun_eq_iff)
  ultimately show ?thesis using f s2(1,3) by blast
qed

section \<open>The merge of the store\<close>

lemma store_merge_pass_eq:
  "map_prod id (map_sum id (\<lambda>(n, new, nr). (n, nr))) (store_merge_pass H log es n new nr) = merge_pass H log es n nr"
  by (induction H log es n nr arbitrary: new rule: merge_pass.induct)
    (auto split: prod.splits sum.splits oplog_error.splits bool.splits)

lemma store_merge_loop_eq:
  "map_prod id (map_sum id fst) (store_merge_loop H k log es n new) = merge_loop H k log es n"
proof (induction H k log es n arbitrary: new rule: merge_loop.induct)
  case (2 H k log es n)
  have p: "merge_pass H log es n [] = map_prod id (map_sum id (\<lambda>(n, new, nr). (n, nr))) (store_merge_pass H log es n new [])"
    by (simp only: store_merge_pass_eq)
  show ?case
  proof (cases "store_merge_pass H log es n new []")
    case (Pair log1 r)
    then show ?thesis using p 2 by (cases r) auto
  qed
qed simp

text \<open>
  C36. The store merges as the sync protocol does: whatever the batch, the log in memory and the number of
  new entries (or the error) are those of the merge of \<^verbatim>\<open>sync.rs\<close> on the log, in both flush modes.
\<close>

theorem store_merge_refines_merge:
  assumes "redb_up R" "codec_laws C"
  shows "st_oplog (fst (store_merge H R C s es)) = fst (merge_entries H (st_oplog s) es) \<and>
    snd (store_merge H R C s es) = map_sum (\<lambda>err. StoreIo (MergeFailed err)) id (snd (merge_entries H (st_oplog s) es))"
proof -
  have eq: "merge_entries H (st_oplog s) es = map_prod id (map_sum id fst) (store_merge_loop H (length es + 1) (st_oplog s) es 0 [])"
    unfolding merge_entries_def store_merge_loop_eq ..
  show ?thesis
  proof (cases "store_merge_loop H (length es + 1) (st_oplog s) es 0 []")
    case (Pair log r)
    moreover obtain db where "r = Inr (n, new) \<Longrightarrow> persist_entries_and_heads R C (st_db s) log new = Inr db" for n new
      using persist_ok [OF assms] by (cases r) (auto simp: not_Some_eq, metis)
    ultimately show ?thesis
      unfolding eq by (cases r) (auto simp: store_merge_def Let_def split: flush_mode.splits)
  qed
qed

section \<open>An example\<close>

definition typed_codec :: "(entry + hash list) store_codec" where
  "typed_codec = \<lparr>sc_entry_bytes = Inl, sc_entry_of = (\<lambda>v. case v of Inl e \<Rightarrow> Inr e | Inr _ \<Rightarrow> Inl ''not an entry''),
     sc_heads_bytes = (\<lambda>hs. Inr (Inr hs))\<rparr>"

lemma typed_codec_ok: "codec_laws typed_codec"
  by (simp add: codec_laws_def typed_codec_def)

definition demo_created :: "(entry + hash list) journal store" where
  "demo_created = (case store_open demo_hash mem_redb typed_codec (Inr []) (Some demo_root) of
     Some (Inr s) \<Rightarrow> s | _ \<Rightarrow> \<lparr>st_db = [], st_oplog = oplog_new demo_root, st_flush_mode = Immediate, st_pending = []\<rparr>)"

lemma demo_created_open: "store_open demo_hash mem_redb typed_codec (Inr []) (Some demo_root) = Some (Inr demo_created)"
proof -
  have "case store_open demo_hash mem_redb typed_codec (Inr []) (Some demo_root) of Some (Inr s) \<Rightarrow> True | _ \<Rightarrow> False"
    by code_simp
  then show ?thesis by (auto simp: demo_created_def split: option.splits sum.splits)
qed

definition demo_store :: "(entry + hash list) journal store" where
  "demo_store = fst (store_append demo_hash mem_redb typed_codec (set_flush_mode demo_created Deferred) demo_child)"

lemma demo_run: "store_run demo_hash mem_redb typed_codec journal_tables demo_store"
proof -
  have "ordinary demo_child" "verify_hash demo_hash demo_root" "en_next demo_root = []" by code_simp+
  moreover have "snd (store_append demo_hash mem_redb typed_codec (set_flush_mode demo_created Deferred) demo_child) = Inr True" by code_simp
  ultimately show ?thesis
    using store_run.created [OF demo_created_open, of journal_tables]
      store_run.appended [OF store_run.mode, of demo_hash mem_redb typed_codec journal_tables demo_created demo_child Deferred demo_store]
    by (cases "store_append demo_hash mem_redb typed_codec (set_flush_mode demo_created Deferred) demo_child")
      (simp add: demo_store_def journal_tables_def)
qed

theorem store_durable_witness:
  "\<exists>s1 s2. store_flush mem_redb typed_codec demo_store = (s1, Inr 1) \<and>
     store_open demo_hash mem_redb typed_codec (Inr (st_db s1)) None = Some (Inr s2) \<and>
     oplog_get (st_oplog s2) 34 = Some demo_child \<and> set (ol_heads (st_oplog s2)) = {34}"
proof -
  have e: "pending_count demo_store = 1" "oplog_get (st_oplog demo_store) 34 = Some demo_child"
    "ol_heads (st_oplog demo_store) = [34]" by code_simp+
  have "rebuildable (st_oplog demo_store)"
  proof -
    have "list_all (\<lambda>(_, e). ordinary e) (ol_entries (st_oplog demo_store))" by code_simp
    then show ?thesis by (fastforce simp: rebuildable_def oplog_get_def list_all_iff dest!: map_of_SomeD)
  qed
  then show ?thesis using store_durable [OF mem_redb_ok typed_codec_ok demo_run, of None] e by auto
qed

theorem store_merge_refines_merge_witness:
  "snd (store_merge demo_hash mem_redb typed_codec demo_store [demo_branch, demo_child]) = Inr 1 \<and>
   st_oplog (fst (store_merge demo_hash mem_redb typed_codec demo_store [demo_branch, demo_child]))
     = fst (merge_entries demo_hash (st_oplog demo_store) [demo_branch, demo_child])"
proof -
  have "snd (merge_entries demo_hash (st_oplog demo_store) [demo_branch, demo_child]) = Inr 1" by code_simp
  then show ?thesis using store_merge_refines_merge [OF mem_redb_ok(2) typed_codec_ok] by simp
qed

definition demo_orphan :: entry where
  "demo_orphan = entry_new demo_hash (RemoveNode ''xxx'') [99] [] (with_values ''p'' 3 0) ''p''"

definition demo_grandchild :: entry where
  "demo_grandchild = entry_new demo_hash (RemoveNode ''yyyy'') [34] [] (with_values ''p'' 4 0) ''p''"

text \<open>
  A merge that fails returns before anything is written, but the entries it accepted stay in the
  log in memory. Their children are then accepted and written, and the file cannot be opened again.
\<close>

theorem failed_merge_breaks_reopen:
  "case store_merge demo_hash mem_redb typed_codec demo_created [demo_child, demo_orphan] of (s1, r1) \<Rightarrow>
     r1 = Inl (StoreIo (MergeFailed (UnresolvableParents 1))) \<and>
     (case store_append demo_hash mem_redb typed_codec s1 demo_grandchild of (s2, r2) \<Rightarrow>
        r2 = Inr True \<and>
        store_open demo_hash mem_redb typed_codec (Inr (st_db s2)) None = Some (Inl (StoreIo (UnresolvedEntries 1))))"
  by code_simp

definition demo_hash_cp :: content_hash where
  "demo_hash_cp c = (if is_checkpoint (sg_payload c) then 7 else demo_hash c)"

definition demo_checkpoint :: entry where
  "demo_checkpoint = entry_new demo_hash_cp (Checkpoint [] [] 0 0) [] [] (with_values ''a'' 5 0) ''a''"

text \<open>
  Compaction does not drop the pending entries: a later flush writes them next to the checkpoint, and
  the file cannot be opened again.
\<close>

theorem compaction_keeps_pending:
  "case store_replace_with_checkpoint mem_redb typed_codec demo_store demo_checkpoint of (s1, r1) \<Rightarrow>
     r1 = Inr () \<and>
     (case store_flush mem_redb typed_codec s1 of (s2, r2) \<Rightarrow>
        r2 = Inr 1 \<and>
        store_open demo_hash_cp mem_redb typed_codec (Inr (st_db s2)) None = Some (Inl (StoreIo (UnresolvedEntries 1))))"
  by code_simp

text \<open>
  A checkpoint without parents that arrives by merge replaces the log in memory, but the old entries
  stay on disk.
\<close>

theorem merged_checkpoint_not_persisted:
  "case store_merge demo_hash_cp mem_redb typed_codec demo_created [demo_checkpoint] of (s1, r1) \<Rightarrow>
     r1 = Inr 1 \<and> map fst (ol_entries (st_oplog s1)) = [7] \<and>
     map fst (journal_tables (st_db s1) ''entries'') = [hash_bytes 1, hash_bytes 7]"
  by code_simp

end
