(* ===== verification/Silk_ObsKey.thy ===== *)
theory Silk_ObsKey
  imports Silk_Redb
begin

text \<open>
  The compound keys of the observation log, \<^verbatim>\<open>encode_key\<close> and \<^verbatim>\<open>decode_key\<close> of \<^verbatim>\<open>src/src/obslog.rs\<close>: two bytes of
  length, the source, eight bytes of time, all big-endian. \<^verbatim>\<open>String::from_utf8_lossy\<close> is written out as the
  standard library defines it, so that \<open>decode_key\<close> is defined on every byte string.
\<close>

declare map_of_eq_Some_iff [simp del] Some_eq_map_of_iff [simp del]

section \<open>UTF-8\<close>

definition byte_at :: "bytes \<Rightarrow> nat \<Rightarrow> nat" where
  "byte_at bs i = (if i < length bs then of_char (bs ! i) else 0)"

definition continues :: "nat \<Rightarrow> bool" where
  "continues b \<longleftrightarrow> 0x80 \<le> b \<and> b \<le> 0xBF"

text \<open>The next chunk of a byte string: its length, and whether it is a character.\<close>

definition utf8_chunk :: "bytes \<Rightarrow> nat \<times> bool" where
  "utf8_chunk bs =
     (let first = byte_at bs 0; second = byte_at bs 1 in
      if first < 0x80 then (1, True)
      else if 0xC2 \<le> first \<and> first \<le> 0xDF then (if continues second then (2, True) else (1, False))
      else if 0xE0 \<le> first \<and> first \<le> 0xEF then
        if \<not> (first = 0xE0 \<and> 0xA0 \<le> second \<and> second \<le> 0xBF \<or>
              0xE1 \<le> first \<and> first \<le> 0xEC \<and> continues second \<or>
              first = 0xED \<and> 0x80 \<le> second \<and> second \<le> 0x9F \<or>
              0xEE \<le> first \<and> continues second) then (1, False)
        else if continues (byte_at bs 2) then (3, True) else (2, False)
      else if 0xF0 \<le> first \<and> first \<le> 0xF4 then
        if \<not> (first = 0xF0 \<and> 0x90 \<le> second \<and> second \<le> 0xBF \<or>
              0xF1 \<le> first \<and> first \<le> 0xF3 \<and> continues second \<or>
              first = 0xF4 \<and> 0x80 \<le> second \<and> second \<le> 0x8F) then (1, False)
        else if \<not> continues (byte_at bs 2) then (2, False)
        else if continues (byte_at bs 3) then (4, True) else (3, False)
      else (1, False))"

definition replacement :: bytes where
  "replacement = [CHR 0xEF, CHR 0xBF, CHR 0xBD]"

lemma utf8_chunk_pos: "0 < fst (utf8_chunk bs)"
  by (simp add: utf8_chunk_def Let_def)

function from_utf8_lossy :: "bytes \<Rightarrow> bytes" where
  "from_utf8_lossy bs =
     (if bs = [] then []
      else (if snd (utf8_chunk bs) then take (fst (utf8_chunk bs)) bs else replacement) @
        from_utf8_lossy (drop (fst (utf8_chunk bs)) bs))"
  by pat_completeness auto
termination by (relation "measure length") (simp_all add: utf8_chunk_pos)

declare from_utf8_lossy.simps [simp del]

text \<open>The byte strings that are UTF-8, as every Rust string is.\<close>

function utf8 :: "bytes \<Rightarrow> bool" where
  "utf8 bs = (if bs = [] then True else if snd (utf8_chunk bs) then utf8 (drop (fst (utf8_chunk bs)) bs) else False)"
  by pat_completeness auto
termination by (relation "measure length") (simp_all add: utf8_chunk_pos)

declare utf8.simps [simp del]

lemma from_utf8_lossy_id: "utf8 bs \<Longrightarrow> from_utf8_lossy bs = bs"
proof (induction bs rule: from_utf8_lossy.induct)
  case (1 bs)
  then show ?case
    by (cases "bs = []") (auto simp: from_utf8_lossy.simps [of bs] from_utf8_lossy.simps [of "[]"] utf8.simps [of bs] split: if_splits)
qed

section \<open>Keys\<close>

text \<open>\<^verbatim>\<open>to_be_bytes\<close> and \<^verbatim>\<open>from_be_bytes\<close>.\<close>

fun be_bytes :: "nat \<Rightarrow> nat \<Rightarrow> bytes" where
  "be_bytes 0 x = []"
| "be_bytes (Suc n) x = be_bytes n (x div 256) @ [char_of x]"

definition from_be_bytes :: "bytes \<Rightarrow> nat" where
  "from_be_bytes bs = fold (\<lambda>c a. a * 256 + of_char c) bs 0"

lemma length_be_bytes [simp]: "length (be_bytes n x) = n"
  by (induction n arbitrary: x) auto

lemma from_be_bytes_snoc: "from_be_bytes (bs @ [c]) = from_be_bytes bs * 256 + of_char c"
  by (simp add: from_be_bytes_def)

lemma from_be_be_bytes: "from_be_bytes (be_bytes n x) = x mod 256 ^ n"
proof (induction n arbitrary: x)
  case (Suc n)
  have "x mod 256 ^ Suc n = (x div 256 mod 256 ^ n) * 256 + x mod 256"
    by (simp add: mod_mult2_eq mult.commute)
  with Suc show ?case by (simp add: from_be_bytes_snoc)
qed (simp add: from_be_bytes_def)

lemma append_less_append:
  "length p = length q \<Longrightarrow> p @ x < q @ y \<longleftrightarrow> p < q \<or> p = q \<and> x < (y :: 'a::linorder list)"
  by (induction p q rule: list_induct2) auto

lemma digits_less: "r < 256 \<Longrightarrow> s < 256 \<Longrightarrow> 256 * a + r < 256 * b + s \<longleftrightarrow> a < b \<or> a = b \<and> r < (s :: nat)"
  by (cases a b rule: linorder_cases) simp_all

lemma be_bytes_less: "x < 256 ^ n \<Longrightarrow> y < 256 ^ n \<Longrightarrow> be_bytes n x < be_bytes n y \<longleftrightarrow> x < y"
proof (induction n arbitrary: x y)
  case (Suc n)
  have d: "x div 256 < 256 ^ n" "y div 256 < 256 ^ n" using Suc.prems by (simp_all add: less_mult_imp_div_less mult.commute)
  have eq: "be_bytes n (x div 256) = be_bytes n (y div 256) \<longleftrightarrow> x div 256 = y div 256"
    by (metis from_be_be_bytes d mod_less)
  have "(char_of x :: char) < char_of y \<longleftrightarrow> x mod 256 < y mod 256" by (simp add: less_char_def)
  moreover have "x < y \<longleftrightarrow> x div 256 < y div 256 \<or> x div 256 = y div 256 \<and> x mod 256 < y mod 256"
    using digits_less [of "x mod 256" "y mod 256" "x div 256" "y div 256"] by simp
  ultimately show ?case using Suc.IH [OF d] by (simp add: append_less_append eq)
qed simp

datatype obs_error = ObsIo string | SourceTooLong nat | ObsSerialization string

definition encode_key :: "string \<Rightarrow> u64 \<Rightarrow> (obs_error, bytes) result" where
  "encode_key source timestamp_ms =
     (if length source > 65535 then Inl (SourceTooLong (length source))
      else Inr (be_bytes 2 (length source) @ source @ be_bytes 8 (unat timestamp_ms)))"

definition decode_key :: "bytes \<Rightarrow> (string \<times> u64) option" where
  "decode_key key =
     (if length key < 10 then None
      else let src_len = from_be_bytes (take 2 key) in
        if length key < 2 + src_len + 8 then None
        else Some (from_utf8_lossy (take src_len (drop 2 key)), of_nat (from_be_bytes (take 8 (drop (2 + src_len) key)))))"

text \<open>The key that \<open>encode_key\<close> makes when it makes one.\<close>

abbreviation fits_key :: "string \<Rightarrow> bool" where
  "fits_key source \<equiv> length source \<le> 65535"

definition obs_key :: "string \<Rightarrow> u64 \<Rightarrow> bytes" where
  "obs_key source ts = be_bytes 2 (length source) @ source @ be_bytes 8 (unat ts)"

lemma encode_key_eq: "encode_key source ts = (if fits_key source then Inr (obs_key source ts) else Inl (SourceTooLong (length source)))"
  by (simp add: encode_key_def obs_key_def)

lemma unat_u64_less: "unat (t :: u64) < 256 ^ 8"
  using unsigned_less [of t] by simp

lemma decode_obs_key: "utf8 source \<Longrightarrow> fits_key source \<Longrightarrow> decode_key (obs_key source ts) = Some (source, ts)"
  using unat_u64_less [of ts]
  by (simp add: decode_key_def obs_key_def from_be_be_bytes from_utf8_lossy_id Let_def)

lemma obs_key_less:
  "fits_key s \<Longrightarrow> fits_key s' \<Longrightarrow> obs_key s t < obs_key s' t' \<longleftrightarrow>
    length s < length s' \<or> length s = length s' \<and> (s < s' \<or> s = s' \<and> t < t')"
proof -
  assume f: "fits_key s" "fits_key s'"
  have "be_bytes 2 (length s) < be_bytes 2 (length s') \<longleftrightarrow> length s < length s'" using f by (intro be_bytes_less) auto
  moreover have "be_bytes 2 (length s) = be_bytes 2 (length s') \<longleftrightarrow> length s = length s'"
  proof -
    have "length s < 256 ^ 2" "length s' < 256 ^ 2" using f by simp_all
    then show ?thesis by (metis from_be_be_bytes mod_less)
  qed
  moreover have "be_bytes 8 (unat t) < be_bytes 8 (unat t') \<longleftrightarrow> t < t'"
    unfolding word_less_nat_alt by (rule be_bytes_less [OF unat_u64_less unat_u64_less])
  ultimately show ?thesis
    unfolding obs_key_def by (auto simp: append_less_append)
qed

lemma obs_key_inj: "fits_key s \<Longrightarrow> fits_key s' \<Longrightarrow> obs_key s t = obs_key s' t' \<longleftrightarrow> s = s' \<and> t = t'"
  using obs_key_less [of s s' t t'] obs_key_less [of s' s t' t] by (metis linorder_less_linear order_less_irrefl)

lemma obs_key_range:
  assumes "fits_key s" "fits_key s'"
  shows "obs_key s a \<le> obs_key s' t \<and> obs_key s' t \<le> obs_key s b \<longleftrightarrow> s' = s \<and> a \<le> t \<and> t \<le> b"
  using obs_key_less [OF assms, of b t] obs_key_less [OF assms(2,1), of t a] by (auto simp: linorder_not_less [symmetric])

end
