(* ===== verification/Silk_ObsLog.thy ===== *)
theory Silk_ObsLog
  imports Silk_ObsKey
begin

text \<open>
  The observation log of \<^verbatim>\<open>src/src/obslog.rs\<close>: an append-only, time-indexed table in its own \<^verbatim>\<open>redb\<close> file. \<open>R\<close> is
  the database, \<open>C\<close> the MessagePack codec of the values; the wall clock is an argument of the appends.
  \<^verbatim>\<open>size_bytes\<close>, a constant zero, and the file permissions are left out. The sum \<open>ts + i\<close> wraps, as in a
  release build.

  The theorem at the end is the contract: the log is a map from source and millisecond to
  value. Within one millisecond a later observation of a source replaces the earlier one.
\<close>

declare map_of_eq_Some_iff [simp del] Some_eq_map_of_iff [simp del]

section \<open>The log\<close>

record observation =
  ob_timestamp_ms :: u64
  ob_source :: string
  ob_value :: f64
  ob_metadata :: "(string, string) btree_map"

record obs_value =
  ov_value :: f64
  ov_metadata :: "(string, string) btree_map"

record 'v obs_codec =
  oc_bytes :: "obs_value \<Rightarrow> (string, 'v) result"
  oc_of :: "'v \<Rightarrow> (string, obs_value) result"

record 'd obs_log =
  og_db :: 'd
  og_max_age_secs :: u64

text \<open>\<^verbatim>\<open>map_err\<close> to the two error variants.\<close>

abbreviation oio :: "(string, 'a) result \<Rightarrow> (obs_error, 'a) result" where
  "oio r \<equiv> map_sum ObsIo id r"

abbreviation oser :: "(string, 'a) result \<Rightarrow> (obs_error, 'a) result" where
  "oser r \<equiv> map_sum ObsSerialization id r"

definition obs_open :: "('d, 't, 'v) redb \<Rightarrow> (string, 'd) result \<Rightarrow> u64 \<Rightarrow> (obs_error, 'd obs_log) result" where
  "obs_open R created max_age_secs =
     oio (rbind created (\<lambda>db.
       rbind (rd_begin_write R db) (\<lambda>t.
       rbind (rd_open_table R t ''observations'') (\<lambda>t1.
       rbind (rd_open_table R t1 ''obs_meta'') (\<lambda>t2.
       rbind (rd_commit R t2) (\<lambda>db1. Inr \<lparr>og_db = db1, og_max_age_secs = max_age_secs\<rparr>))))))"

definition obs_append :: "('d, 't, 'v) redb \<Rightarrow> 'v obs_codec \<Rightarrow> u64 \<Rightarrow> 'd obs_log \<Rightarrow> string \<Rightarrow> f64 \<Rightarrow> (string, string) btree_map \<Rightarrow>
    (obs_error, 'd obs_log) result" where
  "obs_append R C now_ms log source v metadata =
     rbind (encode_key source now_ms) (\<lambda>key.
     rbind (oser (oc_bytes C \<lparr>ov_value = v, ov_metadata = metadata\<rparr>)) (\<lambda>val.
     oio (rbind (rd_begin_write R (og_db log)) (\<lambda>t.
       rbind (rd_open_table R t ''observations'') (\<lambda>t1.
       rbind (rd_insert R t1 ''observations'' key val) (\<lambda>t2.
       rbind (rd_commit R t2) (\<lambda>db. Inr (log\<lparr>og_db := db\<rparr>))))))))"

text \<open>The \<open>i\<close>-th observation of a batch gets the time \<open>ts + i\<close>.\<close>

fun insert_batch :: "('d, 't, 'v) redb \<Rightarrow> 'v obs_codec \<Rightarrow> u64 \<Rightarrow> nat \<Rightarrow> (string \<times> f64 \<times> (string, string) btree_map) list \<Rightarrow> 't \<Rightarrow>
    (obs_error, 't) result" where
  "insert_batch R C ts i [] t = Inr t"
| "insert_batch R C ts i ((source, v, metadata) # os) t =
     rbind (encode_key source (ts + of_nat i)) (\<lambda>key.
     rbind (oser (oc_bytes C \<lparr>ov_value = v, ov_metadata = metadata\<rparr>)) (\<lambda>val.
     rbind (oio (rd_insert R t ''observations'' key val)) (insert_batch R C ts (i + 1) os)))"

definition obs_append_batch :: "('d, 't, 'v) redb \<Rightarrow> 'v obs_codec \<Rightarrow> u64 \<Rightarrow> 'd obs_log \<Rightarrow>
    (string \<times> f64 \<times> (string, string) btree_map) list \<Rightarrow> (obs_error, 'd obs_log) result" where
  "obs_append_batch R C now_ms log observations =
     rbind (oio (rd_begin_write R (og_db log))) (\<lambda>t.
     rbind (oio (rd_open_table R t ''observations'')) (\<lambda>t1.
     rbind (insert_batch R C now_ms 0 observations t1) (\<lambda>t2.
     rbind (oio (rd_commit R t2)) (\<lambda>db. Inr (log\<lparr>og_db := db\<rparr>)))))"

fun collect_source :: "'v obs_codec \<Rightarrow> string \<Rightarrow> (string, bytes \<times> 'v) result list \<Rightarrow> observation list \<Rightarrow> (obs_error, observation list) result" where
  "collect_source C source [] results = Inr results"
| "collect_source C source (item # items) results =
     rbind (oio item) (\<lambda>(k, v).
       case decode_key k of
         Some (src, ts) \<Rightarrow>
           if src = source then
             rbind (oser (oc_of C v)) (\<lambda>obs.
               collect_source C source items
                 (results @ [\<lparr>ob_timestamp_ms = ts, ob_source = src, ob_value = ov_value obs, ob_metadata = ov_metadata obs\<rparr>]))
           else collect_source C source items results
       | None \<Rightarrow> collect_source C source items results)"

definition obs_query :: "('d, 't, 'v) redb \<Rightarrow> 'v obs_codec \<Rightarrow> 'd obs_log \<Rightarrow> string \<Rightarrow> u64 \<Rightarrow> (obs_error, observation list) result" where
  "obs_query R C log source since_ts_ms =
     rbind (encode_key source since_ts_ms) (\<lambda>start.
     rbind (encode_key source (- 1)) (\<lambda>end_key.
     rbind (oio (rd_begin_read R (og_db log))) (\<lambda>t.
     rbind (oio (rd_open_table R t ''observations'')) (\<lambda>t1.
     rbind (oio (rd_range R t1 ''observations'' start end_key)) (\<lambda>items.
     collect_source C source items [])))))"

fun keep_latest :: "'v obs_codec \<Rightarrow> string \<Rightarrow> (string, bytes \<times> 'v) result list \<Rightarrow> observation option \<Rightarrow> (obs_error, observation option) result" where
  "keep_latest C source [] latest = Inr latest"
| "keep_latest C source (item # items) latest =
     rbind (oio item) (\<lambda>(k, v).
       case decode_key k of
         Some (src, ts) \<Rightarrow>
           if src = source then
             rbind (oser (oc_of C v)) (\<lambda>obs.
               keep_latest C source items
                 (Some \<lparr>ob_timestamp_ms = ts, ob_source = src, ob_value = ov_value obs, ob_metadata = ov_metadata obs\<rparr>))
           else keep_latest C source items latest
       | None \<Rightarrow> keep_latest C source items latest)"

definition obs_query_latest :: "('d, 't, 'v) redb \<Rightarrow> 'v obs_codec \<Rightarrow> 'd obs_log \<Rightarrow> string \<Rightarrow> (obs_error, observation option) result" where
  "obs_query_latest R C log source =
     rbind (encode_key source 0) (\<lambda>start.
     rbind (encode_key source (- 1)) (\<lambda>end_key.
     rbind (oio (rd_begin_read R (og_db log))) (\<lambda>t.
     rbind (oio (rd_open_table R t ''observations'')) (\<lambda>t1.
     rbind (oio (rd_range R t1 ''observations'' start end_key)) (\<lambda>items.
     keep_latest C source items None)))))"

fun collect_sources :: "(string, bytes \<times> 'v) result list \<Rightarrow> (string, unit) btree_map \<Rightarrow> (obs_error, string list) result" where
  "collect_sources [] seen = Inr (map fst seen)"
| "collect_sources (item # items) seen =
     rbind (oio item) (\<lambda>(k, _).
       collect_sources items (case decode_key k of Some (src, _) \<Rightarrow> bt_insert src () seen | None \<Rightarrow> seen))"

definition obs_sources :: "('d, 't, 'v) redb \<Rightarrow> 'd obs_log \<Rightarrow> (obs_error, string list) result" where
  "obs_sources R log =
     rbind (oio (rd_begin_read R (og_db log))) (\<lambda>t.
     rbind (oio (rd_open_table R t ''observations'')) (\<lambda>t1.
     rbind (oio (rd_iter R t1 ''observations'')) (\<lambda>items. collect_sources items [])))"

fun keys_before :: "u64 \<Rightarrow> (string, bytes \<times> 'v) result list \<Rightarrow> bytes list \<Rightarrow> (obs_error, bytes list) result" where
  "keys_before before_ts_ms [] to_delete = Inr to_delete"
| "keys_before before_ts_ms (item # items) to_delete =
     rbind (oio item) (\<lambda>(k, _).
       keys_before before_ts_ms items
         (case decode_key k of Some (_, ts) \<Rightarrow> if ts < before_ts_ms then to_delete @ [k] else to_delete | None \<Rightarrow> to_delete))"

fun delete_keys :: "('d, 't, 'v) redb \<Rightarrow> bytes list \<Rightarrow> 't \<Rightarrow> nat \<Rightarrow> (obs_error, 't \<times> nat) result" where
  "delete_keys R [] t deleted = Inr (t, deleted)"
| "delete_keys R (k # ks) t deleted = rbind (oio (rd_remove R t ''observations'' k)) (\<lambda>t1. delete_keys R ks t1 (deleted + 1))"

definition obs_truncate :: "('d, 't, 'v) redb \<Rightarrow> 'd obs_log \<Rightarrow> u64 \<Rightarrow> (obs_error, 'd obs_log \<times> nat) result" where
  "obs_truncate R log before_ts_ms =
     rbind (oio (rd_begin_write R (og_db log))) (\<lambda>t.
     rbind (oio (rd_open_table R t ''observations'')) (\<lambda>t1.
     rbind (oio (rd_iter R t1 ''observations'')) (\<lambda>items.
     rbind (keys_before before_ts_ms items []) (\<lambda>to_delete.
     rbind (delete_keys R to_delete t1 0) (\<lambda>(t2, deleted).
     rbind (oio (rd_commit R t2)) (\<lambda>db. Inr (log\<lparr>og_db := db\<rparr>, deleted)))))))"

definition obs_count :: "('d, 't, 'v) redb \<Rightarrow> 'd obs_log \<Rightarrow> (obs_error, nat) result" where
  "obs_count R log =
     rbind (oio (rd_begin_read R (og_db log))) (\<lambda>t.
     rbind (oio (rd_open_table R t ''observations'')) (\<lambda>t1.
     rbind (oio (rd_iter R t1 ''observations'')) (\<lambda>iter. Inr (length iter))))"

section \<open>Contents\<close>

text \<open>The specification: a map from source and time to value.\<close>

type_synonym obs_map = "string \<times> u64 \<rightharpoonup> obs_value"

text \<open>A row the log can have written, and the map that a table of such rows stands for.\<close>

definition row_ok :: "'v obs_codec \<Rightarrow> bytes \<times> 'v \<Rightarrow> bool" where
  "row_ok C kv \<longleftrightarrow> (\<exists>s t v. fst kv = obs_key s t \<and> fits_key s \<and> utf8 s \<and> oc_of C (snd kv) = Inr v)"

definition contents :: "'v obs_codec \<Rightarrow> (bytes, 'v) btree_map \<Rightarrow> obs_map" where
  "contents C tab = (\<lambda>(s, t).
     if fits_key s then
       (case map_of tab (obs_key s t) of None \<Rightarrow> None
        | Some b \<Rightarrow> (case oc_of C b of Inl _ \<Rightarrow> None | Inr v \<Rightarrow> Some v))
     else None)"

definition rows_ok :: "'v obs_codec \<Rightarrow> (bytes, 'v) btree_map \<Rightarrow> bool" where
  "rows_ok C tab \<longleftrightarrow> (\<forall>kv \<in> set tab. row_ok C kv)"

definition obs_codec_laws :: "'v obs_codec \<Rightarrow> bool" where
  "obs_codec_laws C \<longleftrightarrow> (\<forall>v. \<exists>b. oc_bytes C v = Inr b \<and> oc_of C b = Inr v)"

lemma oio_Inr [simp]: "oio r = Inr x \<longleftrightarrow> r = Inr x" "oser r = Inr x \<longleftrightarrow> r = Inr x"
  by (cases r; auto)+

section \<open>Reading\<close>

lemma row_okE:
  assumes "row_ok C kv"
  obtains s t v where "fst kv = obs_key s t" "fits_key s" "utf8 s" "oc_of C (snd kv) = Inr v" "decode_key (fst kv) = Some (s, t)"
  using assms decode_obs_key unfolding row_ok_def by metis

definition row_obs :: "'v obs_codec \<Rightarrow> bytes \<times> 'v \<Rightarrow> observation" where
  "row_obs C kv = (let (s, t) = the (decode_key (fst kv)); v = projr (oc_of C (snd kv)) in
     \<lparr>ob_timestamp_ms = t, ob_source = s, ob_value = ov_value v, ob_metadata = ov_metadata v\<rparr>)"

lemma collect_source_rows:
  "rows_ok C rows \<Longrightarrow> collect_source C source (map Inr rows) results
    = Inr (results @ filter (\<lambda>ob. ob_source ob = source) (map (row_obs C) rows))"
proof (induction rows arbitrary: results)
  case (Cons kv rows)
  then have "row_ok C kv" "rows_ok C rows" by (simp_all add: rows_ok_def)
  then show ?case using Cons.IH by (elim row_okE) (cases kv; auto simp: row_obs_def)
qed simp

text \<open>\<^verbatim>\<open>query_latest\<close> is the last element of \<^verbatim>\<open>query\<close>, errors included.\<close>

lemma keep_latest_collect:
  "keep_latest C source items (if results = [] then None else Some (last results))
    = map_sum id (\<lambda>xs. if xs = [] then None else Some (last xs)) (collect_source C source items results)"
proof (induction items arbitrary: results)
  case (Cons item items)
  show ?case
  proof (cases item)
    case (Inr kv)
    obtain k v where kv: "kv = (k, v)" by fastforce
    show ?thesis
    proof (cases "decode_key k")
      case None
      then show ?thesis using Cons.IH by (simp add: Inr kv)
    next
      case (Some st)
      obtain src ts where st: "st = (src, ts)" by fastforce
      show ?thesis
        using Cons.IH [of results] Cons.IH [of "results @ [\<lparr>ob_timestamp_ms = ts, ob_source = src, ob_value = ov_value obs, ob_metadata = ov_metadata obs\<rparr>]" for obs]
        by (cases "oc_of C v") (auto simp: Inr kv Some st)
    qed
  qed simp
qed simp

lemma query_latest_is_last:
  "obs_query_latest R C log source = map_sum id (\<lambda>xs. if xs = [] then None else Some (last xs)) (obs_query R C log source 0)"
proof -
  have eq: "keep_latest C source items None = map_sum id (\<lambda>xs. if xs = [] then None else Some (last xs)) (collect_source C source items [])" for items
    using keep_latest_collect [of C source items "[]"] by simp
  have pull: "map_sum id f (rbind r g) = rbind r (\<lambda>x. map_sum id f (g x))"
    for f :: "'x \<Rightarrow> 'y" and r :: "('e, 'z) result" and g :: "'z \<Rightarrow> ('e, 'x) result"
    by (cases r) simp_all
  show ?thesis unfolding obs_query_latest_def obs_query_def pull eq ..
qed

abbreviation obs_of :: "string \<Rightarrow> u64 \<Rightarrow> obs_value \<Rightarrow> observation" where
  "obs_of s t v \<equiv> \<lparr>ob_timestamp_ms = t, ob_source = s, ob_value = ov_value v, ob_metadata = ov_metadata v\<rparr>"

lemma contents_Some_iff:
  "contents C tab (s, t) = Some v \<longleftrightarrow>
    fits_key s \<and> (\<exists>b. map_of tab (obs_key s t) = Some b \<and> oc_of C b = Inr v)"
  by (auto simp: contents_def split: option.splits sum.splits)

lemma row_contents:
  assumes "bt_wf tab" "rows_ok C tab"
  shows "kv \<in> set tab \<longleftrightarrow>
    (\<exists>s t v. fst kv = obs_key s t \<and> decode_key (fst kv) = Some (s, t) \<and> oc_of C (snd kv) = Inr v \<and> contents C tab (s, t) = Some v \<and>
       map_of tab (obs_key s t) = Some (snd kv))"
proof
  assume kv: "kv \<in> set tab"
  then have "row_ok C kv" using assms(2) by (auto simp: rows_ok_def)
  then show "\<exists>s t v. fst kv = obs_key s t \<and> decode_key (fst kv) = Some (s, t) \<and> oc_of C (snd kv) = Inr v \<and> contents C tab (s, t) = Some v \<and>
       map_of tab (obs_key s t) = Some (snd kv)"
  proof (rule row_okE)
    fix s t v assume r: "fst kv = obs_key s t" "fits_key s" "utf8 s" "oc_of C (snd kv) = Inr v" "decode_key (fst kv) = Some (s, t)"
    moreover have m: "map_of tab (fst kv) = Some (snd kv)"
      using kv bt_wf_distinct [OF assms(1)] by (simp add: map_of_eq_Some_iff)
    ultimately have "contents C tab (s, t) = Some v" unfolding contents_Some_iff by auto
    then show ?thesis using r m by auto
  qed
next
  assume "\<exists>s t v. fst kv = obs_key s t \<and> decode_key (fst kv) = Some (s, t) \<and> oc_of C (snd kv) = Inr v \<and> contents C tab (s, t) = Some v \<and>
       map_of tab (obs_key s t) = Some (snd kv)"
  then have "map_of tab (fst kv) = Some (snd kv)" by auto
  then show "kv \<in> set tab" using map_of_SomeD by fastforce
qed

lemma contents_row:
  assumes "rows_ok C tab" "contents C tab (s, t) = Some v"
  obtains b where "(obs_key s t, b) \<in> set tab" "decode_key (obs_key s t) = Some (s, t)" "oc_of C b = Inr v"
    "map_of tab (obs_key s t) = Some b"
proof -
  obtain b where b: "fits_key s" "map_of tab (obs_key s t) = Some b" "oc_of C b = Inr v"
    using assms(2) unfolding contents_Some_iff by blast
  have row: "(obs_key s t, b) \<in> set tab" using b(2) by (rule map_of_SomeD)
  then have "row_ok C (obs_key s t, b)" using assms(1) by (auto simp: rows_ok_def)
  then have "decode_key (obs_key s t) = Some (s, t)"
    using obs_key_inj b(1) by (elim row_okE) (auto simp: decode_obs_key)
  then show ?thesis using that row b by blast
qed

lemma rows_sorted_time:
  assumes "bt_wf tab" "rows_ok C tab"
  shows "sorted_wrt (<) (map ob_timestamp_ms (filter (\<lambda>ob. ob_source ob = source) (map (row_obs C) tab)))"
  using assms
proof (induction tab)
  case (Cons kv tab)
  have ok: "row_ok C kv" "rows_ok C tab" and wf: "bt_wf tab" "\<forall>kv' \<in> set tab. fst kv < fst kv'"
    using Cons.prems by (auto simp: rows_ok_def bt_wf_def)
  have "ob_timestamp_ms (row_obs C kv) < ob_timestamp_ms (row_obs C kv')"
    if "kv' \<in> set tab" "ob_source (row_obs C kv) = ob_source (row_obs C kv')" for kv'
  proof -
    have "row_ok C kv'" "fst kv < fst kv'" using that(1) ok(2) wf(2) by (auto simp: rows_ok_def)
    then show ?thesis using ok(1) that(2) by (elim row_okE) (auto simp: row_obs_def obs_key_less)
  qed
  then show ?case using Cons.IH ok(2) wf(1) by auto
qed simp

section \<open>The contract of the queries\<close>

definition obs_inv :: "'v obs_codec \<Rightarrow> ('d \<Rightarrow> 'v tables) \<Rightarrow> 'd obs_log \<Rightarrow> bool" where
  "obs_inv C dv log \<longleftrightarrow> rows_ok C (dv (og_db log) ''observations'')"

lemma iter_rows:
  assumes R: "redb_laws R tv dv" "redb_up R"
  shows "\<exists>t t1. rd_begin_read R db = Inr t \<and> rd_open_table R t n = Inr t1 \<and> rd_iter R t1 n = Inr (map Inr (dv db n)) \<and>
    (\<forall>a b. rd_range R t1 n a b = Inr (map Inr (filter (\<lambda>(k, _). a \<le> k \<and> k \<le> b) (dv db n))))"
proof -
  obtain t where t: "rd_begin_read R db = Inr t" using redb_upE(2) [OF R(2)] by blast
  obtain t1 where t1: "rd_open_table R t n = Inr t1" using redb_upE(3) [OF R(2)] by blast
  have v: "tv t1 = dv db" using redb_lawsD(2) [OF R(1) t] redb_lawsD(3) [OF R(1) t1] by simp
  obtain items where i: "rd_iter R t1 n = Inr items" "list_all (\<lambda>i. \<not> isl i) items" using redb_upE(7) [OF R(2)] by blast
  have "rd_iter R t1 n = Inr (map Inr (dv db n))" using all_readable [OF redb_lawsD(6) [OF R(1) i(1)] i(2)] i(1) v by simp
  moreover have "rd_range R t1 n a b = Inr (map Inr (filter (\<lambda>(k, _). a \<le> k \<and> k \<le> b) (dv db n)))" for a b
  proof -
    obtain items where r: "rd_range R t1 n a b = Inr items" "list_all (\<lambda>i. \<not> isl i) items" using redb_upE(8) [OF R(2)] by blast
    then show ?thesis using all_readable [OF redb_lawsD(7) [OF R(1) r(1)] r(2)] v by simp
  qed
  ultimately show ?thesis using t t1 by blast
qed

lemma query_exact:
  assumes R: "redb_laws R tv dv" "redb_up R" and inv: "obs_inv C dv log" and s: "fits_key source"
  shows "\<exists>xs. obs_query R C log source since = Inr xs \<and> sorted_wrt (<) (map ob_timestamp_ms xs) \<and>
    set xs = {obs_of source t v |t v. contents C (dv (og_db log) ''observations'') (source, t) = Some v \<and> since \<le> t}"
proof -
  let ?tab = "dv (og_db log) ''observations''"
  define rows where "rows = filter (\<lambda>(k, _). obs_key source since \<le> k \<and> k \<le> obs_key source (- 1)) ?tab"
  have wf: "bt_wf ?tab" by (rule redb_lawsD(9) [OF R(1)])
  have ok: "rows_ok C ?tab" using inv by (simp add: obs_inv_def)
  have rok: "rows_ok C rows" "bt_wf rows" using ok wf by (auto simp: rows_def rows_ok_def bt_wf_def sorted_wrt_map sorted_wrt_filter)
  obtain t t1 where q: "rd_begin_read R (og_db log) = Inr t" "rd_open_table R t ''observations'' = Inr t1"
    "\<forall>a b. rd_range R t1 ''observations'' a b = Inr (map Inr (filter (\<lambda>(k, _). a \<le> k \<and> k \<le> b) ?tab))"
    using iter_rows [OF R] by blast
  let ?xs = "filter (\<lambda>ob. ob_source ob = source) (map (row_obs C) rows)"
  have "obs_query R C log source since = Inr ?xs"
    using q s collect_source_rows [OF rok(1), of source "[]"] by (simp add: obs_query_def encode_key_eq rows_def)
  moreover have "set ?xs = {obs_of source t v |t v. contents C (dv (og_db log) ''observations'') (source, t) = Some v \<and> since \<le> t}"
  proof (intro set_eqI iffI)
    fix ob assume "ob \<in> set ?xs"
    then obtain kv where kv: "kv \<in> set ?tab" "obs_key source since \<le> fst kv" "ob = row_obs C kv" "ob_source ob = source"
      by (auto simp: rows_def)
    from kv(1) obtain s t v where r: "fst kv = obs_key s t" "decode_key (fst kv) = Some (s, t)" "oc_of C (snd kv) = Inr v"
      "contents C (dv (og_db log) ''observations'') (s, t) = Some v" unfolding row_contents [OF wf ok] by blast
    then have "s = source" using kv(3,4) by (simp add: row_obs_def)
    moreover have "since \<le> t" using kv(2) r(1) \<open>s = source\<close> obs_key_less [OF s s, of t since] by (auto simp: linorder_not_less [symmetric])
    ultimately show "ob \<in> {obs_of source t v |t v. contents C (dv (og_db log) ''observations'') (source, t) = Some v \<and> since \<le> t}"
      using r kv(3) by (auto simp: row_obs_def)
  next
    fix ob assume "ob \<in> {obs_of source t v |t v. contents C (dv (og_db log) ''observations'') (source, t) = Some v \<and> since \<le> t}"
    then obtain t v where c: "ob = obs_of source t v" "contents C (dv (og_db log) ''observations'') (source, t) = Some v" "since \<le> t" by blast
    obtain b where b: "(obs_key source t, b) \<in> set ?tab" "decode_key (obs_key source t) = Some (source, t)" "oc_of C b = Inr v"
      using contents_row [OF ok c(2)] by blast
    have "t \<le> - 1" by simp
    then have "(obs_key source t, b) \<in> set rows"
      using b(1) obs_key_range [OF s s, of since t "- 1"] c(3) by (simp add: rows_def)
    moreover have "row_obs C (obs_key source t, b) = ob" using b c(1) by (simp add: row_obs_def)
    ultimately show "ob \<in> set ?xs" using c(1) by (force simp: image_iff)
  qed
  ultimately show ?thesis using rows_sorted_time [OF rok(2,1)] by blast
qed

section \<open>Writing\<close>

lemma rows_ok_insert: "rows_ok C tab \<Longrightarrow> row_ok C (k, b) \<Longrightarrow> rows_ok C (bt_insert k b tab)"
  by (induction tab) (auto simp: rows_ok_def)

lemma contents_insert:
  assumes "oc_of C b = Inr v" "fits_key s"
  shows "contents C (bt_insert (obs_key s t) b tab) = (contents C tab)((s, t) \<mapsto> v)"
proof (rule ext, clarify)
  fix s' t'
  show "contents C (bt_insert (obs_key s t) b tab) (s', t') = ((contents C tab)((s, t) \<mapsto> v)) (s', t')"
    using assms obs_key_inj [of s' s t' t] by (auto simp: contents_def bt_get_insert)
qed

lemma insert_written:
  assumes R: "redb_laws R tv dv" "redb_up R" and C: "obs_codec_laws C" and inv: "obs_inv C dv log" and s: "fits_key source" "utf8 source"
  shows "\<exists>log'. obs_append R C now log source v md = Inr log' \<and> obs_inv C dv log' \<and>
    contents C (dv (og_db log') ''observations'') = (contents C (dv (og_db log) ''observations''))((source, now) \<mapsto> \<lparr>ov_value = v, ov_metadata = md\<rparr>)"
proof -
  obtain b where b: "oc_bytes C \<lparr>ov_value = v, ov_metadata = md\<rparr> = Inr b" "oc_of C b = Inr \<lparr>ov_value = v, ov_metadata = md\<rparr>"
    using C by (auto simp: obs_codec_laws_def)
  obtain t where t: "rd_begin_write R (og_db log) = Inr t" using redb_upE(1) [OF R(2)] by blast
  obtain t1 where t1: "rd_open_table R t ''observations'' = Inr t1" using redb_upE(3) [OF R(2)] by blast
  obtain t2 where t2: "rd_insert R t1 ''observations'' (obs_key source now) b = Inr t2" using redb_upE(4) [OF R(2)] by blast
  obtain db where db: "rd_commit R t2 = Inr db" using redb_upE(6) [OF R(2)] by blast
  have "dv db ''observations'' = bt_insert (obs_key source now) b (dv (og_db log) ''observations'')"
    using redb_lawsD(1) [OF R(1) t] redb_lawsD(3) [OF R(1) t1] redb_lawsD(4) [OF R(1) t2] redb_lawsD(8) [OF R(1) db] by simp
  moreover have "row_ok C (obs_key source now, b)" using b(2) s by (auto simp: row_ok_def)
  ultimately show ?thesis
    using t t1 t2 db b s inv by (simp add: obs_append_def encode_key_eq obs_inv_def rows_ok_insert contents_insert)
qed

text \<open>A batch as the map sees it.\<close>

fun put_batch :: "u64 \<Rightarrow> nat \<Rightarrow> (string \<times> f64 \<times> (string, string) btree_map) list \<Rightarrow> obs_map \<Rightarrow> obs_map" where
  "put_batch ts i [] m = m"
| "put_batch ts i ((source, v, md) # os) m = put_batch ts (i + 1) os (m((source, ts + of_nat i) \<mapsto> \<lparr>ov_value = v, ov_metadata = md\<rparr>))"

lemma insert_batch_ok:
  assumes R: "redb_laws R tv dv" "redb_up R" and C: "obs_codec_laws C"
  shows "\<forall>(source, _) \<in> set os. fits_key source \<and> utf8 source \<Longrightarrow> rows_ok C (tv t ''observations'') \<Longrightarrow>
    \<exists>t'. insert_batch R C ts i os t = Inr t' \<and> rows_ok C (tv t' ''observations'') \<and>
      contents C (tv t' ''observations'') = put_batch ts i os (contents C (tv t ''observations''))"
proof (induction os arbitrary: t i)
  case (Cons ob os)
  obtain source v md where ob: "ob = (source, v, md)" using prod_cases3 by blast
  have s: "fits_key source" "utf8 source" using Cons.prems(1) by (auto simp: ob)
  obtain b where b: "oc_bytes C \<lparr>ov_value = v, ov_metadata = md\<rparr> = Inr b" "oc_of C b = Inr \<lparr>ov_value = v, ov_metadata = md\<rparr>"
    using C by (auto simp: obs_codec_laws_def)
  obtain t1 where t1: "rd_insert R t ''observations'' (obs_key source (ts + of_nat i)) b = Inr t1" using redb_upE(4) [OF R(2)] by blast
  have tab: "tv t1 ''observations'' = bt_insert (obs_key source (ts + of_nat i)) b (tv t ''observations'')"
    using redb_lawsD(4) [OF R(1) t1] by simp
  have "row_ok C (obs_key source (ts + of_nat i), b)" using b(2) s by (auto simp: row_ok_def)
  then have "rows_ok C (tv t1 ''observations'')" using Cons.prems(2) tab by (simp add: rows_ok_insert)
  from Cons.IH [OF _ this, of "i + 1"] Cons.prems(1)
  obtain t' where "insert_batch R C ts (i + 1) os t1 = Inr t'" "rows_ok C (tv t' ''observations'')"
    "contents C (tv t' ''observations'') = put_batch ts (i + 1) os (contents C (tv t1 ''observations''))" by auto
  then show ?case using b t1 s by (simp add: ob encode_key_eq tab contents_insert)
qed simp

lemma insert_batch_error: "\<exists>(source, _) \<in> set os. \<not> fits_key source \<Longrightarrow> \<exists>e. insert_batch R C ts i os t = Inl e"
proof (induction R C ts i os t rule: insert_batch.induct)
  case (2 R C ts i source v md os t)
  show ?case
  proof (cases "insert_batch R C ts i ((source, v, md) # os) t")
    case (Inr t')
    then obtain t1 where f: "fits_key source" and t1: "insert_batch R C ts (i + 1) os t1 = Inr t'"
      by (auto simp: rbind_Inr_iff encode_key_eq split: if_splits)
    have "\<exists>(source, _) \<in> set os. \<not> fits_key source" using 2(2) f by auto
    then have "\<exists>e. insert_batch R C ts (i + 1) os t1 = Inl e" by (rule 2(1))
    then show ?thesis using t1 by auto
  qed auto
qed simp

lemma batch_written:
  assumes R: "redb_laws R tv dv" "redb_up R" and C: "obs_codec_laws C" and inv: "obs_inv C dv log"
    and s: "\<forall>(source, _) \<in> set os. fits_key source \<and> utf8 source"
  shows "\<exists>log'. obs_append_batch R C now log os = Inr log' \<and> obs_inv C dv log' \<and>
    contents C (dv (og_db log') ''observations'') = put_batch now 0 os (contents C (dv (og_db log) ''observations''))"
proof -
  obtain t where t: "rd_begin_write R (og_db log) = Inr t" using redb_upE(1) [OF R(2)] by blast
  obtain t1 where t1: "rd_open_table R t ''observations'' = Inr t1" using redb_upE(3) [OF R(2)] by blast
  have v: "tv t1 = dv (og_db log)" using redb_lawsD(1) [OF R(1) t] redb_lawsD(3) [OF R(1) t1] by simp
  obtain t2 where t2: "insert_batch R C now 0 os t1 = Inr t2" "rows_ok C (tv t2 ''observations'')"
    "contents C (tv t2 ''observations'') = put_batch now 0 os (contents C (tv t1 ''observations''))"
    using insert_batch_ok [OF R C s, of t1 now 0] inv v by (auto simp: obs_inv_def)
  obtain db where db: "rd_commit R t2 = Inr db" using redb_upE(6) [OF R(2)] by blast
  note v2 = redb_lawsD(8) [OF R(1) db]
  show ?thesis
    using t t1 t2 db v v2 by (simp add: obs_append_batch_def obs_inv_def)
qed

section \<open>Truncation and counting\<close>

abbreviation key_of :: "bytes \<times> 'v \<Rightarrow> string \<times> u64" where
  "key_of kv \<equiv> the (decode_key (fst kv))"

lemma keys_before_rows:
  "rows_ok C rows \<Longrightarrow> keys_before before (map Inr rows) ks = Inr (ks @ map fst (filter (\<lambda>kv. snd (key_of kv) < before) rows))"
proof (induction rows arbitrary: ks)
  case (Cons kv rows)
  then have "row_ok C kv" "rows_ok C rows" by (simp_all add: rows_ok_def)
  then show ?case using Cons.IH by (elim row_okE) (cases kv; auto)
qed simp

lemma delete_keys_ok:
  assumes R: "redb_laws R tv dv" "redb_up R"
  shows "\<exists>t'. delete_keys R ks t n = Inr (t', n + length ks) \<and>
    tv t' ''observations'' = filter (\<lambda>kv. fst kv \<notin> set ks) (tv t ''observations'')"
proof (induction ks arbitrary: t n)
  case (Cons k ks)
  obtain t1 where t1: "rd_remove R t ''observations'' k = Inr t1" using redb_upE(5) [OF R(2)] by blast
  have "tv t1 ''observations'' = filter (\<lambda>kv. fst kv \<noteq> k) (tv t ''observations'')"
    using redb_lawsD(5) [OF R(1) t1] by (auto simp: AList.delete_eq intro!: filter_cong)
  then show ?case using Cons [of t1 "n + 1"] t1 by (auto intro!: filter_cong)
qed simp

lemma rows_card:
  assumes wf: "bt_wf tab" and ok: "rows_ok C tab"
  shows "length (filter (\<lambda>kv. P (key_of kv)) tab) = card {st \<in> dom (contents C tab). P st}"
proof -
  let ?rows = "filter (\<lambda>kv. P (key_of kv)) tab"
  have "distinct (map fst ?rows)" using bt_wf_distinct [OF wf] by (rule distinct_map_filter)
  then have "length ?rows = card (fst ` set ?rows)" using distinct_card [of "map fst ?rows"] by (simp del: set_filter)
  also have "fst ` set ?rows = (\<lambda>(s, t). obs_key s t) ` {st \<in> dom (contents C tab). P st}"
  proof (intro set_eqI iffI)
    fix k assume "k \<in> fst ` set ?rows"
    then obtain kv where kv: "kv \<in> set tab" "P (key_of kv)" "k = fst kv" by auto
    then show "k \<in> (\<lambda>(s, t). obs_key s t) ` {st \<in> dom (contents C tab). P st}"
      unfolding row_contents [OF wf ok] by force
  next
    fix k assume "k \<in> (\<lambda>(s, t). obs_key s t) ` {st \<in> dom (contents C tab). P st}"
    then obtain s t v where k: "k = obs_key s t" "contents C tab (s, t) = Some v" "P (s, t)" by auto
    obtain b where "(obs_key s t, b) \<in> set tab" "decode_key (obs_key s t) = Some (s, t)"
      using contents_row [OF ok k(2)] by blast
    then show "k \<in> fst ` set ?rows" using k by force
  qed
  also have "card \<dots> = card {st \<in> dom (contents C tab). P st}"
  proof (rule card_image, rule inj_onI, clarify)
    fix s t s' t' v v' assume "obs_key s t = obs_key s' t'" "contents C tab (s, t) = Some v" "contents C tab (s', t') = Some v'"
    then show "s = s' \<and> t = t'" using obs_key_inj unfolding contents_Some_iff by blast
  qed
  finally show ?thesis .
qed

lemma map_of_filter_keys: "map_of (filter (\<lambda>kv. fst kv \<notin> A) tab) k = (if k \<in> A then None else map_of tab k)"
  by (induction tab) auto

lemma contents_filter:
  assumes ok: "rows_ok C tab"
  shows "contents C (filter (\<lambda>kv. fst kv \<notin> fst ` set (filter (\<lambda>kv. snd (key_of kv) < before) tab)) tab)
    = contents C tab |` {(s, t). before \<le> t}"
proof (rule ext, clarify)
  fix s t
  let ?A = "fst ` set (filter (\<lambda>kv. snd (key_of kv) < before) tab)"
  have del: "obs_key s t \<in> ?A \<longleftrightarrow> t < before" if "contents C tab (s, t) = Some v" for v
  proof -
    obtain b where "(obs_key s t, b) \<in> set tab" "decode_key (obs_key s t) = Some (s, t)"
      using contents_row [OF ok \<open>contents C tab (s, t) = Some v\<close>] by blast
    then show ?thesis by (auto simp: image_iff)
  qed
  have "contents C (filter (\<lambda>kv. fst kv \<notin> ?A) tab) (s, t) = (if obs_key s t \<in> ?A then None else contents C tab (s, t))"
    by (simp add: contents_def map_of_filter_keys)
  then show "contents C (filter (\<lambda>kv. fst kv \<notin> ?A) tab) (s, t) = (contents C tab |` {(s, t). before \<le> t}) (s, t)"
    using del by (cases "contents C tab (s, t)") (auto simp: restrict_map_def)
qed

lemma truncate_written:
  assumes R: "redb_laws R tv dv" "redb_up R" and inv: "obs_inv C dv log"
  shows "\<exists>log'. obs_truncate R log before = Inr (log', card {st \<in> dom (contents C (dv (og_db log) ''observations'')). snd st < before}) \<and>
    obs_inv C dv log' \<and>
    contents C (dv (og_db log') ''observations'') = contents C (dv (og_db log) ''observations'') |` {(s, t). before \<le> t}"
proof -
  let ?tab = "dv (og_db log) ''observations''"
  let ?old = "filter (\<lambda>kv. snd (key_of kv) < before) ?tab"
  have wf: "bt_wf ?tab" and ok: "rows_ok C ?tab" using redb_lawsD(9) [OF R(1)] inv by (simp_all add: obs_inv_def)
  obtain t where t: "rd_begin_write R (og_db log) = Inr t" using redb_upE(1) [OF R(2)] by blast
  obtain t1 where t1: "rd_open_table R t ''observations'' = Inr t1" using redb_upE(3) [OF R(2)] by blast
  have v: "tv t1 ''observations'' = ?tab" using redb_lawsD(1) [OF R(1) t] redb_lawsD(3) [OF R(1) t1] by simp
  obtain items where i: "rd_iter R t1 ''observations'' = Inr items" "list_all (\<lambda>i. \<not> isl i) items" using redb_upE(7) [OF R(2)] by blast
  have items: "items = map Inr ?tab" using all_readable [OF redb_lawsD(6) [OF R(1) i(1)] i(2)] v by simp
  obtain t2 where t2: "delete_keys R (map fst ?old) t1 0 = Inr (t2, length ?old)"
    "tv t2 ''observations'' = filter (\<lambda>kv. fst kv \<notin> set (map fst ?old)) ?tab"
    using delete_keys_ok [OF R, of "map fst ?old" t1 0] v by auto
  obtain db where db: "rd_commit R t2 = Inr db" using redb_upE(6) [OF R(2)] by blast
  have "obs_truncate R log before = Inr (log\<lparr>og_db := db\<rparr>, length ?old)"
    using t t1 i(1) items t2(1) db keys_before_rows [OF ok, of before "[]"] by (simp add: obs_truncate_def)
  moreover have "length ?old = card {st \<in> dom (contents C ?tab). snd st < before}" by (rule rows_card [OF wf ok])
  moreover have "rows_ok C (filter P ?tab)" for P using ok by (auto simp: rows_ok_def)
  ultimately show ?thesis
    using t2(2) redb_lawsD(8) [OF R(1) db] contents_filter [OF ok, of before] by (auto simp: obs_inv_def)
qed

lemma collect_sources_rows:
  "rows_ok C rows \<Longrightarrow> bt_wf seen \<Longrightarrow>
    \<exists>xs. collect_sources (map Inr rows) seen = Inr xs \<and> sorted_wrt (<) xs \<and> set xs = fst ` set seen \<union> (\<lambda>kv. fst (key_of kv)) ` set rows"
proof (induction rows arbitrary: seen)
  case (Cons kv rows)
  then have ok: "row_ok C kv" "rows_ok C rows" by (simp_all add: rows_ok_def)
  obtain s t where d: "decode_key (fst kv) = Some (s, t)" using ok(1) by (rule row_okE)
  from Cons.IH [OF ok(2) bt_wf_insert [OF Cons.prems(2), of s "()"]] show ?case
    using d by (cases kv) (auto simp: bt_keys_insert)
qed (simp add: bt_wf_def)

lemma sources_exact:
  assumes R: "redb_laws R tv dv" "redb_up R" and inv: "obs_inv C dv log"
  shows "\<exists>xs. obs_sources R log = Inr xs \<and> sorted_wrt (<) xs \<and> set xs = fst ` dom (contents C (dv (og_db log) ''observations''))"
    and "obs_count R log = Inr (card (dom (contents C (dv (og_db log) ''observations''))))"
proof -
  let ?tab = "dv (og_db log) ''observations''"
  have wf: "bt_wf ?tab" and ok: "rows_ok C ?tab" using redb_lawsD(9) [OF R(1)] inv by (simp_all add: obs_inv_def)
  obtain t t1 where q: "rd_begin_read R (og_db log) = Inr t" "rd_open_table R t ''observations'' = Inr t1"
    "rd_iter R t1 ''observations'' = Inr (map Inr ?tab)"
    using iter_rows [OF R] by blast
  obtain xs where xs: "collect_sources (map Inr ?tab) [] = Inr xs" "sorted_wrt (<) xs" "set xs = (\<lambda>kv. fst (key_of kv)) ` set ?tab"
    using collect_sources_rows [OF ok, of "[]"] by (auto simp: bt_wf_def)
  have "(\<lambda>kv. fst (key_of kv)) ` set ?tab = fst ` dom (contents C ?tab)"
  proof (intro set_eqI iffI)
    fix s assume "s \<in> (\<lambda>kv. fst (key_of kv)) ` set ?tab"
    then obtain kv where "kv \<in> set ?tab" "s = fst (key_of kv)" by blast
    then show "s \<in> fst ` dom (contents C ?tab)" unfolding row_contents [OF wf ok] by force
  next
    fix s assume "s \<in> fst ` dom (contents C ?tab)"
    then obtain t v where "contents C ?tab (s, t) = Some v" by auto
    then obtain b where "(obs_key s t, b) \<in> set ?tab" "decode_key (obs_key s t) = Some (s, t)" using contents_row [OF ok] by blast
    then show "s \<in> (\<lambda>kv. fst (key_of kv)) ` set ?tab" by force
  qed
  then show "\<exists>xs. obs_sources R log = Inr xs \<and> sorted_wrt (<) xs \<and> set xs = fst ` dom (contents C ?tab)"
    using q xs by (simp add: obs_sources_def)
  show "obs_count R log = Inr (card (dom (contents C ?tab)))"
    using q rows_card [OF wf ok, of "\<lambda>_. True"] by (simp add: obs_count_def)
qed

section \<open>The log is a map\<close>

datatype obs_op =
    ObsAppend u64 string f64 "(string, string) btree_map"
  | ObsBatch u64 "(string \<times> f64 \<times> (string, string) btree_map) list"
  | ObsTruncate u64

fun obs_step :: "('d, 't, 'v) redb \<Rightarrow> 'v obs_codec \<Rightarrow> obs_op \<Rightarrow> 'd obs_log \<Rightarrow> 'd obs_log" where
  "obs_step R C (ObsAppend now s v md) log = (case obs_append R C now log s v md of Inl _ \<Rightarrow> log | Inr log' \<Rightarrow> log')"
| "obs_step R C (ObsBatch now os) log = (case obs_append_batch R C now log os of Inl _ \<Rightarrow> log | Inr log' \<Rightarrow> log')"
| "obs_step R C (ObsTruncate before) log = (case obs_truncate R log before of Inl _ \<Rightarrow> log | Inr (log', _) \<Rightarrow> log')"

fun map_step :: "obs_op \<Rightarrow> obs_map \<Rightarrow> obs_map" where
  "map_step (ObsAppend now s v md) m = (if fits_key s then m((s, now) \<mapsto> \<lparr>ov_value = v, ov_metadata = md\<rparr>) else m)"
| "map_step (ObsBatch now os) m = (if \<forall>(s, _) \<in> set os. fits_key s then put_batch now 0 os m else m)"
| "map_step (ObsTruncate before) m = m |` {(s, t). before \<le> t}"

fun op_sources :: "obs_op \<Rightarrow> string set" where
  "op_sources (ObsAppend now s v md) = {s}"
| "op_sources (ObsBatch now os) = fst ` set os"
| "op_sources (ObsTruncate before) = {}"

lemma obs_step_refines:
  assumes R: "redb_laws R tv dv" "redb_up R" and C: "obs_codec_laws C" and inv: "obs_inv C dv log" and u: "\<forall>s \<in> op_sources e. utf8 s"
  shows "obs_inv C dv (obs_step R C e log) \<and>
    contents C (dv (og_db (obs_step R C e log)) ''observations'') = map_step e (contents C (dv (og_db log) ''observations''))"
proof (cases e)
  case (ObsAppend now s v md)
  show ?thesis
  proof (cases "fits_key s")
    case True
    then show ?thesis using insert_written [OF R C inv True, of now v md] u by (auto simp: ObsAppend)
  next
    case False
    then show ?thesis using inv by (simp add: ObsAppend obs_append_def encode_key_eq)
  qed
next
  case (ObsBatch now os)
  show ?thesis
  proof (cases "\<forall>(s, _) \<in> set os. fits_key s")
    case True
    then have "\<forall>(source, _) \<in> set os. fits_key source \<and> utf8 source" using u by (force simp: ObsBatch)
    then show ?thesis using batch_written [OF R C inv, of os now] True by (auto simp: ObsBatch)
  next
    case False
    then have "\<exists>e. insert_batch R C now 0 os t = Inl e" for t using insert_batch_error [of os R C now 0 t] by fastforce
    then have "obs_append_batch R C now log os \<noteq> Inr l" for l
      by (auto simp: obs_append_batch_def rbind_Inr_iff) (metis sum.distinct(1))
    then have "obs_step R C e log = log" by (simp add: ObsBatch split: sum.splits)
    then show ?thesis using inv False by (auto simp: ObsBatch)
  qed
next
  case (ObsTruncate before)
  then show ?thesis using truncate_written [OF R inv, of before] by auto
qed

lemma obs_run_refines:
  assumes R: "redb_laws R tv dv" "redb_up R" and C: "obs_codec_laws C"
  shows "obs_inv C dv log \<Longrightarrow> \<forall>e \<in> set ops. \<forall>s \<in> op_sources e. utf8 s \<Longrightarrow> obs_inv C dv (fold (obs_step R C) ops log) \<and>
    contents C (dv (og_db (fold (obs_step R C) ops log)) ''observations'') = fold map_step ops (contents C (dv (og_db log) ''observations''))"
proof (induction ops arbitrary: log)
  case (Cons e ops)
  then show ?case using obs_step_refines [OF R C Cons.prems(1), of e] by simp
qed simp

text \<open>
  Keys of observations: a source name of at most 65535 bytes and a timestamp are encoded into a key that
  decodes to them, longer names are refused, and keys compare first by the length of the source,
  then by the source, then by time, so that the rows of a source are contiguous and in time order.
\<close>

theorem obs_key_roundtrip:
  assumes "utf8 s" "utf8 s'"
  shows "(case encode_key s t of
       Inl err \<Rightarrow> err = SourceTooLong (length s) \<and> 65535 < length s
     | Inr key \<Rightarrow> length s \<le> 65535 \<and> decode_key key = Some (s, t) \<and>
        (case encode_key s' t' of Inl _ \<Rightarrow> 65535 < length s'
         | Inr key' \<Rightarrow> (key < key' \<longleftrightarrow> (length s, s, t) < (length s', s', t')) \<and> (key = key' \<longleftrightarrow> s = s' \<and> t = t')))"
  using assms by (auto simp: encode_key_eq decode_obs_key obs_key_less obs_key_inj)

theorem obs_key_roundtrip_witness:
  "decode_key (projr (encode_key ''cpu'' 1000)) = Some (''cpu'', 1000) \<and> projr (encode_key ''cpu'' 1000) < projr (encode_key ''disk'' 3)"
proof -
  have "utf8 ''cpu''" "utf8 ''disk''" by code_simp+
  from obs_key_roundtrip [OF this, of 1000 3] show ?thesis by (auto split: sum.splits simp: encode_key_def)
qed

text \<open>
  C35. The observation log refines a map from source and millisecond to value: after any sequence of
  appends, batches and truncations on a new file, a query returns the observations of its source from
  the given time on, in time order, \<^verbatim>\<open>query_latest\<close> the last of them, \<^verbatim>\<open>sources\<close> the sources in order and \<^verbatim>\<open>count\<close>
  the number of observations of the map. A batch with an unusable source is refused as a whole.
\<close>

theorem obslog_refines_map:
  assumes "redb_laws R tv dv" "redb_up R" "obs_codec_laws C"
    and "dv (og_db new) ''observations'' = []" "\<forall>e \<in> set ops. \<forall>s \<in> op_sources e. utf8 s" "length source \<le> 65535"
  shows "\<exists>xs ss. obs_query R C (fold (obs_step R C) ops new) source since = Inr xs \<and>
      sorted_wrt (<) (map ob_timestamp_ms xs) \<and>
      set xs = {obs_of source t v |t v. fold map_step ops Map.empty (source, t) = Some v \<and> since \<le> t} \<and>
    (since = 0 \<longrightarrow> obs_query_latest R C (fold (obs_step R C) ops new) source = Inr (if xs = [] then None else Some (last xs))) \<and>
    obs_sources R (fold (obs_step R C) ops new) = Inr ss \<and> sorted_wrt (<) ss \<and>
      set ss = fst ` dom (fold map_step ops Map.empty) \<and>
    obs_count R (fold (obs_step R C) ops new) = Inr (card (dom (fold map_step ops Map.empty)))"
proof -
  have start: "obs_inv C dv new" "contents C (dv (og_db new) ''observations'') = Map.empty"
    using assms(4) by (simp_all add: obs_inv_def rows_ok_def contents_def fun_eq_iff)
  let ?log = "fold (obs_step R C) ops new"
  have inv: "obs_inv C dv ?log" and m: "contents C (dv (og_db ?log) ''observations'') = fold map_step ops Map.empty"
    using obs_run_refines [OF assms(1-3) start(1) assms(5)] start(2) by auto
  obtain xs where xs: "obs_query R C ?log source since = Inr xs" "sorted_wrt (<) (map ob_timestamp_ms xs)"
    "set xs = {obs_of source t v |t v. fold map_step ops Map.empty (source, t) = Some v \<and> since \<le> t}"
    using query_exact [OF assms(1,2) inv assms(6), of since] m by auto
  then show ?thesis
    using sources_exact [OF assms(1,2) inv] m query_latest_is_last [of R C ?log source] by auto
qed

definition typed_obs :: "obs_value obs_codec" where
  "typed_obs = \<lparr>oc_bytes = Inr, oc_of = Inr\<rparr>"

lemma typed_obs_ok: "obs_codec_laws typed_obs"
  by (simp add: obs_codec_laws_def typed_obs_def)

definition demo_log_file :: "obs_value journal obs_log" where
  "demo_log_file = \<lparr>og_db = [], og_max_age_secs = 60\<rparr>"

lemma demo_log_file_empty: "journal_tables (og_db demo_log_file) ''observations'' = []"
  by (simp add: demo_log_file_def journal_tables_def)

definition demo_obs :: "obs_op list" where
  "demo_obs = [ObsAppend 10 ''cpu'' 1 [], ObsBatch 20 [(''cpu'', 2, []), (''disk'', 3, [])], ObsTruncate 15]"

theorem obslog_refines_map_witness:
  "\<exists>xs ss. obs_query mem_redb typed_obs (fold (obs_step mem_redb typed_obs) demo_obs demo_log_file) ''disk'' 0 = Inr xs \<and>
     set xs = {obs_of ''disk'' t v |t v. fold map_step demo_obs Map.empty (''disk'', t) = Some v \<and> 0 \<le> t} \<and>
     obs_sources mem_redb (fold (obs_step mem_redb typed_obs) demo_obs demo_log_file) = Inr ss"
proof -
  have "\<forall>e \<in> set demo_obs. \<forall>s \<in> op_sources e. utf8 s" by code_simp
  then show ?thesis
    using obslog_refines_map [OF mem_redb_ok typed_obs_ok demo_log_file_empty, of demo_obs "''disk''" 0] by auto
qed

text \<open>
  Two appends of a source in the same millisecond leave one observation, and a batch reserves the
  milliseconds after it, so that it can be overwritten as well.
\<close>

theorem same_millisecond_overwrites:
  "obs_count mem_redb (fold (obs_step mem_redb typed_obs) [ObsAppend 10 ''cpu'' 1 [], ObsAppend 10 ''cpu'' 2 []] demo_log_file) = Inr 1 \<and>
   obs_count mem_redb (fold (obs_step mem_redb typed_obs) [ObsBatch 10 [(''a'', 1, []), (''cpu'', 2, [])], ObsAppend 11 ''cpu'' 3 []] demo_log_file) = Inr 2"
proof -
  have count: "obs_count mem_redb (fold (obs_step mem_redb typed_obs) ops demo_log_file) = Inr (card (dom (fold map_step ops Map.empty)))"
    if "\<forall>e \<in> set ops. \<forall>s \<in> op_sources e. utf8 s" for ops
  proof -
    have start: "obs_inv typed_obs journal_tables demo_log_file"
      "contents typed_obs (journal_tables (og_db demo_log_file) ''observations'') = Map.empty"
      by (simp_all add: obs_inv_def rows_ok_def contents_def fun_eq_iff demo_log_file_empty)
    show ?thesis
      using obs_run_refines [OF mem_redb_ok typed_obs_ok start(1) that] start(2) sources_exact(2) [OF mem_redb_ok, of typed_obs] by auto
  qed
  have u: "utf8 ''cpu''" "utf8 ''a''" by code_simp+
  show ?thesis
    by (subst count, simp add: u, subst count, simp add: u) (simp add: card_insert_if)
qed

end
