(* ===== verification/Silk_Convert.thy ===== *)
theory Silk_Convert
  imports Silk_Materialize
begin


text \<open>
  The conversions between Python and Rust, \<^verbatim>\<open>src/src/python/conversions.rs\<close>, and the check of extension keys at
  the API boundary (\<^verbatim>\<open>python/mod.rs\<close>).

  \<^item> A Python object handed in is opaque: the record \<open>py_api\<close> collects the questions the code asks of it
    through the \<^verbatim>\<open>pyo3\<close> crate (\<^verbatim>\<open>is_none\<close>, \<^verbatim>\<open>extract::<T>\<close>, \<^verbatim>\<open>downcast::<PyList>\<close>, \<^verbatim>\<open>downcast::<PyDict>\<close>). Such an object may
    contain itself; the depth limit of the code bounds the recursion.
  \<^item> The objects the code builds are values of \<open>py_object\<close>.
  \<^item> \<open>hex_codec\<close> stands for the \<^verbatim>\<open>hex\<close> crate.
\<close>

unbundle bit_operations_syntax

section \<open>Limits and objects\<close>

definition MAX_VALUE_DEPTH :: nat where
  "MAX_VALUE_DEPTH = 64"

definition MAX_STRING_BYTES :: nat where
  "MAX_STRING_BYTES = 1048576"

definition MAX_LIST_ITEMS :: nat where
  "MAX_LIST_ITEMS = 10000"

definition MAX_MAP_ENTRIES :: nat where
  "MAX_MAP_ENTRIES = 10000"

record 'o py_api =
  pa_is_none :: "'o \<Rightarrow> bool"
  pa_bool :: "'o \<Rightarrow> bool option"
  pa_i64 :: "'o \<Rightarrow> i64 option"
  pa_f64 :: "'o \<Rightarrow> f64 option"
  pa_string :: "'o \<Rightarrow> string option"
  pa_list :: "'o \<Rightarrow> 'o list option"
  pa_dict :: "'o \<Rightarrow> ('o \<times> 'o) list option"

datatype py_object =
    PyNone
  | PyBool bool
  | PyInt int
  | PyFloat f64
  | PyStr string
  | PyList "py_object list"
  | PyDict "(string \<times> py_object) list"

datatype convert_error =
    NestingTooDeep
  | StringTooLong nat
  | ListTooLong nat
  | MapTooLong nat
  | KeyNotString
  | UnsupportedType
  | InvalidHex
  | HashLength nat

section \<open>From Python\<close>

text \<open>
  \<^verbatim>\<open>py_to_value_depth\<close>, with the loops over list items and dict entries: the first error stops them, and a key
  is read before the value it names.
\<close>

function py_to_value_depth :: "'o py_api \<Rightarrow> 'o \<Rightarrow> nat \<Rightarrow> (convert_error, silk_value) result"
  and py_items :: "'o py_api \<Rightarrow> 'o list \<Rightarrow> nat \<Rightarrow> (convert_error, silk_value list) result"
  and py_entries :: "'o py_api \<Rightarrow> ('o \<times> 'o) list \<Rightarrow> nat \<Rightarrow> properties \<Rightarrow> (convert_error, properties) result" where
  "py_to_value_depth A obj depth =
     (if depth \<ge> MAX_VALUE_DEPTH then Inl NestingTooDeep
      else if pa_is_none A obj then Inr VNull
      else case pa_bool A obj of Some b \<Rightarrow> Inr (VBool b)
      | None \<Rightarrow> (case pa_i64 A obj of Some i \<Rightarrow> Inr (VInt i)
      | None \<Rightarrow> (case pa_f64 A obj of Some f \<Rightarrow> Inr (VFloat f)
      | None \<Rightarrow> (case pa_string A obj of
          Some s \<Rightarrow> if length s > MAX_STRING_BYTES then Inl (StringTooLong (length s)) else Inr (VString s)
      | None \<Rightarrow> (case pa_list A obj of
          Some items \<Rightarrow> if length items > MAX_LIST_ITEMS then Inl (ListTooLong (length items))
             else (case py_items A items (depth + 1) of Inl e \<Rightarrow> Inl e | Inr vs \<Rightarrow> Inr (VList vs))
      | None \<Rightarrow> (case pa_dict A obj of
          Some kvs \<Rightarrow> if length kvs > MAX_MAP_ENTRIES then Inl (MapTooLong (length kvs))
             else (case py_entries A kvs (depth + 1) [] of Inl e \<Rightarrow> Inl e | Inr m \<Rightarrow> Inr (VMap m))
      | None \<Rightarrow> Inl UnsupportedType))))))"
| "py_items A [] depth = Inr []"
| "py_items A (x # xs) depth =
     (case py_to_value_depth A x depth of Inl e \<Rightarrow> Inl e
      | Inr v \<Rightarrow> (case py_items A xs depth of Inl e \<Rightarrow> Inl e | Inr vs \<Rightarrow> Inr (v # vs)))"
| "py_entries A [] depth acc = Inr acc"
| "py_entries A ((k, x) # kxs) depth acc =
     (case pa_string A k of None \<Rightarrow> Inl KeyNotString
      | Some key \<Rightarrow> (case py_to_value_depth A x depth of Inl e \<Rightarrow> Inl e
         | Inr v \<Rightarrow> py_entries A kxs depth (bt_insert key v acc)))"
  by pat_completeness auto

termination
  by (relation "measures [\<lambda>x. case x of Inl (A, obj, d) \<Rightarrow> MAX_VALUE_DEPTH - d
        | Inr (Inl (A, xs, d)) \<Rightarrow> MAX_VALUE_DEPTH - d | Inr (Inr (A, kxs, d, acc)) \<Rightarrow> MAX_VALUE_DEPTH - d,
      \<lambda>x. case x of Inl (A, obj, d) \<Rightarrow> 0 | Inr (Inl (A, xs, d)) \<Rightarrow> Suc (length xs)
        | Inr (Inr (A, kxs, d, acc)) \<Rightarrow> Suc (length kxs)]") auto

definition py_to_value :: "'o py_api \<Rightarrow> 'o \<Rightarrow> (convert_error, silk_value) result" where
  "py_to_value A obj = py_to_value_depth A obj 0"

text \<open>\<^verbatim>\<open>convert_props\<close>: the properties of a node or edge, \<^verbatim>\<open>None\<close> for none.\<close>

definition convert_props :: "'o py_api \<Rightarrow> ('o \<times> 'o) list option \<Rightarrow> (convert_error, properties) result" where
  "convert_props A dict = (case dict of None \<Rightarrow> Inr [] | Some d \<Rightarrow> py_entries A d 0 [])"

section \<open>To Python\<close>

fun value_to_py_depth :: "silk_value \<Rightarrow> nat \<Rightarrow> (convert_error, py_object) result"
  and values_to_py :: "silk_value list \<Rightarrow> nat \<Rightarrow> (convert_error, py_object list) result"
  and value_map_to_py :: "(string \<times> silk_value) list \<Rightarrow> nat \<Rightarrow> (convert_error, (string \<times> py_object) list) result" where
  "value_to_py_depth v depth =
     (if depth \<ge> MAX_VALUE_DEPTH then Inl NestingTooDeep
      else case v of VNull \<Rightarrow> Inr PyNone | VBool b \<Rightarrow> Inr (PyBool b) | VInt i \<Rightarrow> Inr (PyInt (sint i))
      | VFloat f \<Rightarrow> Inr (PyFloat f) | VString s \<Rightarrow> Inr (PyStr s)
      | VList items \<Rightarrow> (case values_to_py items (depth + 1) of Inl e \<Rightarrow> Inl e | Inr os \<Rightarrow> Inr (PyList os))
      | VMap m \<Rightarrow> (case value_map_to_py m (depth + 1) of Inl e \<Rightarrow> Inl e | Inr kos \<Rightarrow> Inr (PyDict kos)))"
| "values_to_py [] depth = Inr []"
| "values_to_py (v # vs) depth =
     (case value_to_py_depth v depth of Inl e \<Rightarrow> Inl e
      | Inr ob \<Rightarrow> (case values_to_py vs depth of Inl e \<Rightarrow> Inl e | Inr os \<Rightarrow> Inr (ob # os)))"
| "value_map_to_py [] depth = Inr []"
| "value_map_to_py ((k, v) # m) depth =
     (case value_to_py_depth v depth of Inl e \<Rightarrow> Inl e
      | Inr ob \<Rightarrow> (case value_map_to_py m depth of Inl e \<Rightarrow> Inl e | Inr kos \<Rightarrow> Inr ((k, ob) # kos)))"

definition value_to_py :: "silk_value \<Rightarrow> (convert_error, py_object) result" where
  "value_to_py v = value_to_py_depth v 0"

text \<open>\<^verbatim>\<open>value_map_to_pydict\<close>, and the dicts of nodes and edges. \<^verbatim>\<open>get_node\<close> and \<^verbatim>\<open>get_edge\<close> unwrap the result.\<close>

definition value_map_to_pydict :: "properties \<Rightarrow> (convert_error, py_object) result" where
  "value_map_to_pydict m = map_sum id PyDict (value_map_to_py m 0)"

definition py_optional :: "string option \<Rightarrow> py_object" where
  "py_optional x = (case x of Some s \<Rightarrow> PyStr s | None \<Rightarrow> PyNone)"

definition node_to_pydict :: "node \<Rightarrow> (convert_error, py_object) result" where
  "node_to_pydict n =
     (case value_map_to_pydict (n_properties n) of Inl e \<Rightarrow> Inl e
      | Inr props \<Rightarrow>
        Inr (PyDict [(''node_id'', PyStr (n_id n)), (''node_type'', PyStr (n_type n)), (''subtype'', py_optional (n_subtype n)),
          (''label'', PyStr (n_label n)), (''properties'', props)]))"

definition edge_to_pydict :: "edge \<Rightarrow> (convert_error, py_object) result" where
  "edge_to_pydict e =
     (case value_map_to_pydict (e_properties e) of Inl err \<Rightarrow> Inl err
      | Inr props \<Rightarrow>
        Inr (PyDict [(''edge_id'', PyStr (e_id e)), (''edge_type'', PyStr (e_type e)), (''source_id'', PyStr (e_source e)),
          (''target_id'', PyStr (e_target e)), (''properties'', props)]))"

section \<open>Hashes, entries and events\<close>

record hex_codec =
  hx_encode :: "u8 list \<Rightarrow> string"
  hx_decode :: "string \<Rightarrow> u8 list option"

definition hash_of_bytes :: "u8 list \<Rightarrow> hash" where
  "hash_of_bytes bs = word_rcat bs"

definition bytes_of_hash :: "hash \<Rightarrow> u8 list" where
  "bytes_of_hash h = map (\<lambda>i. ucast (drop_bit (8 * (31 - i)) h)) [0..<32]"

definition parse_hex_hash :: "hex_codec \<Rightarrow> string \<Rightarrow> (convert_error, hash) result" where
  "parse_hex_hash X hex_str =
     (case hx_decode X hex_str of None \<Rightarrow> Inl InvalidHex
      | Some bytes \<Rightarrow> if length bytes \<noteq> 32 then Inl (HashLength (length bytes)) else Inr (hash_of_bytes bytes))"

abbreviation hex_hash :: "hex_codec \<Rightarrow> hash \<Rightarrow> string" where
  "hex_hash X h \<equiv> hx_encode X (bytes_of_hash h)"

fun op_fields :: "graph_op \<Rightarrow> (string \<times> py_object) list" where
  "op_fields (AddNode node_id node_type subtype _ _) =
     [(''op'', PyStr ''add_node''), (''node_id'', PyStr node_id), (''node_type'', PyStr node_type), (''subtype'', py_optional subtype)]"
| "op_fields (AddEdge edge_id edge_type source_id target_id _) =
     [(''op'', PyStr ''add_edge''), (''edge_id'', PyStr edge_id), (''edge_type'', PyStr edge_type),
      (''source_id'', PyStr source_id), (''target_id'', PyStr target_id)]"
| "op_fields (UpdateProperty entity_id key v) =
     [(''op'', PyStr ''update_property''), (''entity_id'', PyStr entity_id), (''key'', PyStr key)] @
     (case value_to_py v of Inr ob \<Rightarrow> [(''value'', ob)] | Inl _ \<Rightarrow> [])"
| "op_fields (RemoveNode node_id) = [(''op'', PyStr ''remove_node''), (''node_id'', PyStr node_id)]"
| "op_fields (RemoveEdge edge_id) = [(''op'', PyStr ''remove_edge''), (''edge_id'', PyStr edge_id)]"
| "op_fields (DefineOntology _) = [(''op'', PyStr ''define_ontology'')]"
| "op_fields (ExtendOntology _) = [(''op'', PyStr ''extend_ontology'')]"
| "op_fields (Checkpoint _ _ _ _) = [(''op'', PyStr ''checkpoint'')]"
| "op_fields (DefineLens _) = [(''op'', PyStr ''define_lens'')]"

definition entry_to_event_dict :: "hex_codec \<Rightarrow> entry \<Rightarrow> bool \<Rightarrow> py_object" where
  "entry_to_event_dict X e is_local =
     PyDict ([(''hash'', PyStr (hex_hash X (en_hash e))), (''author'', PyStr (en_author e)),
       (''physical_ms'', PyInt (uint (clk_physical (en_clock e)))), (''logical'', PyInt (uint (clk_logical (en_clock e)))),
       (''local'', PyBool is_local)] @ op_fields (en_payload e))"

text \<open>\<^verbatim>\<open>entry_to_pydict\<close>; \<open>render\<close> is the JSON text of a payload, \<open>None\<close> when \<^verbatim>\<open>serde_json\<close> refuses it.\<close>

definition entry_to_pydict :: "hex_codec \<Rightarrow> (graph_op \<Rightarrow> string option) \<Rightarrow> entry \<Rightarrow> py_object option" where
  "entry_to_pydict X render e =
     (case render (en_payload e) of None \<Rightarrow> None
      | Some payload_json \<Rightarrow>
        Some (PyDict [(''hash'', PyStr (hex_hash X (en_hash e))), (''author'', PyStr (en_author e)),
          (''physical_ms'', PyInt (uint (clk_physical (en_clock e)))), (''logical'', PyInt (uint (clk_logical (en_clock e)))),
          (''clock_id'', PyStr (clk_id (en_clock e))),
          (''next'', PyList (map (\<lambda>h. PyStr (hex_hash X h)) (en_next e))),
          (''refs'', PyList (map (\<lambda>h. PyStr (hex_hash X h)) (en_refs e))), (''payload'', PyStr payload_json)]))"

section \<open>Ontologies\<close>

datatype genesis_error = InvalidGenesisOntology validation_error | CheckpointWithoutOntology | NotAGenesis

definition checked_ontology :: "ontology \<Rightarrow> (genesis_error, ontology) result" where
  "checked_ontology ont =
     (case validate_self ont of Inl e \<Rightarrow> Inl (InvalidGenesisOntology e) | Inr _ \<Rightarrow> Inr ont)"

fun first_ontology :: "graph_op list \<Rightarrow> ontology option" where
  "first_ontology [] = None"
| "first_ontology (DefineOntology ont # ops) = Some ont"
| "first_ontology (_ # ops) = first_ontology ops"

definition extract_ontology_from_genesis :: "entry \<Rightarrow> (genesis_error, ontology) result" where
  "extract_ontology_from_genesis e =
     (case en_payload e of
        DefineOntology ont \<Rightarrow> checked_ontology ont
      | Checkpoint ops _ _ _ \<Rightarrow>
          (case first_ontology ops of Some ont \<Rightarrow> checked_ontology ont | None \<Rightarrow> Inl CheckpointWithoutOntology)
      | _ \<Rightarrow> Inl NotAGenesis)"

text \<open>\<^verbatim>\<open>check_extension_keys\<close>, from the parsed JSON value on (\<open>None\<close>: it did not parse).\<close>

definition EXTENSION_KEYS :: "string list" where
  "EXTENSION_KEYS = [''node_types'', ''edge_types'', ''node_type_updates'', ''edge_type_updates'']"

definition NODE_UPDATE_KEYS :: "string list" where
  "NODE_UPDATE_KEYS = [''add_properties'', ''relax_properties'', ''add_subtypes'']"

definition EDGE_UPDATE_KEYS :: "string list" where
  "EDGE_UPDATE_KEYS = [''add_source_types'', ''add_target_types'', ''add_properties'']"

datatype extension_key_error = InvalidJson | NotAnObject | UnknownKey string | UnknownUpdateKey string string string

definition check_update_keys :: "string list \<Rightarrow> string \<Rightarrow> json \<Rightarrow> (extension_key_error, unit) result" where
  "check_update_keys known label nested =
     (case nested of
        JObject per_type \<Rightarrow>
          for_each_ok (\<lambda>(type_name, update). case update of
              JObject update_obj \<Rightarrow>
                for_each_ok (\<lambda>(update_key, _). if update_key \<in> set known then Inr () else Inl (UnknownUpdateKey update_key label type_name)) update_obj
            | _ \<Rightarrow> Inr ()) per_type
      | _ \<Rightarrow> Inr ())"

definition check_extension_keys :: "json option \<Rightarrow> (extension_key_error, unit) result" where
  "check_extension_keys parsed =
     (case parsed of None \<Rightarrow> Inl InvalidJson
      | Some (JObject members) \<Rightarrow>
          for_each_ok (\<lambda>(key, nested).
            if key \<notin> set EXTENSION_KEYS then Inl (UnknownKey key)
            else if key = ''node_type_updates'' then check_update_keys NODE_UPDATE_KEYS key nested
            else if key = ''edge_type_updates'' then check_update_keys EDGE_UPDATE_KEYS key nested
            else Inr ()) members
      | Some _ \<Rightarrow> Inl NotAnObject)"

section \<open>What crosses the boundary\<close>

declare py_to_value_depth.simps [simp del] value_to_py_depth.simps [simp del]

text \<open>A value that respects the limits, at a nesting depth.\<close>

fun value_fits :: "nat \<Rightarrow> silk_value \<Rightarrow> bool" where
  "value_fits d (VString s) \<longleftrightarrow> d < MAX_VALUE_DEPTH \<and> length s \<le> MAX_STRING_BYTES"
| "value_fits d (VList vs) \<longleftrightarrow> d < MAX_VALUE_DEPTH \<and> length vs \<le> MAX_LIST_ITEMS \<and> (\<forall>v \<in> set vs. value_fits (d + 1) v)"
| "value_fits d (VMap m) \<longleftrightarrow> d < MAX_VALUE_DEPTH \<and> length m \<le> MAX_MAP_ENTRIES \<and> bt_wf m \<and> (\<forall>kv \<in> set m. value_fits (d + 1) (snd kv))"
| "value_fits d _ \<longleftrightarrow> d < MAX_VALUE_DEPTH"

lemma set_bt_insert_sub: "set (bt_insert k v m) \<subseteq> insert (k, v) (set m)"
  by (induction k v m rule: bt_insert.induct) auto

lemma length_bt_insert: "length (bt_insert k v m) \<le> Suc (length m)"
  by (induction k v m rule: bt_insert.induct) auto

lemma from_python_fits:
  "py_to_value_depth A obj d = Inr v \<Longrightarrow> value_fits d v"
  "py_items A xs d = Inr vs \<Longrightarrow> length vs = length xs \<and> (\<forall>v \<in> set vs. value_fits d v)"
  "py_entries A kxs d acc = Inr m \<Longrightarrow> bt_wf acc \<Longrightarrow> \<forall>kv \<in> set acc. value_fits d (snd kv) \<Longrightarrow>
     bt_wf m \<and> length m \<le> length acc + length kxs \<and> (\<forall>kv \<in> set m. value_fits d (snd kv))"
proof (induction A obj d and A xs d and A kxs d acc arbitrary: v and vs and m
    rule: py_to_value_depth_py_items_py_entries.induct)
  case (1 A obj d)
  then show ?case
    by (auto simp: py_to_value_depth.simps [of A obj d] bt_wf_def split: if_splits option.splits sum.splits)
      (meson le_trans not_le)
next
  case (3 A x xs d)
  then show ?case by (auto split: sum.splits)
next
  case (5 A k x kxs d acc)
  obtain key v where k: "pa_string A k = Some key" and v: "py_to_value_depth A x d = Inr v"
    and m: "py_entries A kxs d (bt_insert key v acc) = Inr m"
    using "5.prems"(1) by (auto split: option.splits sum.splits)
  have "\<forall>kv \<in> set (bt_insert key v acc). value_fits d (snd kv)"
    using "5.IH"(1) [OF k v] "5.prems"(3) set_bt_insert_sub [of key v acc] by auto
  from "5.IH"(2) [OF k v m bt_wf_insert [OF "5.prems"(2)] this] length_bt_insert [of key v acc]
  show ?case by auto
qed auto

text \<open>What \<^verbatim>\<open>pyo3\<close> reads from the objects the code builds: each extraction succeeds on its own kind and
  fails on the kinds that the code would ask later.\<close>

definition reads_back :: "py_object py_api \<Rightarrow> bool" where
  "reads_back A \<longleftrightarrow>
     (\<forall>ob. pa_is_none A ob \<longleftrightarrow> ob = PyNone) \<and>
     (\<forall>ob. pa_bool A ob = (case ob of PyBool b \<Rightarrow> Some b | _ \<Rightarrow> None)) \<and>
     (\<forall>i. pa_i64 A (PyInt (sint i)) = Some i) \<and>
     (\<forall>f. pa_i64 A (PyFloat f) = None \<and> pa_f64 A (PyFloat f) = Some f) \<and>
     (\<forall>s. pa_i64 A (PyStr s) = None \<and> pa_f64 A (PyStr s) = None \<and> pa_string A (PyStr s) = Some s) \<and>
     (\<forall>xs. pa_i64 A (PyList xs) = None \<and> pa_f64 A (PyList xs) = None \<and> pa_string A (PyList xs) = None \<and>
        pa_list A (PyList xs) = Some xs) \<and>
     (\<forall>m. pa_i64 A (PyDict m) = None \<and> pa_f64 A (PyDict m) = None \<and> pa_string A (PyDict m) = None \<and>
        pa_list A (PyDict m) = None \<and> pa_dict A (PyDict m) = Some (map (\<lambda>(k, ob). (PyStr k, ob)) m))"

lemma bt_insert_last: "\<forall>kv \<in> set m. fst kv < k \<Longrightarrow> bt_insert k v m = m @ [(k, v)]"
  by (induction k v m rule: bt_insert.induct) auto

lemma bt_wf_append: "bt_wf (acc @ (k, v) # m) \<Longrightarrow> \<forall>kv \<in> set acc. fst kv < k"
  by (auto simp: bt_wf_def sorted_wrt_append)

lemma roundtrip_values:
  assumes "reads_back A"
  shows "value_fits d v \<Longrightarrow> \<exists>ob. value_to_py_depth v d = Inr ob \<and> py_to_value_depth A ob d = Inr v"
    "\<forall>v \<in> set vs. value_fits d v \<Longrightarrow> \<exists>os. values_to_py vs d = Inr os \<and> length os = length vs \<and> py_items A os d = Inr vs"
    "\<forall>kv \<in> set m. value_fits d (snd kv) \<Longrightarrow> \<exists>kos. value_map_to_py m d = Inr kos \<and> length kos = length m \<and>
       (\<forall>acc. bt_wf (acc @ m) \<longrightarrow> py_entries A (map (\<lambda>(k, ob). (PyStr k, ob)) kos) d acc = Inr (acc @ m))"
proof (induction v d and vs d and m d rule: value_to_py_depth_values_to_py_value_map_to_py.induct)
  case (1 v d)
  note A = assms [unfolded reads_back_def]
  have d: "\<not> d \<ge> MAX_VALUE_DEPTH" using "1.prems" by (cases v) auto
  show ?case
  proof (cases v)
    case (VList vs)
    with "1.prems" d "1.IH"(1) [OF d VList] obtain os where "values_to_py vs (d + 1) = Inr os" "length os = length vs"
      "py_items A os (d + 1) = Inr vs" by auto
    then show ?thesis using VList "1.prems" d A
      by (intro exI [of _ "PyList os"]) (simp add: py_to_value_depth.simps [of A _ d] value_to_py_depth.simps [of _ d])
  next
    case (VMap m)
    with "1.prems" have m: "\<forall>kv \<in> set m. value_fits (d + 1) (snd kv)" "bt_wf ([] @ m)" "length m \<le> MAX_MAP_ENTRIES" by auto
    from "1.IH"(2) [OF d VMap m(1)] m obtain kos where "value_map_to_py m (d + 1) = Inr kos" "length kos = length m"
      "py_entries A (map (\<lambda>(k, ob). (PyStr k, ob)) kos) (d + 1) [] = Inr m" by fastforce
    then show ?thesis using VMap m d A
      by (intro exI [of _ "PyDict kos"]) (simp add: py_to_value_depth.simps [of A _ d] value_to_py_depth.simps [of _ d])
  qed (use d A "1.prems" in \<open>simp_all add: py_to_value_depth.simps [of A _ d] value_to_py_depth.simps [of _ d]\<close>)
next
  case (3 v vs d)
  then obtain ob os where "value_to_py_depth v d = Inr ob" "py_to_value_depth A ob d = Inr v"
    "values_to_py vs d = Inr os" "length os = length vs" "py_items A os d = Inr vs" by auto
  then show ?case by (intro exI [of _ "ob # os"]) simp
next
  case (5 k v m d)
  note A = assms [unfolded reads_back_def]
  from 5 obtain ob kos where ob: "value_to_py_depth v d = Inr ob" "py_to_value_depth A ob d = Inr v"
    and kos: "value_map_to_py m d = Inr kos" "length kos = length m"
    "\<forall>acc. bt_wf (acc @ m) \<longrightarrow> py_entries A (map (\<lambda>(k, ob). (PyStr k, ob)) kos) d acc = Inr (acc @ m)" by auto
  have "py_entries A (map (\<lambda>(k, ob). (PyStr k, ob)) kos) d (bt_insert k v acc) = Inr (acc @ (k, v) # m)"
    if "bt_wf (acc @ (k, v) # m)" for acc
    using kos(3) [rule_format, of "acc @ [(k, v)]"] that bt_insert_last [OF bt_wf_append [OF that]] by simp
  then show ?case using ob kos(1,2) A by (intro exI [of _ "(k, ob) # kos"]) simp
qed auto


text \<open>A Python object as \<^verbatim>\<open>pyo3\<close> sees it; a bool is an integer too, and an integer converts to a double.\<close>

definition std_api :: "py_object py_api" where
  "std_api = \<lparr>
     pa_is_none = (\<lambda>ob. ob = PyNone),
     pa_bool = (\<lambda>ob. case ob of PyBool b \<Rightarrow> Some b | _ \<Rightarrow> None),
     pa_i64 = (\<lambda>ob. case ob of PyInt n \<Rightarrow> if sint (word_of_int n :: i64) = n then Some (word_of_int n) else None
        | PyBool b \<Rightarrow> Some (of_bool b) | _ \<Rightarrow> None),
     pa_f64 = (\<lambda>ob. case ob of PyFloat f \<Rightarrow> Some f | PyInt n \<Rightarrow> if \<bar>n\<bar> < 2 ^ 1024 - 2 ^ 970 then Some (f64_of_int n) else None | _ \<Rightarrow> None),
     pa_string = (\<lambda>ob. case ob of PyStr s \<Rightarrow> Some s | _ \<Rightarrow> None),
     pa_list = (\<lambda>ob. case ob of PyList xs \<Rightarrow> Some xs | _ \<Rightarrow> None),
     pa_dict = (\<lambda>ob. case ob of PyDict m \<Rightarrow> Some (map (\<lambda>(k, v). (PyStr k, v)) m) | _ \<Rightarrow> None)\<rparr>"

lemma std_api_reads_back: "reads_back std_api"
  by (auto simp: reads_back_def std_api_def split: py_object.splits)

text \<open>
  C40. Whatever a Python object answers when it is asked, a value accepted from it respects the limits: at
  most 64 levels, strings of at most a megabyte, lists and maps of at most ten thousand items. And the
  values within the limits are exactly those that survive the way to Python and back unchanged.
\<close>

theorem python_values_roundtrip:
  assumes "reads_back A"
  shows "(py_to_value B obj = Inr w \<longrightarrow> value_fits 0 w) \<and>
    (value_fits 0 v \<longleftrightarrow> (\<exists>ob. value_to_py v = Inr ob \<and> py_to_value A ob = Inr v))"
  unfolding py_to_value_def value_to_py_def 
  using from_python_fits(1) [of B obj 0 w] from_python_fits(1) [of A _ 0 v] roundtrip_values(1) [OF assms, of 0 v] by blast

theorem python_values_roundtrip_witness:
  "\<exists>ob. value_to_py (VMap [(''a'', VList [VInt (- 1), VBool True]), (''b'', VString ''s'')]) = Inr ob \<and>
     py_to_value std_api ob = Inr (VMap [(''a'', VList [VInt (- 1), VBool True]), (''b'', VString ''s'')])"
proof -
  have "value_fits 0 (VMap [(''a'', VList [VInt (- 1), VBool True]), (''b'', VString ''s'')])"
    by (simp add: MAX_VALUE_DEPTH_def MAX_MAP_ENTRIES_def MAX_LIST_ITEMS_def MAX_STRING_BYTES_def bt_wf_def)
  then show ?thesis by (rule python_values_roundtrip [OF std_api_reads_back, THEN conjunct2, THEN iffD1])
qed

section \<open>Values that cannot be read\<close>

fun nested :: "nat \<Rightarrow> silk_value" where
  "nested 0 = VNull"
| "nested (Suc n) = VList [nested n]"

lemma nested_too_deep: "d + n \<ge> MAX_VALUE_DEPTH \<Longrightarrow> value_to_py_depth (nested n) d = Inl NestingTooDeep"
proof (induction n arbitrary: d)
  case (Suc n)
  then show ?case using Suc.IH [of "d + 1"] by (simp add: value_to_py_depth.simps [of _ d])
qed (simp add: value_to_py_depth.simps)

text \<open>
  The depth limit is checked for values that come from Python, not for those that arrive in a peer's
  entries: there is a reachable graph with a live node whose dict cannot be built, and \<^verbatim>\<open>get_node\<close> unwraps
  that result.
\<close>

theorem deep_value_unreadable:
  "\<exists>E g n. graph_run E g \<and> iter_ok E \<and> get_node g ''a'' = Some n \<and> node_to_pydict n = Inl NestingTooDeep"
proof -
  let ?v = "nested 64"
  let ?g = "graph_apply (tiny_env id) tiny_graph (tiny_entry 9 (UpdateProperty ''a'' ''k'' ?v))"
  obtain n where n: "hm_get (gr_nodes tiny_graph) ''a'' = Some n" "n_type n = ''n''" "n_properties n = []"
    "n_property_clocks n = []" "\<not> n_tombstoned n" using tiny_graph_nodes by blast
  have ont: "gr_ontology tiny_graph = tiny_ontology" by (simp add: tiny_graph_def apply_all_def tiny_defs)
  have ok: "validate_property_update rx tiny_ontology ''n'' st k v = Inr ()" for rx st k v
    by (simp add: validate_property_update_def tiny_ontology_def demo_type_def)
  obtain n' where n': "hm_get (gr_nodes ?g) ''a'' = Some n'" "n_properties n' = [(''k'', ?v)]" "\<not> n_tombstoned n'"
    using n by (auto simp: graph_apply_def apply_inner.simps tiny_entry_def apply_update_entry_def ont ok
        unquarantine_def apply_update_property_def dominated_def Let_def map_simps)
  have "value_to_py_depth ?v 0 = Inl NestingTooDeep" by (rule nested_too_deep) (simp add: MAX_VALUE_DEPTH_def)
  then have "node_to_pydict n' = Inl NestingTooDeep"
    by (simp add: node_to_pydict_def value_map_to_pydict_def n'(2))
  moreover have "get_node ?g ''a'' = Some n'" using n' by (simp add: get_node_def)
  ultimately show ?thesis using graph_run.step [OF tiny_graph_run] tiny_iter_ok(1) by blast
qed

section \<open>Hashes as text\<close>

lemma take_bit_hash: "take_bit 256 (uint h) = uint h" for h :: hash
  using unsigned_less [of h, where ?'a = int] by (simp add: take_bit_int_eq_self)

lemma bytes_horner:
  "horner_sum uint (2 ^ 8) (map (\<lambda>i. ucast (drop_bit (8 * i) h) :: u8) [0..<n]) = take_bit (8 * n) (uint h)" for h :: hash
proof (induction n)
  case (Suc n)
  have b: "uint (ucast (drop_bit (8 * n) h) :: u8) = uint h div 2 ^ (8 * n) mod 2 ^ 8"
  proof -
    have "uint (drop_bit (8 * n) h) = drop_bit (8 * n) (uint h)"
      by (simp add: unsigned_drop_bit_eq take_bit_hash)
    then show ?thesis by (simp add: unsigned_ucast_eq take_bit_eq_mod drop_bit_eq_div)
  qed
  have "uint h mod (2 ^ (8 * n) * 2 ^ 8) = 2 ^ (8 * n) * (uint h div 2 ^ (8 * n) mod 2 ^ 8) + uint h mod 2 ^ (8 * n)"
    by (rule zmod_zmult2_eq) simp
  then have "take_bit (8 * Suc n) (uint h) = take_bit (8 * n) (uint h) + 2 ^ (8 * n) * (uint h div 2 ^ (8 * n) mod 2 ^ 8)"
    by (simp add: take_bit_eq_mod power_add mult.commute)
  then show ?case using Suc b by (simp add: horner_sum_append power_mult)
qed simp

lemma hash_bytes_roundtrip: "hash_of_bytes (bytes_of_hash h) = h" "length (bytes_of_hash h) = 32"
proof -
  have "rev (bytes_of_hash h) = map (\<lambda>i. ucast (drop_bit (8 * i) h)) [0..<32]"
    by (rule nth_equalityI) (auto simp: bytes_of_hash_def rev_nth)
  then show "hash_of_bytes (bytes_of_hash h) = h"
    using bytes_horner [of h 32] by (simp add: hash_of_bytes_def word_rcat_def take_bit_hash)
qed (simp add: bytes_of_hash_def)

end
