(* ===== verification/Silk_Tail.thy ===== *)
theory Silk_Tail
  imports Silk_Convert
begin

text \<open>
  Tail subscriptions, \<^verbatim>\<open>src/src/python/tail.rs\<close>: the bell that wakes waiting consumers, and the subscription
  that reads the log past its cursor.

  \<^item> The bell is its counter, its close flag and the number of signals its condition variable was given.
  \<^item> What other threads do while \<^verbatim>\<open>next_batch\<close> runs is a sequence \<open>w\<close> of states of the world, the log, the bell and the
    subscription: one for each instant at which the consumer looks at it.
  \<^item> \<^verbatim>\<open>None\<close> is a panic, here of the index \<^verbatim>\<open>entries[max_count - 1]\<close>.
  \<^item> The batch of entries and the new cursor are computed by \<open>fetch\<close>; \<open>try_fetch\<close> converts the entries to
    events and stores the cursor.
\<close>

section \<open>The bell\<close>

record notify_bell =
  nb_counter :: u64
  nb_signals :: nat
  nb_closed :: bool

definition bell_new :: notify_bell where
  "bell_new = \<lparr>nb_counter = 0, nb_signals = 0, nb_closed = False\<rparr>"

definition bell_notify :: "notify_bell \<Rightarrow> notify_bell" where
  "bell_notify b = b\<lparr>nb_counter := nb_counter b + 1, nb_signals := nb_signals b + 1\<rparr>"

definition bell_close :: "notify_bell \<Rightarrow> notify_bell" where
  "bell_close b = b\<lparr>nb_closed := True, nb_signals := nb_signals b + 1\<rparr>"

text \<open>
  \<^verbatim>\<open>wait_until_changed\<close>. \<open>bells j\<close> is the bell at the \<open>j\<close>-th instant of the wait, the timeout is at instant \<open>n\<close>. The
  condition is checked on entry and whenever the condition variable was signalled in between; the result is the
  instant at which the wait ends.
\<close>

definition checks :: "(nat \<Rightarrow> notify_bell) \<Rightarrow> nat \<Rightarrow> bool" where
  "checks bells j \<longleftrightarrow> j = 0 \<or> nb_signals (bells j) \<noteq> nb_signals (bells (j - 1))"

definition wait_until_changed :: "(nat \<Rightarrow> notify_bell) \<Rightarrow> u64 \<Rightarrow> nat \<Rightarrow> nat" where
  "wait_until_changed bells last_seen n =
     (case find (\<lambda>j. checks bells j \<and> nb_counter (bells j) \<noteq> last_seen) [0..<n] of Some j \<Rightarrow> j | None \<Rightarrow> n)"

lemma wait_first:
  assumes "j < n" "checks bells j" "nb_counter (bells j) \<noteq> last_seen" "\<And>i. i < j \<Longrightarrow> nb_counter (bells i) = last_seen"
  shows "wait_until_changed bells last_seen n = j"
proof -
  have "find (\<lambda>j. checks bells j \<and> nb_counter (bells j) \<noteq> last_seen) [0..<n] = Some j"
    unfolding find_Some_iff using assms by (intro exI [of _ j]) auto
  then show ?thesis by (simp add: wait_until_changed_def)
qed

lemma wait_times_out:
  assumes "\<And>i. i < n \<Longrightarrow> nb_counter (bells i) = last_seen"
  shows "wait_until_changed bells last_seen n = n"
proof -
  have "find (\<lambda>j. checks bells j \<and> nb_counter (bells j) \<noteq> last_seen) [0..<n] = None" unfolding find_None_iff using assms by simp
  then show ?thesis by (simp add: wait_until_changed_def)
qed

section \<open>The subscription\<close>

record tail_subscription =
  ts_cursor :: "hash list"
  ts_closed :: bool

definition subscription_new :: "hash list \<Rightarrow> tail_subscription" where
  "subscription_new cursor = \<lparr>ts_cursor = cursor, ts_closed = False\<rparr>"

text \<open>The batch past a cursor: nothing new, or the entries and the cursor after them.\<close>

definition fetch :: "oplog \<Rightarrow> hash list \<Rightarrow> nat \<Rightarrow> (oplog_error, (entry list \<times> hash list) option) result option" where
  "fetch log cursor max_count =
     (case entries_since_heads log cursor of
        Inl err \<Rightarrow> Some (Inl err)
      | Inr None \<Rightarrow> None
      | Inr (Some entries) \<Rightarrow>
          if entries = [] then Some (Inr None)
          else if length entries > max_count then
            (if max_count = 0 then None
             else Some (Inr (Some (take max_count entries, [en_hash (entries ! (max_count - 1))]))))
          else Some (Inr (Some (entries, ol_heads log))))"

definition try_fetch :: "hex_codec \<Rightarrow> oplog \<Rightarrow> tail_subscription \<Rightarrow> nat \<Rightarrow>
    (tail_subscription \<times> (oplog_error, py_object list option) result) option" where
  "try_fetch X log sub max_count =
     (case fetch log (ts_cursor sub) max_count of
        None \<Rightarrow> None
      | Some (Inl err) \<Rightarrow> Some (sub, Inl err)
      | Some (Inr None) \<Rightarrow> Some (sub, Inr None)
      | Some (Inr (Some (entries, new_cursor))) \<Rightarrow>
          Some (sub\<lparr>ts_cursor := new_cursor\<rparr>, Inr (Some (map (\<lambda>e. entry_to_event_dict X e False) entries))))"

text \<open>
  \<^verbatim>\<open>next_batch\<close>. The instants: the closed flag is read at 0, the counter of the bell at 1, the log at 2, the
  wait looks at the bell from 3 on and ends at the latest at instant \<open>3 + n\<close>, when the time is over; then the flags
  and the log are read again.
\<close>

record tail_world =
  tw_log :: oplog
  tw_bell :: notify_bell
  tw_sub :: tail_subscription

definition look_again :: "hex_codec \<Rightarrow> tail_world \<Rightarrow> nat \<Rightarrow> (tail_subscription \<times> (oplog_error, py_object list) result) option" where
  "look_again X v max_count =
     (if ts_closed (tw_sub v) \<or> nb_closed (tw_bell v) then Some (tw_sub v, Inr [])
      else case try_fetch X (tw_log v) (tw_sub v) max_count of
        None \<Rightarrow> None
      | Some (sub, Inl err) \<Rightarrow> Some (sub, Inl err)
      | Some (sub, Inr None) \<Rightarrow> Some (sub, Inr [])
      | Some (sub, Inr (Some entries)) \<Rightarrow> Some (sub, Inr entries))"

definition next_batch :: "hex_codec \<Rightarrow> (nat \<Rightarrow> tail_world) \<Rightarrow> u64 \<Rightarrow> nat \<Rightarrow> nat \<Rightarrow>
    (tail_subscription \<times> (oplog_error, py_object list) result) option" where
  "next_batch X w timeout_ms max_count n =
     (if ts_closed (tw_sub (w 0)) then Some (tw_sub (w 0), Inr [])
      else let last_seen = nb_counter (tw_bell (w 1)) in
      case try_fetch X (tw_log (w 2)) (tw_sub (w 2)) max_count of
        None \<Rightarrow> None
      | Some (sub, Inl err) \<Rightarrow> Some (sub, Inl err)
      | Some (sub, Inr (Some entries)) \<Rightarrow> Some (sub, Inr entries)
      | Some (sub, Inr None) \<Rightarrow>
          if timeout_ms = 0 then Some (sub, Inr [])
          else look_again X (w (3 + wait_until_changed (\<lambda>j. tw_bell (w (3 + j))) last_seen n)) max_count)"

definition current_cursor :: "hex_codec \<Rightarrow> tail_subscription \<Rightarrow> string list" where
  "current_cursor X sub = map (hex_hash X) (ts_cursor sub)"

definition subscription_close :: "tail_subscription \<Rightarrow> notify_bell \<Rightarrow> tail_subscription \<times> notify_bell" where
  "subscription_close sub b = (sub\<lparr>ts_closed := True\<rparr>, bell_notify b)"

fun parse_cursor :: "hex_codec \<Rightarrow> string list \<Rightarrow> (convert_error, hash list) result" where
  "parse_cursor X [] = Inr []"
| "parse_cursor X (s # ss) =
     (case parse_hex_hash X s of Inl e \<Rightarrow> Inl e
      | Inr h \<Rightarrow> (case parse_cursor X ss of Inl e \<Rightarrow> Inl e | Inr hs \<Rightarrow> Inr (h # hs)))"

section \<open>Waking up\<close>

text \<open>What other threads do: append to the log, ring the bell, set the closed flag; any of it between two instants.\<close>

datatype tail_event = Appended entry | Announced | Flagged

fun world_step :: "content_hash \<Rightarrow> tail_event \<Rightarrow> tail_world \<Rightarrow> tail_world" where
  "world_step H (Appended e) v = v\<lparr>tw_log := fst (oplog_append H (tw_log v) e)\<rparr>"
| "world_step H Announced v = v\<lparr>tw_bell := bell_notify (tw_bell v)\<rparr>"
| "world_step H Flagged v = v\<lparr>tw_sub := (tw_sub v)\<lparr>ts_closed := True\<rparr>\<rparr>"

fun world :: "content_hash \<Rightarrow> tail_world \<Rightarrow> (nat \<Rightarrow> tail_event list) \<Rightarrow> nat \<Rightarrow> tail_world" where
  "world H v events 0 = v"
| "world H v events (Suc k) = fold (world_step H) (events k) (world H v events k)"

text \<open>How often the bell was rung from instant \<open>i\<close> to instant \<open>j\<close>.\<close>

definition rings :: "(nat \<Rightarrow> tail_event list) \<Rightarrow> nat \<Rightarrow> nat \<Rightarrow> nat" where
  "rings events i j = (\<Sum>k = i..<j. count_list (events k) Announced)"

lemma step_bell: "nb_counter (tw_bell (fold (world_step H) evs v)) = nb_counter (tw_bell v) + of_nat (count_list evs Announced) \<and>
    nb_signals (tw_bell (fold (world_step H) evs v)) = nb_signals (tw_bell v) + count_list evs Announced"
proof (induction evs arbitrary: v)
  case (Cons a evs)
  then show ?case by (cases a) (simp_all add: bell_notify_def)
qed simp

lemma world_bell:
  assumes "i \<le> j"
  shows "nb_counter (tw_bell (world H v events j)) = nb_counter (tw_bell (world H v events i)) + of_nat (rings events i j)"
    "nb_signals (tw_bell (world H v events j)) = nb_signals (tw_bell (world H v events i)) + rings events i j"
proof -
  have "nb_counter (tw_bell (world H v events j)) = nb_counter (tw_bell (world H v events i)) + of_nat (rings events i j) \<and>
      nb_signals (tw_bell (world H v events j)) = nb_signals (tw_bell (world H v events i)) + rings events i j"
    using assms by (induction rule: dec_induct) (auto simp: rings_def step_bell)
  then show "nb_counter (tw_bell (world H v events j)) = nb_counter (tw_bell (world H v events i)) + of_nat (rings events i j)"
    "nb_signals (tw_bell (world H v events j)) = nb_signals (tw_bell (world H v events i)) + rings events i j" by blast+
qed

lemma rings_mono: "i \<le> j \<Longrightarrow> j \<le> k \<Longrightarrow> rings events i j \<le> rings events i k"
  unfolding rings_def by (intro sum_mono2) auto

text \<open>The counter tells whether the bell was rung, as long as it did not go round.\<close>

lemma counter_changed:
  assumes "i \<le> j" "rings events i j < 2 ^ 64"
  shows "nb_counter (tw_bell (world H v events j)) = nb_counter (tw_bell (world H v events i)) \<longleftrightarrow> rings events i j = 0"
proof -
  have "(of_nat (rings events i j) :: u64) = 0 \<longleftrightarrow> rings events i j = 0"
    using assms(2) by (auto simp: word_of_nat_eq_0_iff dvd_imp_le)
  then show ?thesis using world_bell(1) [OF assms(1)] by simp
qed

lemma rings_zero: "rings events i j = 0 \<longleftrightarrow> (\<forall>k. i \<le> k \<and> k < j \<longrightarrow> Announced \<notin> set (events k))"
  by (auto simp: rings_def count_list_0_iff)

lemma wait_ends:
  assumes w: "w = world H v events" and few: "rings events 1 (n + 3) < 2 ^ 64" and m: "1 \<le> m" "m < n + 2" "Announced \<in> set (events m)"
    "\<And>k. 1 \<le> k \<Longrightarrow> k < m \<Longrightarrow> Announced \<notin> set (events k)"
  shows "3 + wait_until_changed (\<lambda>j. tw_bell (w (3 + j))) (nb_counter (tw_bell (w 1))) n = max 3 (Suc m)"
proof -
  have changed: "nb_counter (tw_bell (w k)) = nb_counter (tw_bell (w 1)) \<longleftrightarrow> k \<le> m" if k: "1 \<le> k" "k \<le> n + 3" for k
  proof -
    have "rings events 1 k < 2 ^ 64" using rings_mono [OF k, of events] few by simp
    from counter_changed [OF k(1) this, of H v] have "nb_counter (tw_bell (w k)) = nb_counter (tw_bell (w 1)) \<longleftrightarrow>
        (\<forall>i. 1 \<le> i \<and> i < k \<longrightarrow> Announced \<notin> set (events i))" unfolding w rings_zero .
    also have "\<dots> \<longleftrightarrow> k \<le> m" using m(1,3,4) by (auto simp: not_le [symmetric])
    finally show ?thesis .
  qed
  define j where "j = max 3 (Suc m) - 3"
  have j: "3 + j = max 3 (Suc m)" "n = 0 \<and> j = 0 \<or> j < n" using m(2) by (auto simp: j_def max_def)
  have "checks (\<lambda>j. tw_bell (w (3 + j))) j"
  proof (cases "j = 0")
    case False
    then have m_eq: "3 + j = Suc m" "3 + (j - 1) = m" using j(1) by auto
    have "nb_signals (tw_bell (w (Suc m))) = nb_signals (tw_bell (w m)) + count_list (events m) Announced" by (simp add: w step_bell)
    then show ?thesis using m(3) unfolding checks_def m_eq by (simp add: count_list_0_iff)
  qed (simp add: checks_def)
  moreover have "nb_counter (tw_bell (w (3 + j))) \<noteq> nb_counter (tw_bell (w 1))"
  proof -
    have "1 \<le> 3 + j" "3 + j \<le> n + 3" "\<not> 3 + j \<le> m" using j by linarith+
    then show ?thesis using changed by blast
  qed
  moreover have "nb_counter (tw_bell (w (3 + i))) = nb_counter (tw_bell (w 1))" if "i < j" for i
  proof -
    have "1 \<le> 3 + i" "3 + i \<le> n + 3" "3 + i \<le> m" using j that by linarith+
    then show ?thesis using changed by blast
  qed
  ultimately have "j < n \<Longrightarrow> wait_until_changed (\<lambda>j. tw_bell (w (3 + j))) (nb_counter (tw_bell (w 1))) n = j" by (rule wait_first [rotated])
  moreover have "wait_until_changed bells last_seen 0 = 0" for bells last_seen by (simp add: wait_until_changed_def)
  ultimately show ?thesis using j by auto
qed

text \<open>
  C39. No wake-up is lost. Let the first look of \<^verbatim>\<open>next_batch\<close> find nothing. If the bell is rung at any moment after the
  counter was read and before the time is over, be it before that look, between the look and the wait or
  during the wait, the wait ends at the next instant (at once, if it had not begun), and the log and the flags
  are read again as they are then, with all that was appended or closed before the bell was rung; if the
  bell is not rung, they are read when the time is over. The bell is rung fewer than 2^64 times meanwhile.
\<close>

theorem no_lost_wakeup:
  assumes w: "w = world H v events" and "rings events 1 (n + 3) < 2 ^ 64" and "\<not> ts_closed (tw_sub (w 0))" and "timeout_ms \<noteq> 0"
    and "fetch (tw_log (w 2)) (ts_cursor (tw_sub (w 2))) max_count = Some (Inr None)"
  shows "(1 \<le> m \<and> m < n + 2 \<and> Announced \<in> set (events m) \<and> (\<forall>k. 1 \<le> k \<and> k < m \<longrightarrow> Announced \<notin> set (events k)) \<longrightarrow>
      next_batch X w timeout_ms max_count n = look_again X (w (max 3 (Suc m))) max_count) \<and>
    ((\<forall>k. 1 \<le> k \<and> k < n + 2 \<longrightarrow> Announced \<notin> set (events k)) \<longrightarrow>
      next_batch X w timeout_ms max_count n = look_again X (w (n + 3)) max_count)"
proof -
  have run: "next_batch X w timeout_ms max_count n =
      look_again X (w (3 + wait_until_changed (\<lambda>j. tw_bell (w (3 + j))) (nb_counter (tw_bell (w 1))) n)) max_count"
    using assms(3-5) by (simp add: next_batch_def try_fetch_def Let_def)
  have 1: "3 + wait_until_changed (\<lambda>j. tw_bell (w (3 + j))) (nb_counter (tw_bell (w 1))) n = max 3 (Suc m)"
    if "1 \<le> m \<and> m < n + 2 \<and> Announced \<in> set (events m) \<and> (\<forall>k. 1 \<le> k \<and> k < m \<longrightarrow> Announced \<notin> set (events k))"
    using wait_ends [OF assms(1,2), of m] that by blast
  have 2: "wait_until_changed (\<lambda>j. tw_bell (w (3 + j))) (nb_counter (tw_bell (w 1))) n = n"
    if quiet: "\<forall>k. 1 \<le> k \<and> k < n + 2 \<longrightarrow> Announced \<notin> set (events k)"
  proof (rule wait_times_out)
    fix i assume i: "i < n"
    then have "rings events 1 (3 + i) = 0" using quiet by (auto simp: rings_zero)
    then show "nb_counter (tw_bell (w (3 + i))) = nb_counter (tw_bell (w 1))" using world_bell(1) [of 1 "3 + i"] unfolding w by simp
  qed
  show ?thesis
    unfolding run by (intro conjI impI) (subst 1, assumption, rule refl, simp only: 2 add.commute [of 3 n])
qed

text \<open>An entry that is appended and announced while the consumer goes from its look to the wait.\<close>

definition demo_events :: "nat \<Rightarrow> tail_event list" where
  "demo_events k = (if k = 2 then [Appended demo_child, Announced] else [])"

definition demo_world :: "nat \<Rightarrow> tail_world" where
  "demo_world = world demo_hash \<lparr>tw_log = oplog_new demo_root, tw_bell = bell_new, tw_sub = subscription_new [1]\<rparr> demo_events"

theorem no_lost_wakeup_witness:
  "(\<forall>X. next_batch X demo_world 10 5 7 = look_again X (demo_world 3) 5) \<and> tw_log (demo_world 3) = demo_log \<and> tw_log (demo_world 2) = oplog_new demo_root"
proof -
  have steps: "demo_world 0 = \<lparr>tw_log = oplog_new demo_root, tw_bell = bell_new, tw_sub = subscription_new [1]\<rparr>"
    "demo_world 2 = \<lparr>tw_log = oplog_new demo_root, tw_bell = bell_new, tw_sub = subscription_new [1]\<rparr>"
    "tw_log (demo_world 3) = demo_log"
    by (simp_all add: demo_world_def demo_events_def numeral_2_eq_2 numeral_3_eq_3 demo_log_def)
  have "rings demo_events 1 (7 + 3) = 1"
    by (simp add: rings_def demo_events_def eval_nat_numeral)
  moreover have "fetch (tw_log (demo_world 2)) (ts_cursor (tw_sub (demo_world 2))) 5 = Some (Inr None)"
    by (simp add: steps fetch_def subscription_new_def entries_since_heads_def oplog_new_def demo_next hm_contains_def reachable_from_def topo_sort_def topo_loop.simps)
  ultimately have "next_batch X demo_world 10 5 7 = look_again X (demo_world (max 3 (Suc 2))) 5" for X
    using no_lost_wakeup [OF demo_world_def, of 7 10 5 2 X] by (simp add: steps(1) subscription_new_def demo_events_def)
  then show ?thesis by (simp add: steps)
qed

text \<open>A cursor that was saved as text and presented again is the same cursor.\<close>

lemma cursor_roundtrip:
  assumes "\<forall>bs. hx_decode X (hx_encode X bs) = Some bs"
  shows "parse_cursor X (current_cursor X sub) = Inr (ts_cursor sub)"
proof -
  have "parse_cursor X (map (hex_hash X) hs) = Inr hs" for hs
    by (induction hs) (simp_all add: parse_hex_hash_def assms hash_bytes_roundtrip)
  then show ?thesis by (simp add: current_cursor_def)
qed

section \<open>Delivery\<close>

text \<open>
  A subscriber beside a growing log. \<open>tail_run\<close> is the set of states that appends and batches of any
  sizes reach: the log, the cursor, and the hashes delivered so far. Appends of parentless checkpoints
  are left out, they replace the log; entries have no references, as all entries this code creates.
\<close>

definition tailable :: "entry \<Rightarrow> bool" where
  "tailable e \<longleftrightarrow> distinct (en_next e) \<and> en_refs e = [] \<and> \<not> (en_next e = [] \<and> is_checkpoint (en_payload e))"

definition tail_log :: "oplog \<Rightarrow> bool" where
  "tail_log log \<longleftrightarrow> (\<forall>h e. oplog_get log h = Some e \<longrightarrow> distinct (en_next e) \<and> en_refs e = [])"

inductive tail_run :: "content_hash \<Rightarrow> oplog \<Rightarrow> hash list \<Rightarrow> oplog \<Rightarrow> hash list \<Rightarrow> hash set \<Rightarrow> bool" for H log0 cursor0 where
  start: "tail_run H log0 cursor0 log0 cursor0 {}"
| append: "tail_run H log0 cursor0 log cursor D \<Longrightarrow> tailable e \<Longrightarrow>
    tail_run H log0 cursor0 (fst (oplog_append H log e)) cursor D"
| batch: "tail_run H log0 cursor0 log cursor D \<Longrightarrow> fetch log cursor max_count = Some (Inr (Some (es, cursor'))) \<Longrightarrow>
    tail_run H log0 cursor0 log cursor' (D \<union> en_hash ` set es)"

lemma tail_log_linked: "tail_log log \<Longrightarrow> well_linked log"
  by (simp add: tail_log_def well_linked_def)

lemma fetch_known:
  assumes "oplog_inv H log" "tail_log log" "set cursor \<subseteq> hm_keys (ol_entries log)"
  obtains es where "entries_since_heads log cursor = Inr (Some es)"
    "set (map en_hash es) = hm_keys (ol_entries log) - causal_past log cursor"
    "\<forall>i < length es. \<forall>p \<in> set (en_next (es ! i)). p \<in> causal_past log cursor \<or> p \<in> en_hash ` set (take i es)"
    "\<forall>e \<in> set es. oplog_get log (en_hash e) = Some e" "distinct (map en_hash es)"
proof -
  have "heads_known log cursor" using assms(3) by (auto simp: heads_known_def list_all_iff hm_contains_iff)
  with delta_correct [OF assms(1) tail_log_linked [OF assms(2)], of "causal_past log cursor"] that show ?thesis
    by (auto simp: entries_since_heads_known)
qed

text \<open>What precedes a position of the listing, with the past of the cursor, is closed under parents.\<close>

lemma prefix_closed:
  assumes "tail_log log" "\<forall>e \<in> set es. oplog_get log (en_hash e) = Some e"
    "\<forall>i < length es. \<forall>p \<in> set (en_next (es ! i)). p \<in> causal_past log cursor \<or> p \<in> en_hash ` set (take i es)"
    "h \<in> causal_past log cursor \<union> en_hash ` set (take m es)"
  shows "set (back_links log h) \<subseteq> causal_past log cursor \<union> en_hash ` set (take m es)"
proof (cases "h \<in> causal_past log cursor")
  case True
  then show ?thesis using rtrancl_Image_step [OF True [unfolded causal_past_def]] by (simp add: causal_past_def subset_iff)
next
  case False
  with assms(4) obtain i where i: "i < length es" "i < m" "h = en_hash (es ! i)" by (auto simp: in_set_conv_nth)
  then have "oplog_get log h = Some (es ! i)" using assms(2) by auto
  then have "set (back_links log h) = set (en_next (es ! i))"
    using assms(1) by (auto simp: back_links_def tail_log_def oplog_get_def)
  moreover have "set (take i es) \<subseteq> set (take m es)" using i by (intro set_take_subset_set_take) simp
  ultimately show ?thesis using assms(3) i by blast
qed

lemma fetch_step:
  assumes "oplog_inv H log" "tail_log log" "set cursor \<subseteq> hm_keys (ol_entries log)"
    "fetch log cursor max_count = Some (Inr (Some (es, cursor')))"
  shows "set cursor' \<subseteq> hm_keys (ol_entries log)" "causal_past log cursor' \<subseteq> causal_past log cursor \<union> en_hash ` set es"
    "es \<noteq> []" "length es \<le> max_count" "distinct (map en_hash es)" "en_hash ` set es \<inter> causal_past log cursor = {}"
proof -
  obtain all where all: "entries_since_heads log cursor = Inr (Some all)"
    "set (map en_hash all) = hm_keys (ol_entries log) - causal_past log cursor"
    "\<forall>i < length all. \<forall>p \<in> set (en_next (all ! i)). p \<in> causal_past log cursor \<or> p \<in> en_hash ` set (take i all)"
    "\<forall>e \<in> set all. oplog_get log (en_hash e) = Some e" "distinct (map en_hash all)"
    using fetch_known [OF assms(1-3)] by blast
  have cut: "es = take max_count all" "all \<noteq> []" "es \<noteq> []" "length es \<le> max_count"
    using assms(4) all(1) by (auto simp: fetch_def split: if_splits)
  show "es \<noteq> []" "length es \<le> max_count" "distinct (map en_hash es)"
    using cut all(5) by (simp_all add: distinct_map_filter take_map [symmetric])
  have sub: "set es \<subseteq> set all" using cut(1) set_take_subset by fast
  then show "en_hash ` set es \<inter> causal_past log cursor = {}" using all(2) by auto
  show "set cursor' \<subseteq> hm_keys (ol_entries log)" "causal_past log cursor' \<subseteq> causal_past log cursor \<union> en_hash ` set es"
  proof -
    consider (full) "es = all" "cursor' = ol_heads log" | (cut) "max_count \<noteq> 0" "max_count < length all" "cursor' = [en_hash (all ! (max_count - 1))]"
      using assms(4) all(1) by (auto simp: fetch_def split: if_splits)
    then have "set cursor' \<subseteq> hm_keys (ol_entries log) \<and> causal_past log cursor' \<subseteq> causal_past log cursor \<union> en_hash ` set es"
    proof cases
      case full
      then show ?thesis
        using heads_reach_all [OF assms(1) tail_log_linked [OF assms(2)]] all(2) oplog_invD(4) [OF assms(1)] by auto
    next
      case cut
      then have "all ! (max_count - 1) \<in> set es" unfolding \<open>es = take max_count all\<close>
        by (auto simp: in_set_conv_nth intro!: exI [of _ "max_count - 1"])
      moreover have "en_hash e \<in> hm_keys (ol_entries log)" if "e \<in> set es" for e
      proof -
        have "en_hash e \<in> set (map en_hash all)" using that sub by auto
        then show ?thesis unfolding all(2) by simp
      qed
      ultimately show ?thesis
        unfolding causal_past_def [of log cursor'] \<open>es = take max_count all\<close> using cut(3)
        by (intro conjI rtrancl_Image_closed prefix_closed [OF assms(2) all(4,3)]) auto
    qed
    then show "set cursor' \<subseteq> hm_keys (ol_entries log)" "causal_past log cursor' \<subseteq> causal_past log cursor \<union> en_hash ` set es"
      by blast+
  qed
qed


lemma tail_append:
  assumes "oplog_inv H log" "tail_log log" "set cursor \<subseteq> hm_keys (ol_entries log)" "tailable e"
  defines "log' \<equiv> fst (oplog_append H log e)"
  shows "oplog_inv H log'" "tail_log log'" "hm_keys (ol_entries log) \<subseteq> hm_keys (ol_entries log')"
    "causal_past log' cursor \<subseteq> causal_past log cursor"
proof -
  show "oplog_inv H log'" unfolding log'_def by (rule oplog_append_inv [OF assms(1)])
  have log': "log' = log \<or> en_hash e \<notin> hm_keys (ol_entries log) \<and> ol_entries log' = AList.update (en_hash e) e (ol_entries log)"
    using assms(4) unfolding log'_def
    by (auto simp: oplog_append_def tailable_def insert_entry_def Let_def hm_contains_iff split: option.splits)
  then show "tail_log log'"
    using assms(2,4) by (auto simp: tail_log_def tailable_def oplog_get_def map_simps split: if_splits)
  show "hm_keys (ol_entries log) \<subseteq> hm_keys (ol_entries log')"
    unfolding hm_keys_dom using log' by (auto simp: map_simps)
  note past = causal_past_keys [OF assms(1) tail_log_linked [OF assms(2)] assms(3)]
  have "back_links log' h = back_links log h" if "h \<in> causal_past log cursor" for h
    using log' past that by (auto simp: back_links_def map_simps)
  then show "causal_past log' cursor \<subseteq> causal_past log cursor"
    unfolding causal_past_def [of log'] 
    by (intro rtrancl_Image_closed) (auto simp: causal_past_def intro: rtrancl_Image_step)
qed

lemma tail_run_inv:
  assumes "tail_run H log0 cursor0 log cursor D"
    and "oplog_inv H log0" "tail_log log0" "set cursor0 \<subseteq> hm_keys (ol_entries log0)"
  shows "oplog_inv H log \<and> tail_log log \<and> set cursor \<subseteq> hm_keys (ol_entries log) \<and>
    causal_past log cursor \<subseteq> causal_past log0 cursor0 \<union> D"
  using assms(1)
proof induction
  case (append log cursor D e)
  then show ?case using tail_append [of H log cursor e] by blast
next
  case (batch log cursor D max_count es cursor')
  then show ?case using fetch_step [of H log cursor max_count es cursor'] by blast
qed (use assms in auto)

text \<open>
  C19. A tail subscriber misses nothing: whatever entries are appended while it reads and however large its
  batches are, once a fetch finds nothing new every entry of the log has been delivered or lay in the
  past of the cursor it started from. A batch never exceeds its limit, has no repetition and nothing
  from the past of the cursor; and a batch that was not cut leaves the cursor at the heads, so
  that the next fetch finds nothing new.
\<close>

theorem tail_misses_nothing:
  assumes "tail_run H log0 cursor0 log cursor D"
    and "log_run H log0" and "tail_log log0" and "set cursor0 \<subseteq> hm_keys (ol_entries log0)"
  shows "(fetch log cursor max_count = Some (Inr None) \<longrightarrow> hm_keys (ol_entries log) \<subseteq> causal_past log0 cursor0 \<union> D) \<and>
    (\<forall>es cursor'. fetch log cursor max_count = Some (Inr (Some (es, cursor'))) \<longrightarrow>
       es \<noteq> [] \<and> length es \<le> max_count \<and> distinct (map en_hash es) \<and> en_hash ` set es \<inter> causal_past log cursor = {}) \<and>
    (card (hm_keys (ol_entries log)) \<le> max_count \<longrightarrow>
       fetch log cursor max_count = Some (Inr None) \<or>
       (\<exists>es. fetch log cursor max_count = Some (Inr (Some (es, ol_heads log))) \<and> fetch log (ol_heads log) m = Some (Inr None)))"
proof -
  note inv = tail_run_inv [OF assms(1) log_run_inv [OF assms(2)] assms(3,4)]
  then have log: "oplog_inv H log" "tail_log log" "set cursor \<subseteq> hm_keys (ol_entries log)" by blast+
  obtain all where all: "entries_since_heads log cursor = Inr (Some all)"
    "set (map en_hash all) = hm_keys (ol_entries log) - causal_past log cursor" "distinct (map en_hash all)"
    by (rule fetch_known [OF log])
  have heads: "set (ol_heads log) \<subseteq> hm_keys (ol_entries log)" using oplog_invD(4) [OF log(1)] by blast
  obtain none where none: "entries_since_heads log (ol_heads log) = Inr (Some none)"
    "set (map en_hash none) = hm_keys (ol_entries log) - causal_past log (ol_heads log)"
    by (rule fetch_known [OF log(1,2) heads])
  have "none = []" using none(2) heads_reach_all [OF log(1) tail_log_linked [OF log(2)]] by simp
  have len: "length all \<le> card (hm_keys (ol_entries log))"
    using card_mono [of "hm_keys (ol_entries log)" "set (map en_hash all)"] distinct_card [OF all(3)] all(2) by auto
  show ?thesis
  proof (intro conjI impI allI)
    assume "fetch log cursor max_count = Some (Inr None)"
    with all(1) have "all = []" by (simp add: fetch_def split: if_splits)
    then have "hm_keys (ol_entries log) - causal_past log cursor = {}" using all(2) by simp
    with inv show "hm_keys (ol_entries log) \<subseteq> causal_past log0 cursor0 \<union> D" by blast
  next
    fix es cursor' assume "fetch log cursor max_count = Some (Inr (Some (es, cursor')))"
    from fetch_step(3-6) [OF log this] show "es \<noteq> []" "length es \<le> max_count" "distinct (map en_hash es)"
      "en_hash ` set es \<inter> causal_past log cursor = {}" by auto
  next
    assume "card (hm_keys (ol_entries log)) \<le> max_count"
    with len all(1) none(1) \<open>none = []\<close> show "fetch log cursor max_count = Some (Inr None) \<or>
       (\<exists>es. fetch log cursor max_count = Some (Inr (Some (es, ol_heads log))) \<and> fetch log (ol_heads log) m = Some (Inr None))"
      by (simp add: fetch_def)
  qed
qed

lemma demo_tail_log: "tail_log demo_log"
  by (auto simp: tail_log_def oplog_get_def demo_log_eq demo_next split: if_splits)

theorem tail_misses_nothing_witness:
  "\<exists>es. fetch demo_log [] 5 = Some (Inr (Some (es, [34]))) \<and> {1, 34} \<subseteq> en_hash ` set es"
proof -
  note run = tail_run.start [of demo_hash demo_log "[]"]
  note all = tail_misses_nothing [OF _ demo_log_run demo_tail_log, of "[]"]
  have keys: "hm_keys (ol_entries demo_log) = {1, 34}" "ol_heads demo_log = [34]" by (simp_all add: demo_log_eq)
  have past: "causal_past demo_log [] = {}" by (simp add: causal_past_def)
  from all [OF run, of 5 5] obtain es where es: "fetch demo_log [] 5 = Some (Inr (Some (es, [34])))"
    "fetch demo_log [34] 5 = Some (Inr None)" by (auto simp: keys past)
  from all [OF tail_run.batch [OF run es(1)], of 5 5] es(2) have "{1, 34} \<subseteq> en_hash ` set es" by (simp add: keys past)
  with es(1) show ?thesis by blast
qed

section \<open>Starvation\<close>

text \<open>
  A cut batch moves the cursor to its last entry alone and forgets the other branches. With one entry
  per batch and three concurrent heads the subscriber reads two of them in turn and never the
  third. And a limit of zero panics as soon as there is something to deliver.
\<close>

definition demo_third :: entry where
  "demo_third = entry_new demo_hash (RemoveNode ''nnn'') [1] [] (with_values ''c'' 3 0) ''c''"

definition demo_second :: entry where
  "demo_second = entry_new demo_hash (RemoveNode ''nn'') [1] [] (with_values ''b'' 2 0) ''b''"

definition demo_forked :: oplog where
  "demo_forked = fst (oplog_append demo_hash (fst (oplog_append demo_hash demo_log demo_second)) demo_third)"

text \<open>The hashes delivered by \<open>n\<close> batches, and the cursor after them.\<close>

fun batches :: "oplog \<Rightarrow> nat \<Rightarrow> hash list \<Rightarrow> nat \<Rightarrow> hash list \<times> hash list" where
  "batches log max_count cursor 0 = ([], cursor)"
| "batches log max_count cursor (Suc n) =
     (case fetch log cursor max_count of
        Some (Inr (Some (es, cursor'))) \<Rightarrow> apfst (\<lambda>hs. map en_hash es @ hs) (batches log max_count cursor' n)
      | _ \<Rightarrow> ([], cursor))"

lemma demo_forked_eq: "demo_forked = \<lparr>ol_entries = [(1, demo_root), (34, demo_child), (50, demo_second), (66, demo_third)],
    ol_heads = [34, 50, 66], ol_children = [(1, [34, 50, 66])], ol_len = 4\<rparr>"
  unfolding demo_forked_def demo_log_eq
  by (simp add: demo_second_def demo_third_def verify_hash_def entry_new_def compute_hash_def demo_hash_def
      oplog_append_def hm_contains_def insert_entry_def hs_remove_def hs_insert_def is_checkpoint_def)

lemma demo_forked_facts:
  "en_next demo_second = [1]" "en_refs demo_second = []" "en_hash demo_second = 50" "as_tuple (en_clock demo_second) = (2, 0)"
  "en_next demo_third = [1]" "en_refs demo_third = []" "en_hash demo_third = 66" "as_tuple (en_clock demo_third) = (3, 0)"
  "as_tuple (en_clock demo_child) = (2, 0)" "as_tuple (en_clock demo_root) = (1, 0)"
  by (simp_all add: demo_second_def demo_third_def demo_entries as_tuple_def)

lemmas forked_simps = demo_forked_facts demo_next demo_forked_eq entries_since_heads_def hm_contains_def reachable_from_def
  topo_sort_def topo_key_def topo_loop.simps Let_def

lemma forked_deltas:
  "entries_since_heads demo_forked [] = Inr (Some [demo_root, demo_child, demo_second, demo_third])"
  "entries_since_heads demo_forked [1] = Inr (Some [demo_child, demo_second, demo_third])"
  "entries_since_heads demo_forked [34] = Inr (Some [demo_second, demo_third])"
  "entries_since_heads demo_forked [50] = Inr (Some [demo_child, demo_third])"
  by (simp_all add: forked_simps)

lemma forked_batches:
  "66 \<notin> set (fst (batches demo_forked 1 [34] n)) \<and> 66 \<notin> set (fst (batches demo_forked 1 [50] n)) \<and>
   length (fst (batches demo_forked 1 [34] n)) = n \<and> length (fst (batches demo_forked 1 [50] n)) = n"
  by (induction n) (auto simp: fetch_def forked_deltas demo_next demo_forked_facts)

theorem tail_can_starve:
  "\<exists>H log h. log_run H log \<and> tail_log log \<and> h \<in> hm_keys (ol_entries log) \<and>
     (\<forall>n. length (fst (batches log 1 [] n)) = n \<and> h \<notin> set (fst (batches log 1 [] n))) \<and> fetch log [] 0 = None"
proof (intro exI conjI allI)
  show "log_run demo_hash demo_forked" unfolding demo_forked_def by (intro log_run.append demo_log_run)
  show "tail_log demo_forked"
    by (auto simp: tail_log_def oplog_get_def demo_forked_eq demo_next demo_forked_facts split: if_splits)
  show "66 \<in> hm_keys (ol_entries demo_forked)" by (simp add: demo_forked_eq)
  fix n
  have first: "fst (batches demo_forked 1 [] (Suc (Suc m))) = 1 # 34 # fst (batches demo_forked 1 [34] m)"
    "fst (batches demo_forked 1 [] (Suc 0)) = [1]" for m
    by (simp_all add: fetch_def forked_deltas demo_next demo_forked_facts)
  have "length (fst (batches demo_forked 1 [] n)) = n \<and> 66 \<notin> set (fst (batches demo_forked 1 [] n))"
  proof (cases n)
    case (Suc k)
    then show ?thesis using first forked_batches by (cases k) (auto simp del: batches.simps)
  qed simp
  then show "length (fst (batches demo_forked 1 [] n)) = n" "66 \<notin> set (fst (batches demo_forked 1 [] n))" by blast+
  show "fetch demo_forked [] 0 = None" by (simp add: fetch_def forked_deltas)
qed

end
