(* ===== verification/Silk_Facade.thy ===== *)
theory Silk_Facade
  imports Silk_Tail Silk_Store Silk_Gossip
begin


text \<open>
  The store that Python programs use, \<^verbatim>\<open>PyGraphStore\<close> of \<^verbatim>\<open>src/src/python/mod.rs\<close>: it keeps the log (in
  memory or in a \<^verbatim>\<open>Store\<close>), the materialized graph, the clock, the ontology, the peers, the callbacks and
  the bell together. This theory holds its state, the local write path, the merge of a peer's entries
  and the rebuild; \<^verbatim>\<open>Silk_Lifecycle\<close> holds opening, snapshots, time travel and compaction.

  \<^item> \<open>platform\<close> collects what comes from outside: the environment of the graph, the database and its codec,
    and the ed25519 crate. The wall clock is an argument of the operations that read it.
  \<^item> An operation that can panic returns an option; \<open>None\<close> is the panic of the log's listing.
  \<^item> A call of a callback is recorded in \<open>ps_calls\<close> with the entry and the \<^verbatim>\<open>local\<close> flag its event dict is
    built from. The store is borrowed mutably during the call, so a callback cannot change it.
  \<^item> An entry's hash is returned as such; its hexadecimal text is \<open>hex_hash\<close> of \<^verbatim>\<open>Silk_Convert\<close>. Errors are
    datatypes instead of messages.
\<close>

declare map_of_eq_Some_iff [simp del] Some_eq_map_of_iff [simp del]

section \<open>State\<close>

record ('d, 't, 'v, 'sk, 'pk) platform =
  pf_env :: env
  pf_redb :: "('d, 't, 'v) redb"
  pf_codec :: "'v store_codec"
  pf_sign :: "'sk \<Rightarrow> hash \<Rightarrow> u8 list"
  pf_verify :: "'pk \<Rightarrow> hash \<Rightarrow> u8 list \<Rightarrow> bool"
  pf_signing_key_of :: "u8 list \<Rightarrow> 'sk"
  pf_verifying_key_of :: "u8 list \<Rightarrow> 'pk option"
  pf_public_key :: "'sk \<Rightarrow> u8 list"

datatype 'd backend = Memory oplog | Persistent "'d store"

datatype backend_error = LogError oplog_error | StoreError store_error | MergeError merge_error

fun backend_oplog :: "'d backend \<Rightarrow> oplog" where
  "backend_oplog (Memory log) = log"
| "backend_oplog (Persistent st) = st_oplog st"

fun backend_append :: "('d, 't, 'v, 'sk, 'pk) platform \<Rightarrow> 'd backend \<Rightarrow> entry \<Rightarrow> 'd backend \<times> (backend_error, bool) result" where
  "backend_append P (Memory log) e =
     (case oplog_append (env_hash (pf_env P)) log e of (log', r) \<Rightarrow> (Memory log', map_sum LogError id r))"
| "backend_append P (Persistent st) e =
     (case store_append (env_hash (pf_env P)) (pf_redb P) (pf_codec P) st e of (st', r) \<Rightarrow> (Persistent st', map_sum StoreError id r))"

record ('d, 'sk, 'pk, 'cb) py_store =
  ps_backend :: "'d backend"
  ps_graph :: graph
  ps_node_types :: "(string, string) hash_map"
  ps_instance_id :: string
  ps_clock :: hybrid_clock
  ps_ontology :: ontology
  ps_subscribers :: "(u64 \<times> 'cb) list"
  ps_next_sub_id :: u64
  ps_signing_key :: "'sk option"
  ps_key_registry :: "(string, 'pk) hash_map"
  ps_require_signatures :: bool
  ps_gossip :: peer_registry
  ps_bell :: notify_bell
  ps_cursors :: "hash list list"
  ps_calls :: "('cb \<times> entry \<times> bool) list"

datatype unsafe_reason = PeerUnsafe compaction_reason | CursorBehind nat | CursorUnknown nat

datatype py_error =
    Rejected validation_error
  | ExtensionRejected monotonicity_error
  | ExtensionKeys extension_key_error
  | ExtensionInvalid
  | ConvertFailed convert_error
  | SourceMissing string
  | TargetMissing string
  | BackendFailed backend_error
  | OntologyInvalid
  | GenesisFailed genesis_error
  | EmptyStore
  | EmptySnapshot
  | Undecoded decode_failure
  | EntriesUndecodable
  | KeyInvalid
  | FlushModeInvalid
  | UnsafeCompaction "unsafe_reason list"

abbreviation ps_oplog :: "('d, 'sk, 'pk, 'cb) py_store \<Rightarrow> oplog" where
  "ps_oplog s \<equiv> backend_oplog (ps_backend s)"

section \<open>The write path\<close>

definition create_entry :: "('d, 't, 'v, 'sk, 'pk) platform \<Rightarrow> ('d, 'sk, 'pk, 'cb) py_store \<Rightarrow> graph_op \<Rightarrow> hash list \<Rightarrow> hash list \<Rightarrow>
    hybrid_clock \<Rightarrow> string \<Rightarrow> entry" where
  "create_entry P s payload next refs clock author =
     (case ps_signing_key s of
        Some key \<Rightarrow> entry_new_signed (env_hash (pf_env P)) (pf_sign P) payload next refs clock author key
      | None \<Rightarrow> entry_new (env_hash (pf_env P)) payload next refs clock author)"

text \<open>
  Every subscriber is called with the event; what a callback returns or raises is ignored. The source skips the
  callbacks if \<^verbatim>\<open>entry_to_event_dict\<close> fails. That function only stores strings, numbers and booleans in a new dict
  and drops a property value that it cannot convert, so it fails only when the interpreter runs out of memory,
  which no part of the model represents; the branch has no counterpart here.
\<close>

definition notify_subscribers :: "('d, 'sk, 'pk, 'cb) py_store \<Rightarrow> entry \<Rightarrow> bool \<Rightarrow> ('d, 'sk, 'pk, 'cb) py_store" where
  "notify_subscribers s e is_local =
     s\<lparr>ps_calls := ps_calls s @ map (\<lambda>(_, callback). (callback, e, is_local)) (ps_subscribers s)\<rparr>"

definition validate_entry_payload :: "('d, 't, 'v, 'sk, 'pk) platform \<Rightarrow> ('d, 'sk, 'pk, 'cb) py_store \<Rightarrow> entry \<Rightarrow>
    (validation_error, unit) result" where
  "validate_entry_payload P s e =
     (let rx = env_regex (pf_env P) in
      case en_payload e of
        AddNode _ node_type subtype _ properties \<Rightarrow> validate_node rx (ps_ontology s) node_type subtype properties
      | AddEdge _ edge_type source_id target_id properties \<Rightarrow>
          if \<not> hm_contains (on_edge_types (ps_ontology s)) edge_type then Inl (UnknownEdgeType edge_type)
          else (case (get_node (ps_graph s) source_id, get_node (ps_graph s) target_id) of
              (Some src, Some tgt) \<Rightarrow> validate_edge rx (ps_ontology s) edge_type (n_type src) (n_type tgt) properties
            | _ \<Rightarrow> Inr ())
      | UpdateProperty entity_id key v \<Rightarrow>
          (case get_node (ps_graph s) entity_id of
             Some n \<Rightarrow> validate_property_update rx (ps_ontology s) (n_type n) (n_subtype n) key v
           | None \<Rightarrow>
             (case get_edge (ps_graph s) entity_id of
                Some ed \<Rightarrow> validate_edge_property_update rx (ps_ontology s) (e_type ed) key v
              | None \<Rightarrow> Inr ()))
      | _ \<Rightarrow> Inr ())"

definition ps_append :: "('d, 't, 'v, 'sk, 'pk) platform \<Rightarrow> u64 \<Rightarrow> ('d, 'sk, 'pk, 'cb) py_store \<Rightarrow> graph_op \<Rightarrow>
    ('d, 'sk, 'pk, 'cb) py_store \<times> (py_error, hash) result" where
  "ps_append P wall s op =
     (let s1 = s\<lparr>ps_clock := tick wall (ps_clock s)\<rparr>;
          e = create_entry P s1 op (ol_heads (ps_oplog s1)) [] (ps_clock s1) (ps_instance_id s1) in
      case validate_entry_payload P s1 e of
        Inl reason \<Rightarrow> (s1, Inl (Rejected reason))
      | Inr _ \<Rightarrow>
          (case backend_append P (ps_backend s1) e of
             (b, Inl err) \<Rightarrow> (s1\<lparr>ps_backend := b\<rparr>, Inl (BackendFailed err))
           | (b, Inr _) \<Rightarrow>
               (let s2 = notify_subscribers (s1\<lparr>ps_backend := b, ps_graph := graph_apply (pf_env P) (ps_graph s1) e\<rparr>) e True
                in (s2\<lparr>ps_bell := bell_notify (ps_bell s2)\<rparr>, Inr (en_hash e)))))"

definition ps_add_node :: "('d, 't, 'v, 'sk, 'pk) platform \<Rightarrow> 'o py_api \<Rightarrow> u64 \<Rightarrow> ('d, 'sk, 'pk, 'cb) py_store \<Rightarrow> string \<Rightarrow> string \<Rightarrow>
    string \<Rightarrow> ('o \<times> 'o) list option \<Rightarrow> string option \<Rightarrow> ('d, 'sk, 'pk, 'cb) py_store \<times> (py_error, hash) result" where
  "ps_add_node P A wall s node_id node_type label properties subtype =
     (case convert_props A properties of Inl err \<Rightarrow> (s, Inl (ConvertFailed err))
      | Inr props \<Rightarrow>
        (case validate_node (env_regex (pf_env P)) (ps_ontology s) node_type subtype props of
           Inl err \<Rightarrow> (s, Inl (Rejected err))
         | Inr _ \<Rightarrow>
           (case ps_append P wall s (AddNode node_id node_type subtype label props) of
              (s1, Inl err) \<Rightarrow> (s1, Inl err)
            | (s1, Inr h) \<Rightarrow> (s1\<lparr>ps_node_types := hm_insert node_id node_type (ps_node_types s1)\<rparr>, Inr h))))"

definition ps_add_edge :: "('d, 't, 'v, 'sk, 'pk) platform \<Rightarrow> 'o py_api \<Rightarrow> u64 \<Rightarrow> ('d, 'sk, 'pk, 'cb) py_store \<Rightarrow> string \<Rightarrow> string \<Rightarrow>
    string \<Rightarrow> string \<Rightarrow> ('o \<times> 'o) list option \<Rightarrow> ('d, 'sk, 'pk, 'cb) py_store \<times> (py_error, hash) result" where
  "ps_add_edge P A wall s edge_id edge_type source_id target_id properties =
     (case convert_props A properties of Inl err \<Rightarrow> (s, Inl (ConvertFailed err))
      | Inr props \<Rightarrow>
        (case hm_get (ps_node_types s) source_id of None \<Rightarrow> (s, Inl (SourceMissing source_id))
         | Some source_type \<Rightarrow>
           (case hm_get (ps_node_types s) target_id of None \<Rightarrow> (s, Inl (TargetMissing target_id))
            | Some target_type \<Rightarrow>
              (case validate_edge (env_regex (pf_env P)) (ps_ontology s) edge_type source_type target_type props of
                 Inl err \<Rightarrow> (s, Inl (Rejected err))
               | Inr _ \<Rightarrow> ps_append P wall s (AddEdge edge_id edge_type source_id target_id props)))))"

definition ps_update_property :: "('d, 't, 'v, 'sk, 'pk) platform \<Rightarrow> 'o py_api \<Rightarrow> u64 \<Rightarrow> ('d, 'sk, 'pk, 'cb) py_store \<Rightarrow> string \<Rightarrow>
    string \<Rightarrow> 'o \<Rightarrow> ('d, 'sk, 'pk, 'cb) py_store \<times> (py_error, hash) result" where
  "ps_update_property P A wall s entity_id key obj =
     (case py_to_value A obj of Inl err \<Rightarrow> (s, Inl (ConvertFailed err))
      | Inr v \<Rightarrow> ps_append P wall s (UpdateProperty entity_id key v))"

definition ps_remove_node :: "('d, 't, 'v, 'sk, 'pk) platform \<Rightarrow> u64 \<Rightarrow> ('d, 'sk, 'pk, 'cb) py_store \<Rightarrow> string \<Rightarrow>
    ('d, 'sk, 'pk, 'cb) py_store \<times> (py_error, hash) result" where
  "ps_remove_node P wall s node_id =
     ps_append P wall (s\<lparr>ps_node_types := hm_remove node_id (ps_node_types s)\<rparr>) (RemoveNode node_id)"

definition ps_remove_edge :: "('d, 't, 'v, 'sk, 'pk) platform \<Rightarrow> u64 \<Rightarrow> ('d, 'sk, 'pk, 'cb) py_store \<Rightarrow> string \<Rightarrow>
    ('d, 'sk, 'pk, 'cb) py_store \<times> (py_error, hash) result" where
  "ps_remove_edge P wall s edge_id = ps_append P wall s (RemoveEdge edge_id)"

section \<open>Rebuilding\<close>

definition live_node_types :: "graph \<Rightarrow> (string, string) hash_map" where
  "live_node_types g = fold (\<lambda>n. hm_insert (n_id n) (n_type n)) (all_nodes g) []"

text \<open>The loop over the entries that were quarantined before: how many are free now, and their events.\<close>

fun release_freed :: "entry list \<Rightarrow> hash list \<Rightarrow> ('d, 'sk, 'pk, 'cb) py_store \<Rightarrow> nat \<Rightarrow> ('d, 'sk, 'pk, 'cb) py_store \<times> nat" where
  "release_freed all [] s freed = (s, freed)"
| "release_freed all (h # hs) s freed =
     (if hm_contains (gr_quarantined (ps_graph s)) h then release_freed all hs s freed
      else release_freed all hs
        (case find (\<lambda>e. en_hash e = h) all of Some e \<Rightarrow> notify_subscribers s e False | None \<Rightarrow> s) (freed + 1))"

definition ps_revalidate :: "('d, 't, 'v, 'sk, 'pk) platform \<Rightarrow> ('d, 'sk, 'pk, 'cb) py_store \<Rightarrow>
    (('d, 'sk, 'pk, 'cb) py_store \<times> nat) option" where
  "ps_revalidate P s =
     (case entries_since (ps_oplog s) None of None \<Rightarrow> None
      | Some all \<Rightarrow>
        (let g = rebuild (pf_env P) (ps_graph s) all
         in Some (release_freed all (map fst (gr_quarantined (ps_graph s)))
              (s\<lparr>ps_graph := g, ps_node_types := live_node_types g, ps_ontology := gr_ontology g\<rparr>) 0)))"

text \<open>
  \<^verbatim>\<open>extend_ontology\<close>, from the parsed JSON value and the deserialized extension on. The second merge is the
  one that the code expects to succeed.
\<close>

definition ps_extend_ontology :: "('d, 't, 'v, 'sk, 'pk) platform \<Rightarrow> u64 \<Rightarrow> ('d, 'sk, 'pk, 'cb) py_store \<Rightarrow> json option \<Rightarrow>
    ontology_extension option \<Rightarrow> (('d, 'sk, 'pk, 'cb) py_store \<times> (py_error, hash) result) option" where
  "ps_extend_ontology P wall s parsed extension =
     (case check_extension_keys parsed of Inl err \<Rightarrow> Some (s, Inl (ExtensionKeys err))
      | Inr _ \<Rightarrow>
        (case extension of None \<Rightarrow> Some (s, Inl ExtensionInvalid)
         | Some ext \<Rightarrow>
           (case merge_extension (ps_ontology s) ext of
              (_, Inl err) \<Rightarrow> Some (s, Inl (ExtensionRejected err))
            | (test_ontology, Inr _) \<Rightarrow>
              (case validate_self test_ontology of Inl err \<Rightarrow> Some (s, Inl (Rejected err))
               | Inr _ \<Rightarrow>
                 (case ps_append P wall s (ExtendOntology ext) of
                    (s1, Inl err) \<Rightarrow> Some (s1, Inl err)
                  | (s1, Inr h) \<Rightarrow>
                    (case merge_extension (ps_ontology s1) ext of
                       (_, Inl _) \<Rightarrow> None
                     | (ont, Inr _) \<Rightarrow>
                       (case ps_revalidate P (s1\<lparr>ps_ontology := ont\<rparr>) of None \<Rightarrow> None
                        | Some (s2, _) \<Rightarrow> Some (s2, Inr h))))))))"

section \<open>Merging a peer's entries\<close>

definition MAX_CLOCK_DRIFT :: u64 where
  "MAX_CLOCK_DRIFT = 1000000"

definition is_define_ontology :: "graph_op \<Rightarrow> bool" where
  "is_define_ontology op = (case op of DefineOntology _ \<Rightarrow> True | _ \<Rightarrow> False)"

text \<open>The signature block of the filter.\<close>

definition signature_admissible :: "('d, 't, 'v, 'sk, 'pk) platform \<Rightarrow> ('d, 'sk, 'pk, 'cb) py_store \<Rightarrow> entry \<Rightarrow> bool" where
  "signature_admissible P s e =
     (if ps_require_signatures s \<and> \<not> is_define_ontology (en_payload e) then
        (if \<not> is_signed e then False
         else case hm_get (ps_key_registry s) (en_author e) of
           Some vk \<Rightarrow> verify_signature (pf_verify P) e vk
         | None \<Rightarrow> False)
      else if is_signed e then
        (case hm_get (ps_key_registry s) (en_author e) of
           Some vk \<Rightarrow> verify_signature (pf_verify P) e vk
         | None \<Rightarrow> True)
      else True)"

definition admissible :: "('d, 't, 'v, 'sk, 'pk) platform \<Rightarrow> ('d, 'sk, 'pk, 'cb) py_store \<Rightarrow> entry \<Rightarrow> bool" where
  "admissible P s e =
     (if is_checkpoint (en_payload e) \<and> en_author e \<noteq> ps_instance_id s \<and> \<not> ol_len (ps_oplog s) \<le> 1 then False
      else if \<not> is_define_ontology (en_payload e) \<and>
        clk_physical (en_clock e) > saturating_add (clk_physical (ps_clock s)) MAX_CLOCK_DRIFT then False
      else signature_admissible P s e)"

fun backend_merge :: "('d, 't, 'v, 'sk, 'pk) platform \<Rightarrow> 'd backend \<Rightarrow> entry list \<Rightarrow> 'd backend \<times> (backend_error, nat) result" where
  "backend_merge P (Memory log) es =
     (case merge_entries (env_hash (pf_env P)) log es of (log', r) \<Rightarrow> (Memory log', map_sum MergeError id r))"
| "backend_merge P (Persistent st) es =
     (case store_merge (env_hash (pf_env P)) (pf_redb P) (pf_codec P) st es of (st', r) \<Rightarrow> (Persistent st', map_sum StoreError id r))"

definition is_schema_change :: "graph_op \<Rightarrow> bool" where
  "is_schema_change op = (case op of ExtendOntology _ \<Rightarrow> True | Checkpoint _ _ _ _ \<Rightarrow> True | _ \<Rightarrow> False)"

text \<open>The map from node ids to types follows the operations by name, also where the graph does not.\<close>

definition track_node_type :: "graph_op \<Rightarrow> (string, string) hash_map \<Rightarrow> (string, string) hash_map" where
  "track_node_type op m =
     (case op of AddNode node_id node_type _ _ _ \<Rightarrow> hm_insert node_id node_type m
      | RemoveNode node_id \<Rightarrow> hm_remove node_id m | _ \<Rightarrow> m)"

definition apply_merged :: "('d, 't, 'v, 'sk, 'pk) platform \<Rightarrow> entry \<Rightarrow> ('d, 'sk, 'pk, 'cb) py_store \<Rightarrow> ('d, 'sk, 'pk, 'cb) py_store" where
  "apply_merged P e s =
     s\<lparr>ps_graph := graph_apply (pf_env P) (ps_graph s) e, ps_node_types := track_node_type (en_payload e) (ps_node_types s)\<rparr>"

text \<open>The closing loop reads the wall clock once per entry.\<close>

fun announce_merged :: "(nat \<Rightarrow> u64) \<Rightarrow> entry list \<Rightarrow> ('d, 'sk, 'pk, 'cb) py_store \<Rightarrow> ('d, 'sk, 'pk, 'cb) py_store" where
  "announce_merged walls [] s = s"
| "announce_merged walls (e # es) s =
     announce_merged (\<lambda>i. walls (Suc i)) es
       (notify_subscribers (s\<lparr>ps_clock := clock_merge (walls 0) (ps_clock s) (en_clock e)\<rparr>) e False)"

definition merge_entries_vec :: "('d, 't, 'v, 'sk, 'pk) platform \<Rightarrow> (nat \<Rightarrow> u64) \<Rightarrow> ('d, 'sk, 'pk, 'cb) py_store \<Rightarrow> entry list \<Rightarrow>
    (('d, 'sk, 'pk, 'cb) py_store \<times> (py_error, nat) result) option" where
  "merge_entries_vec P walls s entries =
     (let valid_entries = filter (admissible P s) entries;
          candidate_hashes = remdups (map en_hash valid_entries) in
      case backend_merge P (ps_backend s) valid_entries of
        (b, Inl err) \<Rightarrow> Some (s\<lparr>ps_backend := b\<rparr>, Inl (BackendFailed err))
      | (b, Inr inserted) \<Rightarrow>
          (let s1 = s\<lparr>ps_backend := b\<rparr> in
           if inserted = 0 then Some (s1, Inr inserted)
           else case entries_since (ps_oplog s1) None of None \<Rightarrow> None
           | Some all \<Rightarrow>
             (case (if list_ex (\<lambda>e. en_hash e \<in> set candidate_hashes \<and> is_schema_change (en_payload e)) valid_entries
                    then map_option fst (ps_revalidate P s1)
                    else Some (fold (apply_merged P) (filter (\<lambda>e. en_hash e \<in> set candidate_hashes) all) s1)) of
                None \<Rightarrow> None
              | Some s2 \<Rightarrow>
                (let s3 = announce_merged walls (filter (\<lambda>e. en_hash e \<in> set candidate_hashes) all) s2
                 in Some (s3\<lparr>ps_bell := bell_notify (ps_bell s3)\<rparr>, Inr inserted)))))"

definition merge_sync_payload :: "('d, 't, 'v, 'sk, 'pk) platform \<Rightarrow> (nat \<Rightarrow> u64) \<Rightarrow> ('d, 'sk, 'pk, 'cb) py_store \<Rightarrow> nat \<Rightarrow>
    sync_payload option \<Rightarrow> (('d, 'sk, 'pk, 'cb) py_store \<times> (py_error, nat) result) option" where
  "merge_sync_payload P walls s len decoded =
     (case payload_from_bytes len decoded of Inl err \<Rightarrow> Some (s, Inl (Undecoded err))
      | Inr payload \<Rightarrow> merge_entries_vec P walls s (sp_entries payload))"

definition merge_entries_bytes :: "('d, 't, 'v, 'sk, 'pk) platform \<Rightarrow> (nat \<Rightarrow> u64) \<Rightarrow> ('d, 'sk, 'pk, 'cb) py_store \<Rightarrow>
    entry list option \<Rightarrow> (('d, 'sk, 'pk, 'cb) py_store \<times> (py_error, nat) result) option" where
  "merge_entries_bytes P walls s decoded =
     (case decoded of None \<Rightarrow> Some (s, Inl EntriesUndecodable) | Some entries \<Rightarrow> merge_entries_vec P walls s entries)"

definition generate_sync_offer :: "(nat \<Rightarrow> u64 \<times> u32) \<Rightarrow> ('d, 'sk, 'pk, 'cb) py_store \<Rightarrow> sync_offer option" where
  "generate_sync_offer dims s = offer_from_oplog dims (ps_oplog s) (clk_physical (ps_clock s)) (clk_logical (ps_clock s))"

definition receive_sync_offer :: "('d, 'sk, 'pk, 'cb) py_store \<Rightarrow> nat \<Rightarrow> sync_offer option \<Rightarrow> (py_error, sync_payload) result option" where
  "receive_sync_offer s len decoded =
     (case offer_from_bytes len decoded of Inl err \<Rightarrow> Some (Inl (Undecoded err))
      | Inr offer \<Rightarrow> map_option Inr (entries_missing (ps_oplog s) offer))"

section \<open>Subscribers, peers and keys\<close>

definition ps_subscribe :: "('d, 'sk, 'pk, 'cb) py_store \<Rightarrow> 'cb \<Rightarrow> ('d, 'sk, 'pk, 'cb) py_store \<times> u64" where
  "ps_subscribe s callback =
     (s\<lparr>ps_next_sub_id := ps_next_sub_id s + 1, ps_subscribers := ps_subscribers s @ [(ps_next_sub_id s, callback)]\<rparr>, ps_next_sub_id s)"

definition ps_unsubscribe :: "('d, 'sk, 'pk, 'cb) py_store \<Rightarrow> u64 \<Rightarrow> ('d, 'sk, 'pk, 'cb) py_store" where
  "ps_unsubscribe s sub_id = s\<lparr>ps_subscribers := filter (\<lambda>(i, _). i \<noteq> sub_id) (ps_subscribers s)\<rparr>"

definition ps_subscribe_from :: "hex_codec \<Rightarrow> string list \<Rightarrow> (py_error, tail_subscription) result" where
  "ps_subscribe_from X cursor = map_sum ConvertFailed subscription_new (parse_cursor X cursor)"

definition register_subscriber_cursor :: "hex_codec \<Rightarrow> ('d, 'sk, 'pk, 'cb) py_store \<Rightarrow> string list \<Rightarrow>
    ('d, 'sk, 'pk, 'cb) py_store \<times> (py_error, unit) result" where
  "register_subscriber_cursor X s cursor =
     (case parse_cursor X cursor of Inl err \<Rightarrow> (s, Inl (ConvertFailed err))
      | Inr parsed \<Rightarrow> (if parsed \<in> set (ps_cursors s) then s else s\<lparr>ps_cursors := ps_cursors s @ [parsed]\<rparr>, Inr ()))"

definition unregister_subscriber_cursor :: "hex_codec \<Rightarrow> ('d, 'sk, 'pk, 'cb) py_store \<Rightarrow> string list \<Rightarrow>
    ('d, 'sk, 'pk, 'cb) py_store \<times> (py_error, unit) result" where
  "unregister_subscriber_cursor X s cursor =
     (case parse_cursor X cursor of Inl err \<Rightarrow> (s, Inl (ConvertFailed err))
      | Inr parsed \<Rightarrow> (s\<lparr>ps_cursors := filter (\<lambda>c. c \<noteq> parsed) (ps_cursors s)\<rparr>, Inr ()))"

text \<open>\<^verbatim>\<open>generate_signing_key\<close> draws a key from the operating system: \<open>bytes\<close> are the drawn ones.\<close>

definition ps_generate_signing_key :: "('d, 't, 'v, 'sk, 'pk) platform \<Rightarrow> hex_codec \<Rightarrow> u8 list \<Rightarrow> ('d, 'sk, 'pk, 'cb) py_store \<Rightarrow>
    ('d, 'sk, 'pk, 'cb) py_store \<times> string" where
  "ps_generate_signing_key P X bytes s =
     (let key = pf_signing_key_of P bytes in (s\<lparr>ps_signing_key := Some key\<rparr>, hx_encode X (pf_public_key P key)))"

definition ps_set_signing_key :: "('d, 't, 'v, 'sk, 'pk) platform \<Rightarrow> hex_codec \<Rightarrow> ('d, 'sk, 'pk, 'cb) py_store \<Rightarrow> string \<Rightarrow>
    ('d, 'sk, 'pk, 'cb) py_store \<times> (py_error, unit) result" where
  "ps_set_signing_key P X s hex_private_key =
     (case hx_decode X hex_private_key of None \<Rightarrow> (s, Inl (ConvertFailed InvalidHex))
      | Some bytes \<Rightarrow> if length bytes \<noteq> 32 then (s, Inl (ConvertFailed (HashLength (length bytes))))
          else (s\<lparr>ps_signing_key := Some (pf_signing_key_of P bytes)\<rparr>, Inr ()))"

definition ps_get_public_key :: "('d, 't, 'v, 'sk, 'pk) platform \<Rightarrow> hex_codec \<Rightarrow> ('d, 'sk, 'pk, 'cb) py_store \<Rightarrow> string option" where
  "ps_get_public_key P X s = map_option (\<lambda>k. hx_encode X (pf_public_key P k)) (ps_signing_key s)"

definition register_trusted_author :: "('d, 't, 'v, 'sk, 'pk) platform \<Rightarrow> hex_codec \<Rightarrow> ('d, 'sk, 'pk, 'cb) py_store \<Rightarrow> string \<Rightarrow> string \<Rightarrow>
    ('d, 'sk, 'pk, 'cb) py_store \<times> (py_error, unit) result" where
  "register_trusted_author P X s author_id hex_public_key =
     (case hx_decode X hex_public_key of None \<Rightarrow> (s, Inl (ConvertFailed InvalidHex))
      | Some bytes \<Rightarrow> if length bytes \<noteq> 32 then (s, Inl (ConvertFailed (HashLength (length bytes))))
          else (case pf_verifying_key_of P bytes of None \<Rightarrow> (s, Inl KeyInvalid)
            | Some vk \<Rightarrow> (s\<lparr>ps_key_registry := hm_insert author_id vk (ps_key_registry s)\<rparr>, Inr ())))"

definition set_require_signatures :: "('d, 'sk, 'pk, 'cb) py_store \<Rightarrow> bool \<Rightarrow> ('d, 'sk, 'pk, 'cb) py_store" where
  "set_require_signatures s enabled = s\<lparr>ps_require_signatures := enabled\<rparr>"

section \<open>Reading\<close>

text \<open>\<^verbatim>\<open>get_node\<close> and \<^verbatim>\<open>get_edge\<close> unwrap the conversion: \<open>None\<close> is that panic.\<close>

definition ps_get_node :: "('d, 'sk, 'pk, 'cb) py_store \<Rightarrow> string \<Rightarrow> py_object option option" where
  "ps_get_node s node_id =
     (case get_node (ps_graph s) node_id of None \<Rightarrow> Some None
      | Some n \<Rightarrow> (case node_to_pydict n of Inl _ \<Rightarrow> None | Inr d \<Rightarrow> Some (Some d)))"

definition ps_get_edge :: "('d, 'sk, 'pk, 'cb) py_store \<Rightarrow> string \<Rightarrow> py_object option option" where
  "ps_get_edge s edge_id =
     (case get_edge (ps_graph s) edge_id of None \<Rightarrow> Some None
      | Some e \<Rightarrow> (case edge_to_pydict e of Inl _ \<Rightarrow> None | Inr d \<Rightarrow> Some (Some d)))"

end
