(* ===== verification/Silk_Lifecycle.thy ===== *)
theory Silk_Lifecycle
  imports Silk_Facade
begin


text \<open>
  The life of a \<^verbatim>\<open>PyGraphStore\<close> (\<^verbatim>\<open>src/src/python/mod.rs\<close>): creating and opening it, bootstrapping from a
  snapshot, looking at the past, selective sync, and epoch compaction. The operations only; their
  guarantees are in \<^verbatim>\<open>Silk_Session\<close>, \<^verbatim>\<open>Silk_Merge\<close> and \<^verbatim>\<open>Silk_Compaction\<close>.
\<close>

section \<open>Creating and opening\<close>

text \<open>
  The replay of the payloads into the map of node types, as \<^verbatim>\<open>new\<close>, \<^verbatim>\<open>open\<close> and \<^verbatim>\<open>from_snapshot\<close> have it: by name
  again, also for entries that the graph quarantines.
\<close>

definition replay_node_type :: "entry \<Rightarrow> (string, string) hash_map \<Rightarrow> (string, string) hash_map" where
  "replay_node_type e m =
     (case en_payload e of
        Checkpoint ops _ _ _ \<Rightarrow>
          fold (\<lambda>op m. case op of AddNode node_id node_type _ _ _ \<Rightarrow> hm_insert node_id node_type m | _ \<Rightarrow> m) ops m
      | op \<Rightarrow> track_node_type op m)"

definition replay_node_types :: "entry list \<Rightarrow> (string, string) hash_map" where
  "replay_node_types all = fold replay_node_type all []"

definition fresh_store :: "'d backend \<Rightarrow> graph \<Rightarrow> (string, string) hash_map \<Rightarrow> string \<Rightarrow> hybrid_clock \<Rightarrow> ontology \<Rightarrow>
    ('d, 'sk, 'pk, 'cb) py_store" where
  "fresh_store b g node_types instance_id clock ont =
     \<lparr>ps_backend = b, ps_graph = g, ps_node_types = node_types, ps_instance_id = instance_id, ps_clock = clock, ps_ontology = ont,
      ps_subscribers = [], ps_next_sub_id = 0, ps_signing_key = None, ps_key_registry = [], ps_require_signatures = False,
      ps_gossip = with_instance_id instance_id, ps_bell = bell_new, ps_cursors = [], ps_calls = []\<rparr>"

text \<open>
  \<^verbatim>\<open>new\<close>: \<open>ontology\<close> is the parsed argument and \<open>created\<close> the opened database file, if there is a path. The wall clock
  is read by \<^verbatim>\<open>LamportClock::new\<close>, by the first tick and once per existing entry.
\<close>

fun merge_clocks :: "(nat \<Rightarrow> u64) \<Rightarrow> entry list \<Rightarrow> hybrid_clock \<Rightarrow> hybrid_clock" where
  "merge_clocks walls [] c = c"
| "merge_clocks walls (e # es) c = merge_clocks (\<lambda>i. walls (Suc i)) es (clock_merge (walls 0) c (en_clock e))"

definition ps_new :: "('d, 't, 'v, 'sk, 'pk) platform \<Rightarrow> (nat \<Rightarrow> u64) \<Rightarrow> string \<Rightarrow> ontology option \<Rightarrow> (string, 'd) result option \<Rightarrow>
    (py_error, ('d, 'sk, 'pk, 'cb) py_store) result option" where
  "ps_new P walls instance_id ontology created =
     (case ontology of None \<Rightarrow> Some (Inl OntologyInvalid)
      | Some ont \<Rightarrow>
        (case validate_self ont of Inl err \<Rightarrow> Some (Inl (Rejected err))
         | Inr _ \<Rightarrow>
           (let clock = tick (walls 1) (clock_new (walls 0) instance_id);
                genesis = entry_new (env_hash (pf_env P)) (DefineOntology ont) [] [] clock instance_id in
            case created of
              None \<Rightarrow> Some (Inr (fresh_store (Memory (oplog_new genesis)) (graph_new ont) [] instance_id clock ont))
            | Some db \<Rightarrow>
              (case store_open (env_hash (pf_env P)) (pf_redb P) (pf_codec P) db (Some genesis) of
                 None \<Rightarrow> None
               | Some (Inl err) \<Rightarrow> Some (Inl (BackendFailed (StoreError err)))
               | Some (Inr st) \<Rightarrow>
                 (case entries_since (st_oplog st) None of None \<Rightarrow> None
                  | Some all \<Rightarrow>
                    (let g = rebuild (pf_env P) (graph_new ont) all
                     in Some (Inr (fresh_store (Persistent st) g (replay_node_types all) instance_id
                          (merge_clocks (\<lambda>i. walls (i + 2)) all clock) (gr_ontology g)))))))))"

definition ps_open :: "('d, 't, 'v, 'sk, 'pk) platform \<Rightarrow> (string, 'd) result \<Rightarrow>
    (py_error, ('d, 'sk, 'pk, 'cb) py_store) result option" where
  "ps_open P created =
     (case store_open (env_hash (pf_env P)) (pf_redb P) (pf_codec P) created None of
        None \<Rightarrow> None
      | Some (Inl err) \<Rightarrow> Some (Inl (BackendFailed (StoreError err)))
      | Some (Inr st) \<Rightarrow>
        (case entries_since (st_oplog st) None of None \<Rightarrow> None
         | Some [] \<Rightarrow> Some (Inl EmptyStore)
         | Some (genesis # rest) \<Rightarrow>
           (case extract_ontology_from_genesis genesis of Inl err \<Rightarrow> Some (Inl (GenesisFailed err))
            | Inr ont \<Rightarrow>
              (let g = rebuild (pf_env P) (graph_new ont) (genesis # rest)
               in Some (Inr (fresh_store (Persistent st) g (replay_node_types (genesis # rest)) (en_author genesis)
                    (en_clock genesis) (gr_ontology g)))))))"

section \<open>Snapshots and time travel\<close>

definition ps_snapshot :: "('d, 'sk, 'pk, 'cb) py_store \<Rightarrow> snapshot option" where
  "ps_snapshot s = snapshot_from_oplog (ps_oplog s)"

text \<open>The clock of a bootstrapped store: the greatest physical time, and the greatest counter there.\<close>

definition max_or_zero :: "'a::{linorder, zero} list \<Rightarrow> 'a" where
  "max_or_zero xs = (case xs of [] \<Rightarrow> 0 | x # rest \<Rightarrow> fold max rest x)"

definition ps_from_snapshot :: "('d, 't, 'v, 'sk, 'pk) platform \<Rightarrow> string \<Rightarrow> nat \<Rightarrow> snapshot option \<Rightarrow>
    (py_error, ('d, 'sk, 'pk, 'cb) py_store) result option" where
  "ps_from_snapshot P instance_id len decoded =
     (case snapshot_from_bytes len decoded of Inl err \<Rightarrow> Some (Inl (Undecoded err))
      | Inr snap \<Rightarrow>
        (case sn_entries snap of [] \<Rightarrow> Some (Inl EmptySnapshot)
         | genesis # rest \<Rightarrow>
           (case extract_ontology_from_genesis genesis of Inl err \<Rightarrow> Some (Inl (GenesisFailed err))
            | Inr ont \<Rightarrow>
              (case (if rest = [] then (oplog_new genesis, Inr 0) else merge_entries (env_hash (pf_env P)) (oplog_new genesis) rest) of
                 (_, Inl err) \<Rightarrow> Some (Inl (BackendFailed (MergeError err)))
               | (log, Inr _) \<Rightarrow>
                 (case entries_since log None of None \<Rightarrow> None
                  | Some all \<Rightarrow>
                    (let g = rebuild (pf_env P) (graph_new ont) all;
                         max_physical = max_or_zero (map (\<lambda>e. clk_physical (en_clock e)) all);
                         max_logical = max_or_zero (map (\<lambda>e. clk_logical (en_clock e))
                           (filter (\<lambda>e. clk_physical (en_clock e) = max_physical) all))
                     in Some (Inr (fresh_store (Memory log) g (replay_node_types all) instance_id
                          (with_values instance_id max_physical max_logical) (gr_ontology g))))))))) "

record graph_snapshot =
  gs_graph :: graph
  gs_cutoff_clock :: "u64 \<times> u32"
  gs_instance_id :: string

text \<open>The ontology within the time window: extensions that fail keep what they changed before failing.\<close>

definition window_ontology :: "entry \<Rightarrow> ontology option \<Rightarrow> ontology option" where
  "window_ontology e ont =
     (case en_payload e of
        DefineOntology o' \<Rightarrow> Some o'
      | Checkpoint ops _ _ _ \<Rightarrow> (case first_ontology ops of Some o' \<Rightarrow> Some o' | None \<Rightarrow> ont)
      | ExtendOntology ext \<Rightarrow> map_option (\<lambda>o'. fst (merge_extension o' ext)) ont
      | _ \<Rightarrow> ont)"

definition ps_as_of :: "('d, 't, 'v, 'sk, 'pk) platform \<Rightarrow> ('d, 'sk, 'pk, 'cb) py_store \<Rightarrow> u64 \<Rightarrow> u32 \<Rightarrow>
    (py_error, graph_snapshot) result option" where
  "ps_as_of P s physical_ms logical =
     (case entries_as_of (ps_oplog s) physical_ms logical of None \<Rightarrow> None
      | Some entries \<Rightarrow>
        (case (case fold window_ontology entries None of
                 Some ont \<Rightarrow> Some (Inr ont)
               | None \<Rightarrow>
                 (case entries_since (ps_oplog s) None of None \<Rightarrow> None
                  | Some [] \<Rightarrow> Some (Inl EmptyStore)
                  | Some (genesis # _) \<Rightarrow> Some (map_sum GenesisFailed id (extract_ontology_from_genesis genesis)))) of
           None \<Rightarrow> None
         | Some (Inl err) \<Rightarrow> Some (Inl err)
         | Some (Inr ont) \<Rightarrow>
             Some (Inr \<lparr>gs_graph = rebuild (pf_env P) (graph_new ont) entries, gs_cutoff_clock = (physical_ms, logical),
               gs_instance_id = ps_instance_id s\<rparr>)))"

section \<open>Selective sync\<close>

definition wanted_nodes :: "string list \<Rightarrow> entry list \<Rightarrow> string list" where
  "wanted_nodes type_set es =
     fold (\<lambda>e ids. case en_payload e of
        AddNode node_id node_type _ _ _ \<Rightarrow> if node_type \<in> set type_set then hs_insert node_id ids else ids
      | _ \<Rightarrow> ids) es []"

definition filtered_out :: "string list \<Rightarrow> string list \<Rightarrow> graph_op \<Rightarrow> bool" where
  "filtered_out type_set wanted op =
     (case op of
        AddNode _ node_type _ _ _ \<Rightarrow> node_type \<notin> set type_set
      | AddEdge _ _ source_id target_id _ \<Rightarrow> source_id \<notin> set wanted \<and> target_id \<notin> set wanted
      | UpdateProperty entity_id _ _ \<Rightarrow> entity_id \<notin> set wanted
      | RemoveNode entity_id \<Rightarrow> entity_id \<notin> set wanted
      | _ \<Rightarrow> False)"

text \<open>The ancestor closure within the payload.\<close>

fun keep_parents :: "hash list \<Rightarrow> hash list \<Rightarrow> hash list \<Rightarrow> hash list \<times> hash list" where
  "keep_parents [] keep queue = (keep, queue)"
| "keep_parents (p # ps) keep queue =
     (if p \<notin> set keep then keep_parents ps (keep @ [p]) (queue @ [p]) else keep_parents ps keep queue)"

lemma keep_parents_spec:
  assumes "keep_parents ps keep queue = (keep', queue')"
  shows "\<exists>new. keep' = keep @ new \<and> queue' = queue @ new \<and> distinct new \<and> set new = set ps - set keep"
  using assms
proof (induction ps keep queue arbitrary: keep' queue' rule: keep_parents.induct)
  case (2 p ps keep queue)
  show ?case
  proof (cases "p \<in> set keep")
    case False
    then obtain new where "keep' = (keep @ [p]) @ new" "queue' = (queue @ [p]) @ new" "distinct new" "set new = set ps - set (keep @ [p])"
      using 2 by auto
    with False show ?thesis by (intro exI [of _ "p # new"]) auto
  qed (use 2 in auto)
qed auto

function keep_closure :: "(hash, entry) hash_map \<Rightarrow> hash list \<Rightarrow> hash list \<Rightarrow> hash list" where
  "keep_closure entry_map keep [] = keep"
| "keep_closure entry_map keep (h # queue) =
     (case hm_get entry_map h of None \<Rightarrow> keep_closure entry_map keep queue
      | Some e \<Rightarrow> (let (keep', queue') = keep_parents (en_next e) keep queue in keep_closure entry_map keep' queue'))"
  by pat_completeness auto

termination keep_closure
proof (relation "measure (\<lambda>(m, keep, q). card (UNIV - set keep :: hash set) + length q)", goal_cases)
  case (3 m keep h queue e kq keep' queue')
  then have "keep_parents (en_next e) keep queue = (keep', queue')" by simp
  from keep_parents_spec [OF this] obtain new where new: "keep' = keep @ new" "queue' = queue @ new" "distinct new"
    "set new = set (en_next e) - set keep" by blast
  then have "card (UNIV - set keep') + length new = card (UNIV - set keep)" using card_unvisited by (metis Diff_disjoint inf_commute)
  with new(2) show ?case by simp
qed auto

definition receive_filtered_sync_offer :: "('d, 'sk, 'pk, 'cb) py_store \<Rightarrow> nat \<Rightarrow> sync_offer option \<Rightarrow> string list \<Rightarrow>
    (py_error, sync_payload) result option" where
  "receive_filtered_sync_offer s len decoded node_types =
     (case offer_from_bytes len decoded of Inl err \<Rightarrow> Some (Inl (Undecoded err))
      | Inr offer \<Rightarrow>
        (case entries_missing (ps_oplog s) offer of None \<Rightarrow> None
         | Some full \<Rightarrow>
           (let type_set = remdups node_types;
                wanted = wanted_nodes type_set (sp_entries full);
                keep = remdups (map en_hash (filter (\<lambda>e. \<not> filtered_out type_set wanted (en_payload e)) (sp_entries full)));
                entry_map = fold (\<lambda>e. hm_insert (en_hash e) e) (sp_entries full) [];
                closed = keep_closure entry_map keep keep
            in Some (Inr \<lparr>sp_entries = filter (\<lambda>e. en_hash e \<in> set closed) (sp_entries full), sp_need = sp_need full\<rparr>))))"

section \<open>Compaction\<close>

definition prop_clock :: "(string, hybrid_clock) hash_map \<Rightarrow> hybrid_clock \<Rightarrow> string \<Rightarrow> hybrid_clock" where
  "prop_clock clocks last_clock k = (case hm_get clocks k of Some c \<Rightarrow> c | None \<Rightarrow> last_clock)"

definition node_checkpoint_ops :: "node \<Rightarrow> (graph_op \<times> hybrid_clock) list" where
  "node_checkpoint_ops n =
     (AddNode (n_id n) (n_type n) (n_subtype n) (n_label n) [], n_last_add_clock n) #
     map (\<lambda>(k, v). (UpdateProperty (n_id n) k v, prop_clock (n_property_clocks n) (n_last_clock n) k)) (n_properties n)"

definition edge_checkpoint_ops :: "edge \<Rightarrow> (graph_op \<times> hybrid_clock) list" where
  "edge_checkpoint_ops e =
     (AddEdge (e_id e) (e_type e) (e_source e) (e_target e) [], e_last_add_clock e) #
     map (\<lambda>(k, v). (UpdateProperty (e_id e) k v, prop_clock (e_property_clocks e) (e_last_clock e) k)) (e_properties e)"

definition build_checkpoint_ops :: "('d, 'sk, 'pk, 'cb) py_store \<Rightarrow> graph_op list \<times> hybrid_clock list" where
  "build_checkpoint_ops s =
     (let items = (DefineOntology (ps_ontology s), ps_clock s) #
        concat (map node_checkpoint_ops (all_nodes (ps_graph s))) @ concat (map edge_checkpoint_ops (all_edges (ps_graph s)))
      in (map fst items, map snd items))"

definition checkpoint_entry :: "('d, 't, 'v, 'sk, 'pk) platform \<Rightarrow> ('d, 'sk, 'pk, 'cb) py_store \<Rightarrow> graph_op list \<Rightarrow> hybrid_clock list \<Rightarrow> entry" where
  "checkpoint_entry P s ops clocks =
     create_entry P s (Checkpoint ops (map as_tuple clocks) (fst (as_tuple (ps_clock s))) (snd (as_tuple (ps_clock s))))
       [] [] (ps_clock s) (ps_instance_id s)"

definition create_checkpoint :: "('d, 't, 'v, 'sk, 'pk) platform \<Rightarrow> ('d, 'sk, 'pk, 'cb) py_store \<Rightarrow> entry" where
  "create_checkpoint P s = (case build_checkpoint_ops s of (ops, clocks) \<Rightarrow> checkpoint_entry P s ops clocks)"

text \<open>The registered cursors that are not caught up, with their positions.\<close>

fun cursor_reasons :: "oplog \<Rightarrow> nat \<Rightarrow> hash list list \<Rightarrow> unsafe_reason list option" where
  "cursor_reasons log idx [] = Some []"
| "cursor_reasons log idx (c # cs) =
     (case entries_since_heads log c of
        Inr None \<Rightarrow> None
      | Inr (Some delta) \<Rightarrow>
          map_option (\<lambda>rs. if delta = [] then rs else CursorBehind idx # rs) (cursor_reasons log (idx + 1) cs)
      | Inl _ \<Rightarrow> map_option (\<lambda>rs. CursorUnknown idx # rs) (cursor_reasons log (idx + 1) cs))"

definition ps_verify_compaction_safe :: "('d, 'sk, 'pk, 'cb) py_store \<Rightarrow> (bool \<times> unsafe_reason list) option" where
  "ps_verify_compaction_safe s =
     (case entries_since (ps_oplog s) None of None \<Rightarrow> None
      | Some all \<Rightarrow>
        (let latest_ms = max_or_zero (map (\<lambda>e. clk_physical (en_clock e)) all);
             (peer_safe, reasons) = verify_compaction_safe (ps_gossip s) latest_ms in
         case cursor_reasons (ps_oplog s) 0 (ps_cursors s) of None \<Rightarrow> None
         | Some behind \<Rightarrow> Some (peer_safe \<and> behind = [], map PeerUnsafe reasons @ behind)))"

definition ps_set_flush_mode :: "('d, 'sk, 'pk, 'cb) py_store \<Rightarrow> string \<Rightarrow> ('d, 'sk, 'pk, 'cb) py_store \<times> (py_error, unit) result" where
  "ps_set_flush_mode s mode =
     (case (if mode = ''immediate'' then Some Immediate else if mode = ''deferred'' then Some Deferred else None) of
        None \<Rightarrow> (s, Inl FlushModeInvalid)
      | Some m \<Rightarrow>
        ((case ps_backend s of Persistent st \<Rightarrow> s\<lparr>ps_backend := Persistent (set_flush_mode st m)\<rparr> | Memory _ \<Rightarrow> s), Inr ()))"

definition ps_flush :: "('d, 't, 'v, 'sk, 'pk) platform \<Rightarrow> ('d, 'sk, 'pk, 'cb) py_store \<Rightarrow>
    ('d, 'sk, 'pk, 'cb) py_store \<times> (py_error, nat) result" where
  "ps_flush P s =
     (case ps_backend s of
        Memory _ \<Rightarrow> (s, Inr 0)
      | Persistent st \<Rightarrow>
        (case store_flush (pf_redb P) (pf_codec P) st of
           (st', r) \<Rightarrow> (s\<lparr>ps_backend := Persistent st'\<rparr>, map_sum (\<lambda>e. BackendFailed (StoreError e)) id r)))"

definition ps_pending_flush_count :: "('d, 'sk, 'pk, 'cb) py_store \<Rightarrow> nat" where
  "ps_pending_flush_count s = (case ps_backend s of Persistent st \<Rightarrow> pending_count st | Memory _ \<Rightarrow> 0)"

fun backend_replace :: "('d, 't, 'v, 'sk, 'pk) platform \<Rightarrow> 'd backend \<Rightarrow> entry \<Rightarrow> 'd backend \<times> (backend_error, unit) result" where
  "backend_replace P (Memory log) checkpoint = (Memory (oplog_replace_with_checkpoint checkpoint), Inr ())"
| "backend_replace P (Persistent st) checkpoint =
     (case store_replace_with_checkpoint (pf_redb P) (pf_codec P) st checkpoint of
        (st', r) \<Rightarrow> (Persistent st', map_sum StoreError id r))"

text \<open>The quarantined entries that are carried across, re-created below the checkpoint.\<close>

definition carried_entries :: "('d, 'sk, 'pk, 'cb) py_store \<Rightarrow> (graph_op \<times> hybrid_clock \<times> string) list" where
  "carried_entries s =
     map (\<lambda>e. (en_payload e, en_clock e, en_author e))
       (List.map_filter (oplog_get (ps_oplog s)) (map fst (gr_quarantined (ps_graph s))))"

fun reappend :: "('d, 't, 'v, 'sk, 'pk) platform \<Rightarrow> hash \<Rightarrow> (graph_op \<times> hybrid_clock \<times> string) list \<Rightarrow> ('d, 'sk, 'pk, 'cb) py_store \<Rightarrow>
    ('d, 'sk, 'pk, 'cb) py_store \<times> (backend_error, unit) result" where
  "reappend P root [] s = (s, Inr ())"
| "reappend P root ((payload, clock, author) # carried) s =
     (case backend_append P (ps_backend s) (create_entry P s payload [root] [] clock author) of
        (b, Inl err) \<Rightarrow> (s\<lparr>ps_backend := b\<rparr>, Inl err)
      | (b, Inr _) \<Rightarrow> reappend P root carried (s\<lparr>ps_backend := b\<rparr>))"

text \<open>\<open>reclaim\<close> is \<^verbatim>\<open>None\<close> unless \<^verbatim>\<open>reclaim_disk\<close> is set, and then what the database answers to its own compaction.\<close>

definition ps_compact :: "('d, 't, 'v, 'sk, 'pk) platform \<Rightarrow> u64 \<Rightarrow> ('d, 'sk, 'pk, 'cb) py_store \<Rightarrow> bool \<Rightarrow>
    (store_error, unit) result option \<Rightarrow> (('d, 'sk, 'pk, 'cb) py_store \<times> (py_error, hash) result) option" where
  "ps_compact P wall s safe reclaim =
     (case (if safe then ps_verify_compaction_safe s else Some (True, [])) of
        None \<Rightarrow> None
      | Some (False, reasons) \<Rightarrow> Some (s, Inl (UnsafeCompaction reasons))
      | Some (True, _) \<Rightarrow>
        (let carried = carried_entries s;
             (ops, clocks) = build_checkpoint_ops s;
             s1 = s\<lparr>ps_clock := tick wall (ps_clock s)\<rparr>;
             checkpoint = checkpoint_entry P s1 ops clocks in
         case backend_replace P (ps_backend s1) checkpoint of
           (b, Inl err) \<Rightarrow> Some (s1\<lparr>ps_backend := b\<rparr>, Inl (BackendFailed err))
         | (b, Inr _) \<Rightarrow>
           (case reappend P (en_hash checkpoint) carried (s1\<lparr>ps_backend := b\<rparr>) of
              (s2, Inl err) \<Rightarrow> Some (s2, Inl (BackendFailed err))
            | (s2, Inr _) \<Rightarrow>
              (case ps_revalidate P s2 of None \<Rightarrow> None
               | Some (s3, _) \<Rightarrow>
                 (case (ps_backend s3, reclaim) of
                    (Persistent _, Some (Inl err)) \<Rightarrow> Some (s3, Inl (BackendFailed (StoreError err)))
                  | _ \<Rightarrow> Some (s3, Inr (en_hash checkpoint)))))))"

end
