(* ===== verification/Silk_Tip.thy ===== *)
theory Silk_Tip
  imports Silk_Topo
begin


text \<open>
  An entry written on top of all heads, as every local write is (\<^verbatim>\<open>append\<close> of \<^verbatim>\<open>src/python/mod.rs\<close> with \<^verbatim>\<open>OpLog\<close>): the
  listing of the log grows by that entry at its end. Kahn's algorithm runs as before until the last head
  is popped, and only then is the new entry ready.
\<close>

lemma singleton_list: "distinct xs \<Longrightarrow> set xs = {x} \<Longrightarrow> xs = [x]"
proof (cases xs)
  case (Cons y ys)
  then show "distinct xs \<Longrightarrow> set xs = {x} \<Longrightarrow> xs = [x]" by (cases ys) auto
qed simp

lemma topo_loop_prefix: "topo_loop log hs indeg q acc = Some out \<Longrightarrow> \<exists>rest. out = acc @ rest \<and> length q \<le> length rest"
proof (induction "length q + sum_list (map snd indeg)" arbitrary: indeg q acc rule: less_induct)
  case less
  show ?case
  proof (cases q)
    case (Cons x q')
    then obtain e m ready where step: "relax_children hs (child_of log x) indeg [] = Some (m, ready)"
      "topo_loop log hs m (q' @ sort_key (topo_key log) ready) (acc @ [e]) = Some out"
      using less.prems by (auto simp: topo_loop_step split: option.splits)
    then obtain rest where "out = (acc @ [e]) @ rest" "length (q' @ sort_key (topo_key log) ready) \<le> length rest"
      using less.hyps [OF _ step(2)] relax_children_measure [OF step(1)] Cons by auto
    then show ?thesis using Cons by (intro exI [of _ "e # rest"]) auto
  qed (use less.prems in simp)
qed

section \<open>The log with one more entry\<close>

definition on_top :: "content_hash \<Rightarrow> oplog \<Rightarrow> entry \<Rightarrow> bool" where
  "on_top H log e \<longleftrightarrow> verify_hash H e \<and> en_hash e \<notin> hm_keys (ol_entries log) \<and>
     distinct (en_next e) \<and> set (en_next e) = set (ol_heads log) \<and> en_refs e = []"

lemma on_top_facts:
  assumes inv: "oplog_inv H log" and e: "on_top H log e"
  defines "log' \<equiv> insert_entry log e"
  shows "oplog_inv H log'" "hm_keys (ol_entries log') = insert (en_hash e) (hm_keys (ol_entries log))"
    "hm_get (ol_entries log') h = (if h = en_hash e then Some e else hm_get (ol_entries log) h)"
    "causal log' `` {p} = causal log `` {p} \<union> (if p \<in> set (ol_heads log) then {en_hash e} else {})"
    "ol_heads log' = [en_hash e]" "h \<in> hm_keys (ol_entries log) \<Longrightarrow> topo_key log' h = topo_key log h"
proof -
  note D = oplog_invD [OF inv]
  have sub: "set (en_next e) \<subseteq> hm_keys (ol_entries log)" using e D(4) by (auto simp: on_top_def)
  show inv': "oplog_inv H log'" unfolding log'_def using e sub by (intro insert_entry_inv inv) (auto simp: on_top_def)
  show "hm_keys (ol_entries log') = insert (en_hash e) (hm_keys (ol_entries log))"
    by (simp add: log'_def insert_entry_simps dom_update)
  show get: "hm_get (ol_entries log') h = (if h = en_hash e then Some e else hm_get (ol_entries log) h)" for h
    by (simp add: log'_def insert_entry_simps update_conv')
  have "causal log' = causal log \<union> {(p, en_hash e) |p. p \<in> set (en_next e)}"
    using e unfolding log'_def by (intro causal_insert insert_entry_simps(1)) (simp add: on_top_def)
  then show "causal log' `` {p} = causal log `` {p} \<union> (if p \<in> set (ol_heads log) then {en_hash e} else {})"
    using e by (auto simp: on_top_def)
  have "set (ol_heads log') = {en_hash e}" using e by (simp add: log'_def insert_entry_simps on_top_def)
  moreover have "distinct (ol_heads log')" using oplog_invD(5) [OF inv'] .
  ultimately show "ol_heads log' = [en_hash e]"
    by (intro singleton_list)
  have "h \<noteq> en_hash e" if "h \<in> hm_keys (ol_entries log)" using that e unfolding on_top_def by metis
  then show "h \<in> hm_keys (ol_entries log) \<Longrightarrow> topo_key log' h = topo_key log h" by (simp only: topo_key_def get if_False)
qed

text \<open>The children after the insertion: the heads get the new entry, all others stay as they are.\<close>

lemma children_on_top:
  assumes inv: "oplog_inv H log" and e: "on_top H log e"
  defines "log' \<equiv> insert_entry log e"
  shows "x \<in> set (ol_heads log) \<Longrightarrow> child_of log x = [] \<and> child_of log' x = [en_hash e]"
    "x \<notin> set (ol_heads log) \<Longrightarrow> set (child_of log' x) = set (child_of log x)"
    "en_hash e \<notin> set (child_of log x)" "child_of log' (en_hash e) = []"
proof -
  note D = oplog_invD [OF inv] and T = on_top_facts [OF inv e, folded log'_def]
  note D' = oplog_invD [OF T(1)]
  show "set (child_of log' x) = set (child_of log x)" if "x \<notin> set (ol_heads log)" using that D(7) D'(7) T(4) by simp
  show "child_of log x = [] \<and> child_of log' x = [en_hash e]" if x: "x \<in> set (ol_heads log)"
  proof -
    have "set (child_of log x) = {}" using x D(4,7) by auto
    moreover from this have "set (child_of log' x) = {en_hash e}" using x D(7) D'(7) T(4) by simp
    ultimately show ?thesis using singleton_list [OF D'(6)] by simp
  qed
  show "en_hash e \<notin> set (child_of log x)" using D(7) [of x] causal_Range [of log] e by (auto simp: on_top_def)
  have "en_hash e \<notin> Domain (causal log)" "en_hash e \<notin> set (ol_heads log)" using e D(3,4) by (auto simp: on_top_def)
  then have "causal log' `` {en_hash e} = {}" using T(4) [of "en_hash e"] by auto
  then show "child_of log' (en_hash e) = []" using D'(7) [of "en_hash e"] by simp
qed

lemma relax_on_top:
  assumes inv: "oplog_inv H log" and e: "on_top H log e"
    and hs: "set hs = hm_keys (ol_entries log)" "set hs' = insert (en_hash e) (set hs)"
    and x: "x \<notin> set (ol_heads log)" and run: "relax_children hs (child_of log x) indeg [] = Some (m, ready)"
    and indeg: "map_of indeg (en_hash e) = None" "map_of indeg' = (map_of indeg)(en_hash e \<mapsto> k)"
  defines "log' \<equiv> insert_entry log e"
  shows "\<exists>m' ready'. relax_children hs' (child_of log' x) indeg' [] = Some (m', ready') \<and>
    sort_key (topo_key log') ready' = sort_key (topo_key log) ready \<and> map_of m' = (map_of m)(en_hash e \<mapsto> k) \<and> map_of m (en_hash e) = None"
proof -
  let ?cs = "child_of log x" and ?cs' = "child_of log' x"
  note T = on_top_facts [OF inv e, folded log'_def]
  have cs: "distinct ?cs" "distinct ?cs'" using oplog_invD(6) [OF inv] oplog_invD(6) [OF T(1)] by simp_all
  have set_cs: "set ?cs' = set ?cs" "en_hash e \<notin> set ?cs" using children_on_top(2,3) [OF inv e, folded log'_def] x by simp_all
  have nz: "\<forall>c \<in> set ?cs \<inter> set hs. map_of indeg c \<noteq> Some 0"
    using relax_children_None [OF cs(1), of hs indeg "[]"] run by fastforce
  from relax_children_Some [OF cs(1) this, of "[]"] run
  have r: "ready = filter (\<lambda>c. c \<in> set hs \<and> map_of indeg c = Some 1) ?cs" "map_of m = decremented (set ?cs \<inter> set hs) (map_of indeg)" by auto
  have "\<forall>c \<in> set ?cs' \<inter> set hs'. map_of indeg' c \<noteq> Some 0" using nz set_cs hs(2) indeg(2) by auto
  from relax_children_Some [OF cs(2) this, of "[]"] obtain m' where
    r': "relax_children hs' ?cs' indeg' [] = Some (m', filter (\<lambda>c. c \<in> set hs' \<and> map_of indeg' c = Some 1) ?cs')"
    "map_of m' = decremented (set ?cs' \<inter> set hs') (map_of indeg')" by auto
  have "sort_key (topo_key log') (filter (\<lambda>c. c \<in> set hs' \<and> map_of indeg' c = Some 1) ?cs') = sort_key (topo_key log') ready"
    unfolding r using cs set_cs hs(2) indeg(2) by (intro sort_key_cong_set inj_topo_key) auto
  also have "\<dots> = sort_key (topo_key log) ready" using T(6) hs(1) by (intro sort_key_cong_on) (auto simp: r)
  finally have "sort_key (topo_key log') (filter (\<lambda>c. c \<in> set hs' \<and> map_of indeg' c = Some 1) ?cs') = sort_key (topo_key log) ready" .
  moreover have "map_of m' = (map_of m)(en_hash e \<mapsto> k)"
    unfolding r'(2) r(2) using indeg(2) set_cs hs(2) by (auto simp: decremented_def fun_eq_iff)
  moreover have "map_of m (en_hash e) = None" using r(2) set_cs(2) indeg(1) by (simp add: decremented_def)
  ultimately show ?thesis using r'(1) by blast
qed

lemma topo_loop_on_top:
  assumes inv: "oplog_inv H log" and e: "on_top H log e"
    and hs: "set hs = hm_keys (ol_entries log)" "set hs' = insert (en_hash e) (set hs)"
  defines "log' \<equiv> insert_entry log e" and "heads \<equiv> set (ol_heads log)"
  shows "topo_loop log hs indeg q acc = Some (acc @ rest) \<Longrightarrow> rest \<noteq> [] \<Longrightarrow> en_hash (last rest) \<in> heads \<Longrightarrow>
    distinct (map en_hash rest) \<Longrightarrow> map_of indeg (en_hash e) = None \<Longrightarrow>
    map_of indeg' = (map_of indeg)(en_hash e \<mapsto> card (heads \<inter> en_hash ` set rest)) \<Longrightarrow>
    topo_loop log' hs' indeg' q acc = Some (acc @ rest @ [e])"
proof (induction "length q + sum_list (map snd indeg)" arbitrary: indeg indeg' q acc rest rule: less_induct)
  case less
  note T = on_top_facts [OF inv e, folded log'_def] and C = children_on_top [OF inv e, folded log'_def heads_def]
  let ?h = "en_hash e" and ?k = "\<lambda>rest. card (heads \<inter> en_hash ` set rest)"
  show ?case
  proof (cases q)
    case Nil
    then show ?thesis using less.prems(1,2) by simp
  next
    case (Cons x q')
    obtain ex m ready where step: "hm_get (ol_entries log) x = Some ex" "relax_children hs (child_of log x) indeg [] = Some (m, ready)"
      "topo_loop log hs m (q' @ sort_key (topo_key log) ready) (acc @ [ex]) = Some (acc @ rest)"
      using less.prems(1) Cons by (auto simp: topo_loop_step split: option.splits)
    obtain rest' where rest: "rest = ex # rest'" and len: "length q' + length ready \<le> length rest'"
      using topo_loop_prefix [OF step(3)] by auto
    have x: "en_hash ex = x" "x \<noteq> ?h" using oplog_invD(2) [OF inv step(1)] step(1) e by (auto simp: on_top_def hm_get_None_iff [symmetric])
    have get': "hm_get (ol_entries log') x = Some ex" using step(1) x(2) by (simp add: T(3))
    show ?thesis
    proof (cases "x \<in> heads")
      case True
      then have mr: "m = indeg" "ready = []" using step(2) C(1) by auto
      have h: "map_of indeg' ?h = Some (Suc (?k rest'))" using less.prems(4,6) True x(1) rest by (auto simp: card_insert_if)
      let ?m' = "hm_insert ?h (?k rest') indeg'"
      show ?thesis
      proof (cases "rest' = []")
        case last: True
        then show ?thesis using len rest C(1) [OF True] C(4) h get' by (simp add: Cons topo_loop_step hs(2) T(3))
      next
        case False
        then have "heads \<inter> en_hash ` set rest' \<noteq> {}" using less.prems(3) rest by force
        then have step': "topo_loop log' hs' indeg' q acc = topo_loop log' hs' ?m' q' (acc @ [ex])"
          using C(1) [OF True] h get' by (simp add: Cons topo_loop_step hs(2))
        have "map_of ?m' = (map_of indeg)(?h \<mapsto> ?k rest')" using less.prems(6) by (simp add: update_conv' fun_eq_iff)
        then have "topo_loop log' hs' ?m' q' (acc @ [ex]) = Some ((acc @ [ex]) @ rest' @ [e])"
          by (intro less.hyps [of q' indeg]) (use step(3) mr rest False less.prems Cons in auto)
        then show ?thesis using step' rest by simp
      qed
    next
      case False
      have k: "?k rest = ?k rest'" "rest' \<noteq> []" using less.prems(3) rest False x(1) by auto
      from relax_on_top [OF inv e hs _ step(2) less.prems(5,6)] False obtain m' ready' where
        r: "relax_children hs' (child_of log' x) indeg' [] = Some (m', ready')" "sort_key (topo_key log') ready' = sort_key (topo_key log) ready"
        "map_of m' = (map_of m)(?h \<mapsto> ?k rest')" "map_of m ?h = None" unfolding k(1) by (auto simp: log'_def heads_def)
      have "length (q' @ sort_key (topo_key log) ready) + sum_list (map snd m) < length q + sum_list (map snd indeg)"
        using relax_children_measure [OF step(2)] Cons by simp
      then have "topo_loop log' hs' m' (q' @ sort_key (topo_key log) ready) (acc @ [ex]) = Some ((acc @ [ex]) @ rest' @ [e])"
        using step(3) k(2) r(3,4) less.prems(3,4) rest by (intro less.hyps) auto
      then show ?thesis using r(1,2) get' rest by (simp add: Cons topo_loop_step)
    qed
  qed
qed

section \<open>The listing\<close>

lemma last_is_head:
  assumes inv: "oplog_inv H log" and es: "set (map en_hash es) = hm_keys (ol_entries log)" "distinct (map en_hash es)"
    "\<forall>i < length es. \<forall>p \<in> set (en_next (es ! i)). p \<in> en_hash ` set (take i es)"
    "\<forall>e \<in> set es. oplog_get log (en_hash e) = Some e" and ne: "es \<noteq> []"
  shows "en_hash (last es) \<in> set (ol_heads log)"
proof (rule ccontr)
  note D = oplog_invD [OF inv]
  assume "en_hash (last es) \<notin> set (ol_heads log)"
  moreover have "en_hash (last es) \<in> hm_keys (ol_entries log)" using es(1) ne by (metis last_in_set list.set_map rev_image_eqI)
  ultimately obtain c where c: "(en_hash (last es), c) \<in> causal log" using D(4) by blast
  then have "c \<in> en_hash ` set es" using causal_Range [of log] es(1) by auto
  then obtain j where j: "j < length es" "en_hash (es ! j) = c" by (auto simp: in_set_conv_nth)
  then have "en_hash (last es) \<in> set (en_next (es ! j))" using c es(4) nth_mem [OF j(1)] by (auto simp: causal_def oplog_get_def)
  then have "en_hash (last es) \<in> en_hash ` set (take j es)" using es(3) j(1) by blast
  then obtain i where "i < j" "en_hash (es ! i) = en_hash (last es)" by (fastforce simp: in_set_conv_nth)
  then have "map en_hash es ! i = map en_hash es ! (length es - 1)" "i \<noteq> length es - 1" using j(1) ne by (auto simp: last_conv_nth)
  then show False using es(2) j(1) \<open>i < j\<close> by (simp add: nth_eq_iff_index_eq del: nth_map)
qed

lemma well_linked_on_top:
  assumes "oplog_inv H log" "well_linked log" "on_top H log e"
  shows "well_linked (insert_entry log e)"
  using assms(2,3) on_top_facts(2,3) [OF assms(1,3)] by (auto simp: well_linked_def oplog_get_def on_top_def split: if_splits)

text \<open>The in-degrees with the new entry: unchanged, and the number of heads for the new one.\<close>

lemma degrees_on_top:
  assumes inv: "oplog_inv H log" and e: "on_top H log e"
    and hs: "set hs = hm_keys (ol_entries log)" "set hs' = insert (en_hash e) (set hs)"
  shows "x \<in> set hs \<Longrightarrow> topo_degree (insert_entry log e) hs' x = topo_degree log hs x"
    "topo_degree (insert_entry log e) hs' (en_hash e) = card (set (ol_heads log))"
proof -
  note T = on_top_facts [OF inv e]
  show "topo_degree (insert_entry log e) hs' x = topo_degree log hs x" if x: "x \<in> set hs"
  proof -
    obtain ex where ex: "hm_get (ol_entries log) x = Some ex" using x unfolding hs(1) hm_keys_dom by blast
    have "x \<noteq> en_hash e" using x e hs(1) unfolding on_top_def by metis
    have "set (en_next ex) \<subseteq> Domain (causal log)" using ex by (auto simp: causal_def)
    then have "set (en_next ex) \<subseteq> set hs" using oplog_invD(3) [OF inv] unfolding hs(1) by (rule subset_trans)
    then have "filter (\<lambda>p. p \<in> set hs') (en_next ex) = filter (\<lambda>p. p \<in> set hs) (en_next ex)"
      by (intro filter_cong refl) (auto simp: hs(2))
    then show ?thesis using ex \<open>x \<noteq> en_hash e\<close> by (simp only: T(3) if_False option.sel)
  qed
  have "set (en_next e) \<subseteq> set hs'" "length (en_next e) = card (set (ol_heads log))"
    using e hs oplog_invD(4) [OF inv] by (auto simp: on_top_def simp flip: distinct_card)
  then show "topo_degree (insert_entry log e) hs' (en_hash e) = card (set (ol_heads log))" by (simp add: T(3) filter_True subset_iff)
qed

lemma listing_on_top:
  assumes inv: "oplog_inv H log" and wl: "well_linked log" and ne: "ol_entries log \<noteq> []" and e: "on_top H log e"
  shows "\<exists>es. entries_since log None = Some es \<and> entries_since (insert_entry log e) None = Some (es @ [e])"
proof -
  let ?log' = "insert_entry log e" and ?h = "en_hash e"
  let ?hs = "reachable_from log (ol_heads log)" and ?hs' = "reachable_from ?log' (ol_heads ?log')"
  note T = on_top_facts [OF inv e]
  have hs: "set ?hs = hm_keys (ol_entries log)" using heads_reach_all [OF inv wl] by (simp add: set_reachable_from causal_past_def)
  have hs': "set ?hs' = insert ?h (set ?hs)"
    using heads_reach_all [OF T(1) well_linked_on_top [OF inv wl e]] hs T(2) by (simp add: set_reachable_from causal_past_def)
  have fresh: "?h \<notin> set ?hs" using e hs by (simp add: on_top_def)
  obtain es where es: "topo_sort log ?hs = Some es" "distinct (map en_hash es)" "set (map en_hash es) = hm_keys (ol_entries log)"
    "\<forall>i < length es. \<forall>p \<in> set (en_next (es ! i)). p \<in> en_hash ` set (take i es)" "\<forall>x \<in> set es. oplog_get log (en_hash x) = Some x"
    using delta_correct [OF inv wl, of "{}"] by auto
  have "es \<noteq> []" using es(3) ne by auto
  note lasth = last_is_head [OF inv es(3,2,4,5) this]
  define d d' where "d = topo_degree log ?hs" and "d' = topo_degree ?log' ?hs'"
  have dd: "d' x = d x" if "x \<in> set ?hs" for x unfolding d_def d'_def by (rule degrees_on_top(1) [OF inv e hs hs' that])
  have dh: "d' ?h = card (set (ol_heads log))" unfolding d'_def by (rule degrees_on_top(2) [OF inv e hs hs'])
  have heads_ne: "card (set (ol_heads log)) \<noteq> 0" using lasth by (metis card_gt_0_iff empty_iff finite_set less_not_refl)
  define start where "start = sort_key (topo_key log) (filter (\<lambda>x. d x = 0) ?hs)"
  have run: "topo_loop log ?hs (map (\<lambda>x. (x, d x)) ?hs) start [] = Some ([] @ es)"
    using es(1) unfolding start_def d_def by (subst (asm) topo_sort_run) (simp_all add: hs)
  have "sort_key (topo_key ?log') (filter (\<lambda>x. d' x = 0) ?hs') = sort_key (topo_key ?log') (filter (\<lambda>x. d x = 0) ?hs)"
    using dd dh heads_ne hs' by (intro sort_key_cong_set inj_topo_key) (auto simp: distinct_reachable_from)
  also have "\<dots> = start" unfolding start_def using T(6) hs by (intro sort_key_cong_on) auto
  finally have start': "sort_key (topo_key ?log') (filter (\<lambda>x. d' x = 0) ?hs') = start" .
  have "set (ol_heads log) \<inter> en_hash ` set es = set (ol_heads log)" using es(3) oplog_invD(4) [OF inv] by auto
  then have "map_of (map (\<lambda>x. (x, d' x)) ?hs') = (map_of (map (\<lambda>x. (x, d x)) ?hs))(?h \<mapsto> card (set (ol_heads log) \<inter> en_hash ` set es))"
    using dd dh hs' fresh by (auto simp: map_of_map_restrict fun_eq_iff restrict_map_def)
  then have "topo_loop ?log' ?hs' (map (\<lambda>x. (x, d' x)) ?hs') start [] = Some ([] @ es @ [e])"
    using fresh es(2) \<open>es \<noteq> []\<close> lasth by (intro topo_loop_on_top [OF inv e hs hs' run]) (auto simp: map_of_map_restrict restrict_map_def)
  then have "topo_sort ?log' ?hs' = Some (es @ [e])"
    using start' unfolding d'_def by (subst topo_sort_run) (simp_all add: hs hs' T(2))
  then show ?thesis using es(1) by (simp add: entries_since_def)
qed

end
