(* ===== verification/Silk_Times.thy ===== *)
theory Silk_Times
  imports Silk_Materialize
begin


text \<open>
  What the graph keeps of its entries (\<^verbatim>\<open>src/src/graph.rs\<close>): every clock and every property value in the
  materialization comes from an entry or from a checkpoint. So what holds of all times and of all values
  in the entries holds of those in the graph. Two instances are used: a graph built from entries up to
  some time has no later clock, so that a later write wins everywhere; and a graph built from values
  that respect the limits of the Python boundary can be read through it (\<^verbatim>\<open>Silk_Query\<close>).
\<close>

declare map_of_eq_Some_iff [simp del] Some_eq_map_of_iff [simp del]

section \<open>Times and values from the entries\<close>

type_synonym time = "u64 \<times> u32"

definition clocks_all :: "(time \<Rightarrow> bool) \<Rightarrow> (string, hybrid_clock) hash_map \<Rightarrow> bool" where
  "clocks_all K m \<longleftrightarrow> (\<forall>k c. hm_get m k = Some c \<longrightarrow> K (as_tuple c))"

definition values_all :: "(silk_value \<Rightarrow> bool) \<Rightarrow> properties \<Rightarrow> bool" where
  "values_all V ps \<longleftrightarrow> (\<forall>kv \<in> set ps. V (snd kv))"

definition node_all :: "(time \<Rightarrow> bool) \<Rightarrow> (silk_value \<Rightarrow> bool) \<Rightarrow> node \<Rightarrow> bool" where
  "node_all K V n \<longleftrightarrow> K (as_tuple (n_last_clock n)) \<and> K (as_tuple (n_last_add_clock n)) \<and> clocks_all K (n_property_clocks n) \<and>
     values_all V (n_properties n)"

definition edge_all :: "(time \<Rightarrow> bool) \<Rightarrow> (silk_value \<Rightarrow> bool) \<Rightarrow> edge \<Rightarrow> bool" where
  "edge_all K V e \<longleftrightarrow> K (as_tuple (e_last_clock e)) \<and> K (as_tuple (e_last_add_clock e)) \<and> clocks_all K (e_property_clocks e) \<and>
     values_all V (e_properties e)"

fun op_all :: "(time \<Rightarrow> bool) \<Rightarrow> (silk_value \<Rightarrow> bool) \<Rightarrow> graph_op \<Rightarrow> bool" where
  "op_all K V (Checkpoint ops op_clocks p l) = ((\<forall>c \<in> set op_clocks. K c) \<and> (\<forall>op \<in> set ops. op_all K V op))"
| "op_all K V (AddNode _ _ _ _ ps) = values_all V ps"
| "op_all K V (AddEdge _ _ _ _ ps) = values_all V ps"
| "op_all K V (UpdateProperty _ _ v) = V v"
| "op_all K V _ = True"

definition entry_all :: "(time \<Rightarrow> bool) \<Rightarrow> (silk_value \<Rightarrow> bool) \<Rightarrow> entry \<Rightarrow> bool" where
  "entry_all K V e \<longleftrightarrow> K (as_tuple (en_clock e)) \<and> op_all K V (en_payload e)"

definition graph_all :: "(time \<Rightarrow> bool) \<Rightarrow> (silk_value \<Rightarrow> bool) \<Rightarrow> graph \<Rightarrow> bool" where
  "graph_all K V g \<longleftrightarrow>
     (\<forall>i n. hm_get (gr_nodes g) i = Some n \<longrightarrow> node_all K V n) \<and> (\<forall>i e. hm_get (gr_edges g) i = Some e \<longrightarrow> edge_all K V e) \<and>
     (\<forall>(h, e) \<in> set (gr_pending g). entry_all K V e)"

lemma clocks_all_insert: "clocks_all K m \<Longrightarrow> K (as_tuple c) \<Longrightarrow> clocks_all K (hm_insert k c m)"
  by (simp add: clocks_all_def update_conv')

lemma clocks_all_const: "K (as_tuple c) \<Longrightarrow> clocks_all K (map (\<lambda>(k, _). (k, c)) ps)"
  unfolding clocks_all_def by (induction ps) (auto split: if_splits)

lemma values_all_insert: "values_all V m \<Longrightarrow> V v \<Longrightarrow> values_all V (bt_insert k v m)"
  unfolding values_all_def by (induction k v m rule: bt_insert.induct) auto

lemma merge_clocks_all:
  "clocks_all K clocks \<Longrightarrow> K (as_tuple c) \<Longrightarrow> clocks_all K (snd (merge_properties_lww props clocks kvs c))"
  by (induction props clocks kvs c rule: merge_properties_lww.induct) (auto intro: clocks_all_insert)

lemma merge_values_all:
  "values_all V props \<Longrightarrow> values_all V kvs \<Longrightarrow> values_all V (fst (merge_properties_lww props clocks kvs c))"
proof (induction props clocks kvs c rule: merge_properties_lww.induct)
  case (2 props clocks k v kvs c)
  then have "V v" "values_all V kvs" by (simp_all add: values_all_def)
  with 2 show ?case by (simp add: values_all_insert)
qed simp

lemma graph_all_frame [simp]:
  "graph_all K V (g\<lparr>gr_quarantined := q\<rparr>) = graph_all K V g" "graph_all K V (g\<lparr>gr_ontology := ont\<rparr>) = graph_all K V g"
  "graph_all K V (quarantine E g e kind r) = graph_all K V g" "graph_all K V (unquarantine g e) = graph_all K V g"
  by (simp_all add: graph_all_def quarantine_def unquarantine_def)

named_theorems all_intros

lemma pending_insert_sub: "set (hm_insert k v m) \<subseteq> insert (k, v) (set m)"
  by (induction m) auto

lemma pending_remove_sub: "set (hm_remove k m) \<subseteq> set m"
  by (induction m) auto

lemma apply_add_node_all [all_intros]:
  "graph_all K V g \<Longrightarrow> K (as_tuple c) \<Longrightarrow> values_all V ps \<Longrightarrow> graph_all K V (apply_add_node g i ty st l ps c)"
  by (auto simp: graph_all_def apply_add_node_def node_all_def update_conv' Let_def case_prod_beta clocks_all_const
      intro: merge_clocks_all merge_values_all split: option.splits if_splits)

lemma apply_add_edge_all [all_intros]:
  "graph_all K V g \<Longrightarrow> K (as_tuple c) \<Longrightarrow> values_all V ps \<Longrightarrow> graph_all K V (apply_add_edge g i ty s d ps c)"
  by (auto simp: graph_all_def apply_add_edge_def edge_all_def update_conv' Let_def case_prod_beta clocks_all_const
      intro: merge_clocks_all merge_values_all split: option.splits if_splits)

lemma apply_update_property_all [all_intros]:
  "graph_all K V g \<Longrightarrow> K (as_tuple c) \<Longrightarrow> V v \<Longrightarrow> graph_all K V (apply_update_property g i k v c)"
  by (auto simp: graph_all_def apply_update_property_def node_all_def edge_all_def update_conv' Let_def
      intro: clocks_all_insert values_all_insert split: option.splits if_splits)

lemma apply_remove_all [all_intros]:
  "graph_all K V g \<Longrightarrow> K (as_tuple c) \<Longrightarrow> graph_all K V (apply_remove_node g i c)"
  "graph_all K V g \<Longrightarrow> K (as_tuple c) \<Longrightarrow> graph_all K V (apply_remove_edge g i c)"
  by (auto simp: graph_all_def apply_remove_node_def apply_remove_edge_def node_all_def edge_all_def update_conv'
      split: option.splits if_splits)

lemma admit_edge_all [all_intros]:
  assumes "graph_all K V g" "entry_all K V e" "values_all V ps"
  shows "graph_all K V (admit_edge E g e i ty s d ps mode)"
proof -
  have "graph_all K V (g\<lparr>gr_pending := hm_insert (en_hash e) e (gr_pending g)\<rparr>)"
    using assms by (auto simp: graph_all_def dest!: pending_insert_sub [THEN subsetD])
  then show ?thesis
    using assms by (auto simp: admit_edge_def entry_all_def intro!: apply_add_edge_all split: option.splits sum.splits)
qed

lemma retry_edge_all [all_intros]:
  assumes "graph_all K V g" "entry_all K V e"
  shows "graph_all K V (retry_edge E e g)"
proof -
  have "graph_all K V (g\<lparr>gr_pending := hm_remove (en_hash e) (gr_pending g)\<rparr>)"
    using assms(1) by (auto simp: graph_all_def dest!: pending_remove_sub [THEN subsetD])
  then show ?thesis using assms(2) by (auto simp: retry_edge_def Let_def entry_all_def intro!: admit_edge_all split: graph_op.splits)
qed

lemma set_iter: "iter_ok E \<Longrightarrow> set (env_iter E xs) = set xs"
  by (metis iter_ok_def set_mset_mset)

lemma retry_pending_all [all_intros]:
  assumes "iter_ok E" "graph_all K V g"
  shows "graph_all K V (retry_pending_edges E g)"
proof -
  have "\<forall>e \<in> set (filter (edge_ready g) (env_iter E (map snd (gr_pending g)))). entry_all K V e"
    using assms set_iter [OF assms(1)] by (auto simp: graph_all_def)
  moreover have "graph_all K V (fold (retry_edge E) es g')" if "\<forall>e \<in> set es. entry_all K V e" "graph_all K V g'" for es g'
    using that by (induction es arbitrary: g') (auto intro: retry_edge_all)
  ultimately show ?thesis using assms(2) by (simp add: retry_pending_edges_def)
qed

lemma op_time_all:
  assumes "K (as_tuple (en_clock e))" "\<forall>c \<in> set clks. K c"
  shows "K (as_tuple (if i < length clks then with_values (en_author e) (fst (clks ! i)) (snd (clks ! i)) else en_clock e))"
  using assms nth_mem [of i clks] by (simp add: as_tuple_def with_values_def)

lemma apply_inner_all:
  "iter_ok E \<Longrightarrow> graph_all K V g \<Longrightarrow> entry_all K V e \<Longrightarrow> graph_all K V (apply_inner E g e mode adopt)"
  "iter_ok E \<Longrightarrow> graph_all K V g \<Longrightarrow> K (as_tuple (en_clock e)) \<Longrightarrow> \<forall>c \<in> set clks. K c \<Longrightarrow> \<forall>op \<in> set ops. op_all K V op \<Longrightarrow>
      graph_all K V (apply_checkpoint E g e adopt i ops clks)"
proof (induction E g e mode adopt and E g e adopt i ops clks rule: apply_inner_apply_checkpoint.induct)
  case (1 E g e mode adopt)
  then show ?case
    by (auto simp: apply_inner.simps [of E g e] apply_extend_def apply_add_node_entry_def apply_update_entry_def Let_def entry_all_def
        intro!: all_intros split: graph_op.splits option.splits sum.splits prod.splits)
next
  case (3 E g e adopt i op ops clks)
  note later = op_time_all [OF 3(20,21), of i]
  show ?case
  proof (cases op)
    case (DefineOntology ont)
    then show ?thesis using 3 by simp
  qed (use 3 later in \<open>simp_all add: Let_def entry_all_def entry_new_def split del: if_split\<close>)
qed auto

lemma rebuild_all:
  assumes "iter_ok E" "\<forall>e \<in> set es. entry_all K V e"
  shows "graph_all K V (rebuild E g es)"
proof -
  have "graph_all K V (fold (fold_ontology_step E) es g')" if "graph_all K V g'" for g'
    using that by (induction es arbitrary: g')
      (auto simp: fold_ontology_step_def split: graph_op.splits prod.splits sum.splits)
  moreover have "graph_all K V (fold (\<lambda>e g. if is_extend (en_payload e) then g else apply_inner E g e Full False) es' g')"
    if "graph_all K V g'" "set es' \<subseteq> set es" for es' g'
    using that assms by (induction es' arbitrary: g') (auto intro: apply_inner_all(1))
  moreover have "graph_all K V (g\<lparr>gr_nodes := [], gr_edges := [], gr_outgoing := [], gr_incoming := [], gr_by_type := [],
      gr_quarantined := [], gr_pending := [], gr_ontology := gr_base_ontology g\<rparr>)" by (simp add: graph_all_def)
  ultimately show ?thesis unfolding rebuild_def Let_def by blast
qed

section \<open>No clock later than a time\<close>

abbreviation clocks_upto :: "time \<Rightarrow> (string, hybrid_clock) hash_map \<Rightarrow> bool" where
  "clocks_upto t \<equiv> clocks_all (\<lambda>c. c \<le> t)"

abbreviation node_upto :: "time \<Rightarrow> node \<Rightarrow> bool" where
  "node_upto t \<equiv> node_all (\<lambda>c. c \<le> t) (\<lambda>_. True)"

abbreviation op_upto :: "time \<Rightarrow> graph_op \<Rightarrow> bool" where
  "op_upto t \<equiv> op_all (\<lambda>c. c \<le> t) (\<lambda>_. True)"

abbreviation entry_upto :: "time \<Rightarrow> entry \<Rightarrow> bool" where
  "entry_upto t \<equiv> entry_all (\<lambda>c. c \<le> t) (\<lambda>_. True)"

abbreviation graph_upto :: "time \<Rightarrow> graph \<Rightarrow> bool" where
  "graph_upto t \<equiv> graph_all (\<lambda>c. c \<le> t) (\<lambda>_. True)"

lemma values_all_True [simp]: "values_all (\<lambda>_. True) ps"
  by (simp add: values_all_def)

lemmas upto_defs = clocks_all_def node_all_def edge_all_def entry_all_def graph_all_def

lemma op_upto_mono: "op_upto t op \<Longrightarrow> t \<le> t' \<Longrightarrow> op_upto t' op"
  by (induction op) (auto intro: order_trans)

lemma entry_upto_mono: "entry_upto t e \<Longrightarrow> t \<le> t' \<Longrightarrow> entry_upto t' e"
  by (auto simp: entry_all_def intro: op_upto_mono order_trans)

lemma graph_upto_mono: "graph_upto t g \<Longrightarrow> t \<le> t' \<Longrightarrow> graph_upto t' g"
  unfolding graph_all_def node_all_def edge_all_def clocks_all_def by (fast intro: order_trans entry_upto_mono)

end
