(* ===== verification/Silk_Session.thy ===== *)
theory Silk_Session
  imports Silk_Lifecycle Silk_Durability Silk_Tip Silk_Times
begin


text \<open>
  The local life of a store (\<^verbatim>\<open>src/src/python/mod.rs\<close>): what a write does on every branch, that the graph kept
  beside the log is the one the log rebuilds to, that a writer reads its own writes, and what a rebuild
  restores.
\<close>

declare map_of_eq_Some_iff [simp del] Some_eq_map_of_iff [simp del]

section \<open>Live nodes\<close>

lemma live_nodes_ids:
  assumes "graph_inv g"
  shows "distinct (map n_id (all_nodes g))" "n \<in> set (all_nodes g) \<longleftrightarrow> get_node g (n_id n) = Some n"
proof -
  have wf: "hm_wf (gr_nodes g)" and ids: "\<forall>i n. hm_get (gr_nodes g) i = Some n \<longrightarrow> n_id n = i"
    using assms by (auto simp: graph_inv_def node_inv_def)
  have id: "n_id n = i" if "(i, n) \<in> set (gr_nodes g)" for i n using that wf ids by (metis map_of_is_SomeI)
  then have "map n_id (map snd (gr_nodes g)) = map fst (gr_nodes g)" by auto
  then have "distinct (map n_id (map snd (gr_nodes g)))" using wf by metis
  then show "distinct (map n_id (all_nodes g))" unfolding all_nodes_def by (rule distinct_map_filter)
  show "n \<in> set (all_nodes g) \<longleftrightarrow> get_node g (n_id n) = Some n"
  proof -
    have "(\<exists>i. (i, n) \<in> set (gr_nodes g)) \<longleftrightarrow> (n_id n, n) \<in> set (gr_nodes g)" using id by blast
    then show ?thesis unfolding get_node_Some map_of_eq_Some_iff [OF wf] all_nodes_def by (force simp: image_iff)
  qed
qed

lemma live_lookup:
  assumes "graph_inv g"
  shows "map_of (map (\<lambda>n. (n_id n, f n)) (all_nodes g)) i = map_option f (get_node g i)"
proof -
  have "map_of (map (\<lambda>n. (n_id n, f n)) ns) i = map_option f (find (\<lambda>n. n_id n = i) ns)" for ns
    by (induction ns) auto
  moreover have "find (\<lambda>n. n_id n = i) (all_nodes g) = get_node g i"
  proof (cases "find (\<lambda>n. n_id n = i) (all_nodes g)")
    case None
    then have "\<forall>n \<in> set (all_nodes g). n_id n \<noteq> i" by (simp add: find_None_list_all)
    moreover have "n_id n = i" if "get_node g i = Some n" for n
      using that assms by (auto simp: get_node_Some graph_inv_def node_inv_def)
    ultimately show ?thesis using None live_nodes_ids(2) [OF assms] by (metis not_None_eq)
  next
    case (Some n)
    then show ?thesis using find_SomeD [OF Some] live_nodes_ids(2) [OF assms, of n] by auto
  qed
  ultimately show ?thesis by simp
qed

lemma live_node_types_exact:
  assumes "graph_inv g"
  shows "hm_get (live_node_types g) i = map_option n_type (get_node g i)"
proof -
  have "live_node_types g = fold (\<lambda>kv. AList.update (fst kv) (snd kv)) (map (\<lambda>n. (n_id n, n_type n)) (all_nodes g)) []"
    by (simp add: live_node_types_def fold_map o_def)
  moreover have "distinct (map fst (map (\<lambda>n. (n_id n, n_type n)) (all_nodes g)))"
    using live_nodes_ids(1) [OF assms] by (simp add: o_def)
  ultimately show ?thesis
    using hm.get_fold_insert [of "[]" "map (\<lambda>n. (n_id n, n_type n)) (all_nodes g)" i] live_lookup [OF assms, of n_type i]
    by (simp add: map_of_rev split: option.splits)
qed

lemma listing_singleton:
  assumes "en_next e = []" "en_refs e = []"
  shows "entries_since (oplog_new e) None = Some [e]"
  using assms by (simp add: entries_since_def reachable_from_def oplog_new_def topo_sort_def topo_loop.simps)

section \<open>An example platform\<close>

text \<open>Entries hash to their times, the database is a journal, and keys are bytes.\<close>

definition time_hash :: content_hash where
  "time_hash c = ucast (clk_physical (sg_clock c)) * 16 + ucast (clk_logical (sg_clock c))"

definition demo_platform :: "((entry + hash list) journal, (entry + hash list) journal, entry + hash list, u8, u8) platform" where
  "demo_platform = \<lparr>pf_env = \<lparr>env_regex = literal_regex, env_hash = time_hash, env_ontology_hash = (\<lambda>_. 0), env_iter = id\<rparr>,
     pf_redb = mem_redb, pf_codec = typed_codec, pf_sign = (\<lambda>k _. replicate 64 k), pf_verify = (\<lambda>k _ sig_bytes. sig_bytes = replicate 64 k),
     pf_signing_key_of = hd, pf_verifying_key_of = (\<lambda>bytes. Some (hd bytes)), pf_public_key = replicate 32\<rparr>"

definition shop_ontology :: ontology where
  "shop_ontology = \<lparr>on_node_types = [(''item'', (demo_type [] None)\<lparr>nd_subtypes := Some [(''book'', \<lparr>sd_description = None, sd_properties = []\<rparr>)]\<rparr>),
       (''note'', demo_type [] None)],
     on_edge_types = [(''about'', \<lparr>ed_description = None, ed_source_types = [''note''], ed_target_types = [''item''], ed_properties = []\<rparr>)]\<rparr>"

lemma demo_iter_ok: "iter_ok (pf_env demo_platform)"
  by (simp add: iter_ok_def demo_platform_def)

type_synonym demo_py_store = "((entry + hash list) journal, u8, u8, nat) py_store"

definition shop_root :: entry where
  "shop_root = entry_new time_hash (DefineOntology shop_ontology) [] [] (with_values ''a'' 10 1) ''a''"

definition empty_shop :: demo_py_store where
  "empty_shop = fresh_store (Memory (oplog_new shop_root)) (graph_new shop_ontology) [] ''a'' (with_values ''a'' 10 1) shop_ontology"

lemma shop_valid [simp]:
  "validate_node_mode rx shop_ontology ''item'' (Some ''book'') [] m = Inr ()"
  "validate_node_mode rx shop_ontology ''note'' None [] m = Inr ()"
  "validate_node_mode rx shop_ontology ''item'' None [] m = Inl (MissingSubtype ''item'' [''book''])"
proof -
  have "ancestors shop_ontology ''item'' = []" "ancestors shop_ontology ''note'' = []"
    by (simp_all add: ancestors_def numeral_nat parent_of_def shop_ontology_def demo_type_def)
  then have "effective_properties shop_ontology ''item'' = []" "effective_properties shop_ontology ''note'' = []"
    by (simp_all add: effective_properties_def) (simp_all add: shop_ontology_def demo_type_def)
  moreover have "bt_get (on_node_types shop_ontology) ''item'' = Some ((demo_type [] None)\<lparr>nd_subtypes := Some [(''book'', \<lparr>sd_description = None, sd_properties = []\<rparr>)]\<rparr>)"
      "bt_get (on_node_types shop_ontology) ''note'' = Some (demo_type [] None)"
    by (simp_all add: shop_ontology_def)
  ultimately show
  "validate_node_mode rx shop_ontology ''item'' (Some ''book'') [] m = Inr ()"
  "validate_node_mode rx shop_ontology ''note'' None [] m = Inr ()"
  "validate_node_mode rx shop_ontology ''item'' None [] m = Inl (MissingSubtype ''item'' [''book''])"
    by (simp_all add: validate_node_mode_def demo_type_def validate_properties_def)
qed

lemma shop_edges [simp]:
  "validate_edge_mode rx shop_ontology ''about'' ''note'' ''item'' [] m = Inr ()"
  "\<exists>d. bt_get (on_edge_types shop_ontology) ''about'' = Some d"
  by (simp_all add: validate_edge_mode_def is_subtype_of_def validate_properties_def hm_contains_def shop_ontology_def)

lemma empty_shop_new: "ps_new demo_platform (\<lambda>_. 10) ''a'' (Some shop_ontology) None = Some (Inr empty_shop)"
proof -
  have "validate_self shop_ontology = Inr ()" by code_simp
  then show ?thesis
    by (simp add: ps_new_def empty_shop_def shop_root_def demo_platform_def clock_new_def tick_def with_values_def saturating_add_def Let_def)
qed

lemmas shop_eval = empty_shop_def shop_root_def demo_platform_def time_hash_def fresh_store_def with_values_def
  ps_append_def create_entry_def entry_new_def compute_hash_def tick_def notify_subscribers_def
  validate_entry_payload_def validate_node_def validate_edge_def
  oplog_append_def verify_hash_def insert_entry_def oplog_new_def is_checkpoint_def
  graph_apply_def apply_inner.simps apply_add_node_entry_def apply_add_node_def graph_new_def unquarantine_def retry_pending_edges_def
  get_node_def cmp_order_def clock_wins_def cmp_def hs_insert_def hs_remove_def index_insert_def hm_contains_def Let_def

section \<open>One write\<close>

text \<open>The entry that a write creates.\<close>

abbreviation written :: "('d, 't, 'v, 'sk, 'pk) platform \<Rightarrow> u64 \<Rightarrow> ('d, 'sk, 'pk, 'cb) py_store \<Rightarrow> graph_op \<Rightarrow> entry" where
  "written P wall s op \<equiv> create_entry P s op (ol_heads (ps_oplog s)) [] (tick wall (ps_clock s)) (ps_instance_id s)"

lemma create_entry_fields [simp]:
  "en_payload (create_entry P s op next refs c a) = op" "en_next (create_entry P s op next refs c a) = next"
  "en_refs (create_entry P s op next refs c a) = refs" "en_clock (create_entry P s op next refs c a) = c"
  "en_author (create_entry P s op next refs c a) = a"
  "verify_hash (env_hash (pf_env P)) (create_entry P s op next refs c a)"
  by (simp_all add: create_entry_def entry_new_def entry_new_signed_def Let_def verify_hash_def split: option.splits)

lemma create_entry_frame [simp]:
  "create_entry P (s\<lparr>ps_clock := c'\<rparr>) op next refs c a = create_entry P s op next refs c a"
  "validate_entry_payload P (s\<lparr>ps_clock := c'\<rparr>) e = validate_entry_payload P s e"
  by (simp_all add: create_entry_def validate_entry_payload_def Let_def split: graph_op.split option.split)

lemma append_ok:
  assumes "ps_append P wall s op = (s', Inr h)"
  shows "\<exists>b new calls. validate_entry_payload P s (written P wall s op) = Inr () \<and>
    backend_append P (ps_backend s) (written P wall s op) = (b, Inr new) \<and> h = en_hash (written P wall s op) \<and>
    s' = s\<lparr>ps_clock := tick wall (ps_clock s), ps_backend := b, ps_graph := graph_apply (pf_env P) (ps_graph s) (written P wall s op),
           ps_calls := calls, ps_bell := bell_notify (ps_bell s)\<rparr>"
  using assms by (auto simp: ps_append_def Let_def notify_subscribers_def split: sum.splits prod.splits)

lemma append_refused:
  assumes "ps_append P wall s op = (s', Inl err)"
  shows "s' = s\<lparr>ps_clock := tick wall (ps_clock s), ps_backend := ps_backend s'\<rparr>"
    "ps_backend s' = ps_backend s \<or> ps_backend s' = fst (backend_append P (ps_backend s) (written P wall s op))"
  using assms by (auto simp: ps_append_def Let_def split: sum.splits prod.splits)

lemma heads_nonempty: "oplog_inv H log \<Longrightarrow> ol_entries log \<noteq> [] \<Longrightarrow> ol_heads log \<noteq> []"
proof
  assume inv: "oplog_inv H log" and ne: "ol_entries log \<noteq> []" and nil: "ol_heads log = []"
  have "wf ((causal log)\<inverse>)" using oplog_invD(9) [OF inv] by (intro finite_acyclic_wf) (auto simp: acyclic_converse)
  moreover obtain h where "h \<in> hm_keys (ol_entries log)" using ne by (cases "ol_entries log") auto
  ultimately obtain m where "m \<in> hm_keys (ol_entries log)" "\<forall>y. (y, m) \<in> (causal log)\<inverse> \<longrightarrow> y \<notin> hm_keys (ol_entries log)"
    by (metis wfE_min)
  then show False using oplog_invD(4) [OF inv] causal_Range [of log] nil by fastforce
qed

text \<open>A write into a log in memory always goes in: its parents are the heads and its hash is right.\<close>

lemma memory_append:
  assumes inv: "oplog_inv (env_hash (pf_env P)) log" and ne: "ol_entries log \<noteq> []" and b: "ps_backend s = Memory log"
    and fresh: "en_hash (written P wall s op) \<notin> hm_keys (ol_entries log)"
  shows "backend_append P (ps_backend s) (written P wall s op) = (Memory (insert_entry log (written P wall s op)), Inr True)"
    "on_top (env_hash (pf_env P)) log (written P wall s op)"
proof -
  let ?e = "written P wall s op"
  note D = oplog_invD [OF inv]
  have "\<forall>p \<in> set (ol_heads log). hm_contains (ol_entries log) p" using D(4) by (auto simp: hm_contains_iff)
  then have "find (\<lambda>p. \<not> hm_contains (ol_entries log) p) (ol_heads log) = None" by (simp add: find_None_list_all list_all_iff)
  then show "backend_append P (ps_backend s) ?e = (Memory (insert_entry log ?e), Inr True)"
    using fresh heads_nonempty [OF inv ne] by (simp add: b oplog_append_def hm_contains_iff)
  show "on_top (env_hash (pf_env P)) log ?e" using fresh D(5) by (simp add: on_top_def b)
qed

section \<open>The graph and the log in step\<close>

lemma rebuild_snoc:
  assumes "\<not> is_extend (en_payload e)" "\<not> is_checkpoint (en_payload e)"
  shows "rebuild E g (es @ [e]) = graph_apply E (rebuild E g es) e"
proof -
  have "fold_ontology_step E e g' = g'" for g'
    using assms by (auto simp: fold_ontology_step_def is_extend_def is_checkpoint_def split: graph_op.splits)
  moreover have "apply_inner E g' e Full False = graph_apply E g' e" for g'
    using assms(2) by (auto simp: graph_apply_def apply_inner.simps is_checkpoint_def split: graph_op.splits)
  ultimately show ?thesis using assms(1) by (simp add: rebuild_def Let_def)
qed

text \<open>
  The invariant of a store in memory: its log is sound and holds no clock ahead of the store's own; the
  graph is the one the log rebuilds to, and the ontology is the graph's.
\<close>

definition log_sound :: "('d, 't, 'v, 'sk, 'pk) platform \<Rightarrow> ('d, 'sk, 'pk, 'cb) py_store \<Rightarrow> bool" where
  "log_sound P s \<longleftrightarrow> (\<exists>log all. ps_backend s = Memory log \<and> oplog_inv (env_hash (pf_env P)) log \<and> well_linked log \<and> ol_entries log \<noteq> [] \<and>
     entries_since log None = Some all \<and> (\<forall>e \<in> set all. entry_upto (as_tuple (ps_clock s)) e))"

definition in_step :: "('d, 't, 'v, 'sk, 'pk) platform \<Rightarrow> ('d, 'sk, 'pk, 'cb) py_store \<Rightarrow> bool" where
  "in_step P s \<longleftrightarrow> log_sound P s \<and> ps_ontology s = gr_ontology (ps_graph s) \<and>
     (\<exists>all. entries_since (ps_oplog s) None = Some all \<and> ps_graph s = rebuild (pf_env P) (ps_graph s) all)"

definition plain_op :: "graph_op \<Rightarrow> bool" where
  "plain_op op \<longleftrightarrow> \<not> is_extend op \<and> \<not> is_checkpoint op"

lemma op_upto_plain: "\<not> is_checkpoint op \<Longrightarrow> op_upto t op"
  by (cases op) (auto simp: is_checkpoint_def)

lemma retry_pending_ontology: "gr_ontology (retry_pending_edges E g) = gr_ontology g"
proof -
  have "gr_ontology (retry_edge E e g) = gr_ontology g" for e g
    by (auto simp: retry_edge_def Let_def admit_edge_def split: graph_op.splits option.splits sum.splits)
  then have "gr_ontology (fold (retry_edge E) es g) = gr_ontology g" for es g by (induction es arbitrary: g) simp_all
  then show ?thesis by (simp add: retry_pending_edges_def)
qed

lemma graph_apply_ontology: "plain_op (en_payload e) \<Longrightarrow> gr_ontology (graph_apply E g e) = gr_ontology g"
  by (auto simp: plain_op_def is_extend_def is_checkpoint_def graph_apply_def apply_inner.simps apply_add_node_entry_def retry_pending_ontology
      apply_add_node_def admit_edge_def apply_update_entry_def apply_update_property_def apply_remove_node_def apply_remove_edge_def
      Let_def case_prod_beta split: graph_op.splits option.splits sum.splits)

lemma log_sound_append:
  assumes s: "log_sound P s" and op: "\<not> is_checkpoint op" and fresh: "\<not> hm_contains (ol_entries (ps_oplog s)) (en_hash (written P wall s op))"
    and run: "ps_append P wall s op = (s', r)"
  shows "log_sound P s'"
    "r = Inr h \<Longrightarrow> \<exists>all. entries_since (ps_oplog s) None = Some all \<and> entries_since (ps_oplog s') None = Some (all @ [written P wall s op])"
    "r = Inl err \<Longrightarrow> s' = s\<lparr>ps_clock := tick wall (ps_clock s)\<rparr>"
proof -
  let ?e = "written P wall s op" and ?H = "env_hash (pf_env P)"
  obtain log where log: "ps_backend s = Memory log" "oplog_inv ?H log" "well_linked log" "ol_entries log \<noteq> []"
    "\<forall>all. entries_since log None = Some all \<longrightarrow> (\<forall>e \<in> set all. entry_upto (as_tuple (ps_clock s)) e)"
    using s by (auto simp: log_sound_def)
  have "en_hash ?e \<notin> hm_keys (ol_entries log)" using fresh log(1) by (simp add: hm_contains_iff)
  note mem = memory_append [OF log(2,4,1) this]
  obtain all where all: "entries_since log None = Some all" "entries_since (insert_entry log ?e) None = Some (all @ [?e])"
    using listing_on_top [OF log(2,3,4) mem(2)] by blast
  have upto: "\<forall>e \<in> set all. entry_upto (as_tuple (tick wall (ps_clock s))) e" using log(5) all(1) entry_upto_mono [OF _ tick_mono] by blast
  have ok: "ps_backend s' = Memory (insert_entry log ?e)" "ps_clock s' = tick wall (ps_clock s)" if "r = Inr h" for h
    using append_ok [OF run [unfolded that]] mem(1) by auto
  show refused: "s' = s\<lparr>ps_clock := tick wall (ps_clock s)\<rparr>" if "r = Inl err" for err
    using run that mem(1) by (auto simp: ps_append_def Let_def split: sum.splits prod.splits)
  show "\<exists>all. entries_since (ps_oplog s) None = Some all \<and> entries_since (ps_oplog s') None = Some (all @ [?e])" if "r = Inr h" for h
    using ok [OF that] all log(1) by simp
  show "log_sound P s'"
  proof (cases r)
    case (Inl err)
    then show ?thesis using refused log all(1) upto by (simp add: log_sound_def)
  next
    case (Inr h)
    have "entry_upto (as_tuple (tick wall (ps_clock s))) ?e" using op by (simp add: entry_all_def op_upto_plain)
    then show ?thesis
      using ok [OF Inr] on_top_facts(1) [OF log(2) mem(2)] well_linked_on_top [OF log(2,3) mem(2)] all(2) upto
      by (auto simp: log_sound_def insert_entry_simps)
  qed
qed

lemma in_step_append:
  assumes s: "in_step P s" and op: "plain_op op" and fresh: "\<not> hm_contains (ol_entries (ps_oplog s)) (en_hash (written P wall s op))"
    and run: "ps_append P wall s op = (s', r)"
  shows "in_step P s'"
proof (cases r)
  case (Inl err)
  have "\<not> is_checkpoint op" using op by (simp add: plain_op_def)
  moreover have "log_sound P s" using s by (simp add: in_step_def)
  ultimately show ?thesis using s log_sound_append(1,3) [OF _ _ fresh run] Inl by (auto simp: in_step_def)
next
  case (Inr h)
  let ?e = "written P wall s op" and ?E = "pf_env P"
  have plain: "\<not> is_checkpoint op" "\<not> is_extend op" using op by (simp_all add: plain_op_def)
  have sound: "log_sound P s" using s by (simp add: in_step_def)
  obtain all where all: "entries_since (ps_oplog s) None = Some all" "entries_since (ps_oplog s') None = Some (all @ [?e])"
    using log_sound_append(2) [OF sound plain(1) fresh run Inr] by blast
  have g: "ps_graph s = rebuild ?E (ps_graph s) all" using s all(1) by (auto simp: in_step_def)
  have "graph_apply ?E (ps_graph s) ?e = rebuild ?E (ps_graph s) (all @ [?e])" using g plain by (simp add: rebuild_snoc)
  also have "\<dots> = rebuild ?E (graph_apply ?E (ps_graph s) ?e) (all @ [?e])"
    by (subst (1 2) rebuild_from_base) (simp add: graph_apply_def apply_inner_base)
  finally have "graph_apply ?E (ps_graph s) ?e = rebuild ?E (graph_apply ?E (ps_graph s) ?e) (all @ [?e])" .
  moreover have "ps_graph s' = graph_apply ?E (ps_graph s) ?e" "ps_ontology s' = ps_ontology s"
    using append_ok [OF run [unfolded Inr]] by auto
  ultimately show ?thesis
    using all(2) s op log_sound_append(1) [OF sound plain(1) fresh run] by (auto simp: in_step_def graph_apply_ontology)
qed

section \<open>A session\<close>

text \<open>
  The states of a store in memory that only its own program writes to: created, then any sequence of local
  calls, refused ones included: \<^verbatim>\<open>add_node\<close>, \<^verbatim>\<open>add_edge\<close>, \<^verbatim>\<open>update_property\<close>, \<^verbatim>\<open>remove_node\<close>, \<^verbatim>\<open>remove_edge\<close>, \<^verbatim>\<open>extend_ontology\<close>,
  \<^verbatim>\<open>revalidate\<close>, \<^verbatim>\<open>subscribe\<close>, \<^verbatim>\<open>unsubscribe\<close>, \<^verbatim>\<open>set_signing_key\<close>. Not part of a session are persistent stores, whose writes
  can fail half-way (\<^verbatim>\<open>Silk_Durability\<close>), \<^verbatim>\<open>compact\<close>, which replaces the log (\<^verbatim>\<open>Silk_Compaction\<close>), and the entry points of
  a merge, which let entries of other authors in (\<^verbatim>\<open>Silk_Merge\<close>). The hash of an entry that a call would write
  must not occur in the log.
\<close>

definition unused :: "('d, 't, 'v, 'sk, 'pk) platform \<Rightarrow> u64 \<Rightarrow> ('d, 'sk, 'pk, 'cb) py_store \<Rightarrow> graph_op \<Rightarrow> bool" where
  "unused P wall s op \<longleftrightarrow> \<not> hm_contains (ol_entries (ps_oplog s)) (en_hash (written P wall s op))"

inductive call :: "('d, 't, 'v, 'sk, 'pk) platform \<Rightarrow> 'o py_api \<Rightarrow> ('d, 'sk, 'pk, 'cb) py_store \<Rightarrow> ('d, 'sk, 'pk, 'cb) py_store \<Rightarrow> bool" for P A where
  added_node: "(\<And>ps. convert_props A props = Inr ps \<Longrightarrow> unused P wall s (AddNode i t st l ps)) \<Longrightarrow>
    ps_add_node P A wall s i t l props st = (s', r) \<Longrightarrow> call P A s s'"
| added_edge: "(\<And>ps. convert_props A props = Inr ps \<Longrightarrow> unused P wall s (AddEdge i t src tgt ps)) \<Longrightarrow>
    ps_add_edge P A wall s i t src tgt props = (s', r) \<Longrightarrow> call P A s s'"
| updated: "(\<And>v. py_to_value A obj = Inr v \<Longrightarrow> unused P wall s (UpdateProperty i k v)) \<Longrightarrow>
    ps_update_property P A wall s i k obj = (s', r) \<Longrightarrow> call P A s s'"
| removed_node: "unused P wall s (RemoveNode i) \<Longrightarrow> ps_remove_node P wall s i = (s', r) \<Longrightarrow> call P A s s'"
| removed_edge: "unused P wall s (RemoveEdge i) \<Longrightarrow> ps_remove_edge P wall s i = (s', r) \<Longrightarrow> call P A s s'"
| extended: "(\<And>ext. extension = Some ext \<Longrightarrow> unused P wall s (ExtendOntology ext)) \<Longrightarrow>
    ps_extend_ontology P wall s parsed extension = Some (s', r) \<Longrightarrow> call P A s s'"
| revalidated: "ps_revalidate P s = Some (s', n) \<Longrightarrow> call P A s s'"
| subscribed: "call P A s (fst (ps_subscribe s callback))"
| unsubscribed: "call P A s (ps_unsubscribe s sub_id)"
| key_set: "ps_set_signing_key P X s k = (s', r) \<Longrightarrow> call P A s s'"

inductive session :: "('d, 't, 'v, 'sk, 'pk) platform \<Rightarrow> 'o py_api \<Rightarrow> ('d, 'sk, 'pk, 'cb) py_store \<Rightarrow> bool" for P A where
  created: "ps_new P walls i (Some ont) None = Some (Inr s) \<Longrightarrow> session P A s"
| called: "session P A s \<Longrightarrow> call P A s s' \<Longrightarrow> session P A s'"

lemma in_step_frame [simp]:
  "in_step P (s\<lparr>ps_node_types := m\<rparr>) = in_step P s" "in_step P (s\<lparr>ps_calls := c\<rparr>) = in_step P s"
  "in_step P (s\<lparr>ps_subscribers := subs\<rparr>) = in_step P s" "in_step P (s\<lparr>ps_next_sub_id := x\<rparr>) = in_step P s"
  "in_step P (s\<lparr>ps_signing_key := k\<rparr>) = in_step P s" "log_sound P (s\<lparr>ps_ontology := ont\<rparr>) = log_sound P s"
  by (simp_all add: in_step_def log_sound_def)

lemma written_frame [simp]: "create_entry P (s\<lparr>ps_node_types := m\<rparr>) op next refs c a = create_entry P s op next refs c a"
  by (simp add: create_entry_def)

lemma release_freed_frame: "\<exists>calls. fst (release_freed all hs s n) = s\<lparr>ps_calls := calls\<rparr>"
proof (induction all hs s n rule: release_freed.induct)
  case (1 all s freed)
  then show ?case by (auto intro: exI [of _ "ps_calls s"])
next
  case (2 all h hs s freed)
  then show ?case by (auto simp: notify_subscribers_def split: option.splits)
qed

text \<open>A rebuild brings a store with a sound log in step, and finds nothing to change in a store that is.\<close>

lemma revalidate_in_step:
  assumes "log_sound P s"
  shows "\<exists>s' n all. ps_revalidate P s = Some (s', n) \<and> in_step P s' \<and> entries_since (ps_oplog s) None = Some all \<and>
    ps_graph s' = rebuild (pf_env P) (ps_graph s) all \<and> ps_backend s' = ps_backend s \<and> ps_clock s' = ps_clock s \<and>
    ps_node_types s' = live_node_types (ps_graph s')"
proof -
  obtain log all where log: "ps_backend s = Memory log" "entries_since log None = Some all" using assms by (auto simp: log_sound_def)
  let ?g = "rebuild (pf_env P) (ps_graph s) all"
  let ?s = "s\<lparr>ps_graph := ?g, ps_node_types := live_node_types ?g, ps_ontology := gr_ontology ?g\<rparr>"
  obtain s' n where run: "ps_revalidate P s = Some (s', n)" and frame: "\<exists>calls. s' = ?s\<lparr>ps_calls := calls\<rparr>"
    using release_freed_frame [of all "map fst (gr_quarantined (ps_graph s))" ?s 0] log
    by (cases "release_freed all (map fst (gr_quarantined (ps_graph s))) ?s 0") (auto simp: ps_revalidate_def Let_def)
  have "?g = rebuild (pf_env P) ?g all" by (subst (1 2) rebuild_from_base) simp
  then have "in_step P ?s" using assms log by (auto simp: in_step_def log_sound_def)
  then show ?thesis using run frame log by auto
qed

lemma extend_in_step:
  assumes s: "in_step P s" and fresh: "\<And>ext. extension = Some ext \<Longrightarrow> unused P wall s (ExtendOntology ext)"
    and run: "ps_extend_ontology P wall s parsed extension = Some (s', r)"
  shows "in_step P s'"
proof (cases "s' = s")
  case False
  then have "\<exists>ext s1 r1. extension = Some ext \<and> ps_append P wall s (ExtendOntology ext) = (s1, r1) \<and>
    (\<forall>err. r1 = Inl err \<longrightarrow> s' = s1) \<and> (\<forall>h. r1 = Inr h \<longrightarrow> (\<exists>ont n. ps_revalidate P (s1\<lparr>ps_ontology := ont\<rparr>) = Some (s', n)))"
    using run by (auto simp: ps_extend_ontology_def split: sum.splits option.splits prod.splits)
  then obtain ext s1 r1 where app: "extension = Some ext" "ps_append P wall s (ExtendOntology ext) = (s1, r1)"
    "\<forall>err. r1 = Inl err \<longrightarrow> s' = s1" "\<forall>h. r1 = Inr h \<longrightarrow> (\<exists>ont n. ps_revalidate P (s1\<lparr>ps_ontology := ont\<rparr>) = Some (s', n))" by blast
  have op: "\<not> is_checkpoint (ExtendOntology ext)" by (simp add: is_checkpoint_def)
  have sound: "log_sound P s" using s by (simp add: in_step_def)
  note L = log_sound_append [OF sound op fresh [OF app(1), unfolded unused_def] app(2)]
  show ?thesis
  proof (cases r1)
    case (Inl err)
    then show ?thesis using app(3) L(1,3) s by (auto simp: in_step_def)
  next
    case (Inr h)
    then obtain ont n where "ps_revalidate P (s1\<lparr>ps_ontology := ont\<rparr>) = Some (s', n)" using app(4) by blast
    then show ?thesis using revalidate_in_step [of P "s1\<lparr>ps_ontology := ont\<rparr>"] L(1) by auto
  qed
qed (use s in simp)

lemma rebuild_root: "en_payload e = DefineOntology ont \<Longrightarrow> rebuild E g [e] = graph_new (gr_base_ontology g)"
  by (cases g) (simp add: rebuild_def graph_new_def Let_def fold_ontology_step_def is_extend_def apply_inner.simps)

lemma created_in_step:
  assumes "ps_new P walls i (Some ont) None = Some (Inr s)"
  shows "in_step P s"
proof -
  let ?c = "tick (walls 1) (clock_new (walls 0) i)"
  let ?e = "entry_new (env_hash (pf_env P)) (DefineOntology ont) [] [] ?c i"
  have s: "s = fresh_store (Memory (oplog_new ?e)) (graph_new ont) [] i ?c ont"
    using assms by (auto simp: ps_new_def Let_def split: sum.splits)
  have e: "verify_hash (env_hash (pf_env P)) ?e" "en_next ?e = []" "en_refs ?e = []" "en_clock ?e = ?c" "en_payload ?e = DefineOntology ont"
    by (simp_all add: entry_new_def verify_hash_def)
  have "rebuild (pf_env P) (graph_new ont) [?e] = graph_new ont" using rebuild_root [OF e(5)] by simp
  moreover have "well_linked (oplog_new ?e)" using e by (auto simp: well_linked_def oplog_get_def oplog_new_def split: if_splits)
  moreover have "ol_entries (oplog_new ?e) \<noteq> []" by (simp add: oplog_new_def)
  ultimately show ?thesis
    using listing_singleton [OF e(2,3)] oplog_new_inv [OF e(1,2)] e(4,5)
    by (auto simp: in_step_def log_sound_def s fresh_store_def entry_all_def)
qed

lemma plain_ops [simp]:
  "plain_op (AddNode i t st l ps)" "plain_op (AddEdge i t src tgt ps)" "plain_op (UpdateProperty i k v)"
  "plain_op (RemoveNode i)" "plain_op (RemoveEdge i)"
  by (simp_all add: plain_op_def is_extend_def is_checkpoint_def)

text \<open>
  What a call amounts to: nothing that the graph depends on, one append of an operation without schema
  content whose values respect the limits, an extension, or a rebuild.
\<close>

abbreviation fitting_op :: "graph_op \<Rightarrow> bool" where
  "fitting_op \<equiv> op_all (\<lambda>_. True) (value_fits 0)"

lemma convert_props_fits: "convert_props A props = Inr ps \<Longrightarrow> values_all (value_fits 0) ps"
  using from_python_fits(3) [of A _ 0 "[]" ps] by (auto simp: convert_props_def values_all_def bt_wf_def split: option.splits)

lemma call_effect:
  assumes "call P A s s'"
  obtains (quiet) "ps_backend s' = ps_backend s" "ps_graph s' = ps_graph s" "ps_clock s' = ps_clock s" "ps_ontology s' = ps_ontology s"
  | (wrote) wall op m s1 r m' where "plain_op op" "fitting_op op" "\<not> is_define_ontology op" "unused P wall s op"
      "ps_append P wall (s\<lparr>ps_node_types := m\<rparr>) op = (s1, r)" "s' = s1\<lparr>ps_node_types := m'\<rparr>"
  | (extended) wall extension parsed r where "\<And>ext. extension = Some ext \<Longrightarrow> unused P wall s (ExtendOntology ext)"
      "ps_extend_ontology P wall s parsed extension = Some (s', r)"
  | (revalidated) n where "ps_revalidate P s = Some (s', n)"
  using assms
proof cases
  case (added_node props wall i t st l r)
  show ?thesis
  proof (cases "s' = s")
    case False
    with added_node(2) obtain ps s1 r1 where w: "convert_props A props = Inr ps" "ps_append P wall s (AddNode i t st l ps) = (s1, r1)"
      "s' = s1 \<or> s' = s1\<lparr>ps_node_types := hm_insert i t (ps_node_types s1)\<rparr>"
      by (auto simp: ps_add_node_def split: sum.splits prod.splits)
    have "s1 = s1\<lparr>ps_node_types := ps_node_types s1\<rparr>" by simp
    with w(3) obtain m' where "s' = s1\<lparr>ps_node_types := m'\<rparr>" by metis
    with w(1,2) have "convert_props A props = Inr ps"
      "ps_append P wall (s\<lparr>ps_node_types := ps_node_types s\<rparr>) (AddNode i t st l ps) = (s1, r1)" "s' = s1\<lparr>ps_node_types := m'\<rparr>" by simp_all
    then show ?thesis
      using wrote [of "AddNode i t st l ps" wall "ps_node_types s" s1 r1 m'] added_node(1) convert_props_fits [OF w(1)] by (simp add: is_define_ontology_def)
  qed (use quiet in simp)
next
  case (added_edge props wall i t src tgt r)
  show ?thesis
  proof (cases "s' = s")
    case False
    with added_edge(2) obtain ps where ps: "convert_props A props = Inr ps"
      "ps_append P wall (s\<lparr>ps_node_types := ps_node_types s\<rparr>) (AddEdge i t src tgt ps) = (s', r)"
      by (auto simp: ps_add_edge_def split: sum.splits option.splits)
    with added_edge(1) show ?thesis using wrote [of "AddEdge i t src tgt ps" wall "ps_node_types s" s' r "ps_node_types s'"] convert_props_fits [OF ps(1)] by (simp add: is_define_ontology_def)
  qed (use quiet in simp)
next
  case (updated obj wall i k r)
  show ?thesis
  proof (cases "s' = s")
    case False
    with updated(2) obtain v where v: "py_to_value A obj = Inr v"
      "ps_append P wall (s\<lparr>ps_node_types := ps_node_types s\<rparr>) (UpdateProperty i k v) = (s', r)"
      by (auto simp: ps_update_property_def split: sum.splits)
    then have "value_fits 0 v" using from_python_fits(1) [of A obj 0 v] by (simp add: py_to_value_def)
    then show ?thesis using v wrote [of "UpdateProperty i k v" wall "ps_node_types s" s' r "ps_node_types s'"] updated(1) by (simp add: is_define_ontology_def)
  qed (use quiet in simp)
next
  case (removed_node wall i r)
  then show ?thesis
    using wrote [of "RemoveNode i" wall "hm_remove i (ps_node_types s)" s' r "ps_node_types s'"] by (simp add: ps_remove_node_def is_define_ontology_def)
next
  case (removed_edge wall i r)
  then show ?thesis
    using wrote [of "RemoveEdge i" wall "ps_node_types s" s' r "ps_node_types s'"] by (simp add: ps_remove_edge_def is_define_ontology_def)
next
  case (extended extension wall parsed r)
  then show ?thesis using that(3) by blast
next
  case (revalidated n)
  then show ?thesis using that(4) by blast
qed (use quiet in \<open>auto simp: ps_subscribe_def ps_unsubscribe_def ps_set_signing_key_def split: option.splits if_splits\<close>)

lemma call_in_step:
  assumes "call P A s s'" "in_step P s"
  shows "in_step P s'"
  using assms(1)
proof (cases rule: call_effect)
  case quiet
  then show ?thesis using assms(2) by (simp add: in_step_def log_sound_def)
next
  case (wrote wall op m s1 r m')
  then have "in_step P s1"
    using assms(2) in_step_append [of P "s\<lparr>ps_node_types := m\<rparr>" op wall s1 r] by (simp add: unused_def)
  then show ?thesis using wrote(6) by simp
next
  case (extended wall extension parsed r)
  then show ?thesis using extend_in_step [OF assms(2)] by blast
next
  case (revalidated n)
  then show ?thesis using revalidate_in_step [of P s] assms(2) by (auto simp: in_step_def [of P s])
qed

lemma session_in_step: "session P A s \<Longrightarrow> in_step P s"
  by (induction rule: session.induct) (auto intro: created_in_step call_in_step)

section \<open>A later write wins\<close>

lemma later_wins: "as_tuple c \<le> t \<Longrightarrow> t < as_tuple d \<Longrightarrow> clock_wins d c"
  using less_of_tuple [of c d] by (auto simp: clock_wins_iff)

lemma merge_later:
  assumes "clocks_upto t clocks" "t < as_tuple c" "distinct (map fst kvs)"
  shows "map_of (fst (merge_properties_lww props clocks kvs c)) = map_of props ++ map_of kvs"
proof -
  have "map_of (fst (merge_properties_lww props clocks kvs c)) = map_of props ++ map_of kvs"
    if "\<forall>k \<in> fst ` set kvs. \<forall>c'. map_of clocks k = Some c' \<longrightarrow> as_tuple c' \<le> t" "distinct (map fst kvs)" for props clocks kvs
    using that
  proof (induction kvs arbitrary: props clocks)
    case (Cons kv kvs)
    obtain k v where kv: "kv = (k, v)" by (cases kv)
    have "dominated clocks k c" using Cons.prems(1) later_wins [OF _ assms(2)] by (auto simp: dominated_def kv split: option.splits)
    moreover have "\<forall>k' \<in> fst ` set kvs. \<forall>c'. map_of (AList.update k c clocks) k' = Some c' \<longrightarrow> as_tuple c' \<le> t"
      using Cons.prems by (auto simp: kv update_conv' image_iff)
    ultimately show ?case
      using Cons.IH [of "AList.update k c clocks" "bt_insert k v props"] Cons.prems(2)
      by (auto simp: kv bt_get_insert map_add_def fun_eq_iff map_of_eq_None_iff split: option.splits)
  qed simp
  then show ?thesis using assms by (auto simp: clocks_all_def)
qed

lemma retry_pending_nodes: "gr_nodes (retry_pending_edges E g) = gr_nodes g"
proof -
  have "gr_nodes (retry_edge E e g) = gr_nodes g" for e g
    by (auto simp: retry_edge_def Let_def admit_edge_def apply_add_edge_def case_prod_beta quarantine_def unquarantine_def
        split: graph_op.splits option.splits sum.splits)
  then have "gr_nodes (fold (retry_edge E) es g) = gr_nodes g" for es g by (induction es arbitrary: g) simp_all
  then show ?thesis by (simp add: retry_pending_edges_def)
qed

lemma add_node_later:
  assumes "graph_upto t g" "t < as_tuple (en_clock e)" "en_payload e = AddNode i ty st l ps" "distinct (map fst ps)"
    "validate_node (env_regex E) (gr_ontology g) ty st ps = Inr ()"
  shows "\<exists>n. get_node (graph_apply E g e) i = Some n \<and> n_label n = l \<and> n_subtype n = st \<and>
    n_type n = (case hm_get (gr_nodes g) i of Some m \<Rightarrow> n_type m | None \<Rightarrow> ty) \<and>
    (\<forall>k v. hm_get ps k = Some v \<longrightarrow> bt_get (n_properties n) k = Some v)"
proof -
  have app: "graph_apply E g e = retry_pending_edges E (apply_add_node (unquarantine g e) i ty st l ps (en_clock e))"
    using assms(3,5) by (simp add: graph_apply_def apply_inner.simps apply_add_node_entry_def validate_node_def)
  show ?thesis
  proof (cases "hm_get (gr_nodes g) i")
    case None
    then show ?thesis
      by (simp add: app get_node_def retry_pending_nodes apply_add_node_def unquarantine_def update_conv')
  next
    case (Some m)
    then have "node_upto t m" using assms(1) by (auto simp: graph_all_def)
    then have m: "clock_wins (en_clock e) (n_last_clock m)" "clocks_upto t (n_property_clocks m)"
      using later_wins [OF _ assms(2)] by (auto simp: node_all_def)
    show ?thesis
      using Some m(1) merge_later [OF m(2) assms(2,4), of "n_properties m"]
      by (auto simp: app get_node_def retry_pending_nodes apply_add_node_def unquarantine_def update_conv' Let_def case_prod_beta map_add_def)
  qed
qed

lemma update_later:
  assumes "graph_upto t g" "t < as_tuple (en_clock e)" "en_payload e = UpdateProperty i k v" "get_node g i = Some n"
    "validate_property_update (env_regex E) (gr_ontology g) (n_type n) (n_subtype n) k v = Inr ()"
  shows "\<exists>n'. get_node (graph_apply E g e) i = Some n' \<and> bt_get (n_properties n') = (bt_get (n_properties n))(k \<mapsto> v)"
proof -
  have n: "hm_get (gr_nodes g) i = Some n" "\<not> n_tombstoned n" using assms(4) by (auto simp: get_node_Some)
  then have "clocks_upto t (n_property_clocks n)" using assms(1) by (auto simp: graph_all_def node_all_def)
  then have "dominated (n_property_clocks n) k (en_clock e)"
    using later_wins [OF _ assms(2)] by (auto simp: dominated_def clocks_all_def split: option.splits)
  then show ?thesis
    using n assms(3,5)
    by (auto simp: graph_apply_def apply_inner.simps apply_update_entry_def apply_update_property_def get_node_def update_conv' Let_def
        bt_get_insert unquarantine_def)
qed

lemma remove_later:
  assumes "graph_upto t g" "t < as_tuple (en_clock e)" "en_payload e = RemoveNode i"
  shows "get_node (graph_apply E g e) i = None"
proof (cases "hm_get (gr_nodes g) i")
  case (Some n)
  then have "clock_wins (en_clock e) (n_last_add_clock n)"
    using assms(1) later_wins [OF _ assms(2)] by (auto simp: graph_all_def node_all_def)
  then show ?thesis
    using assms(3) Some by (simp add: graph_apply_def apply_inner.simps apply_remove_node_def get_node_def update_conv' unquarantine_def)
qed (use assms(3) in \<open>simp add: graph_apply_def apply_inner.simps apply_remove_node_def get_node_def unquarantine_def\<close>)


section \<open>What a session guarantees\<close>

text \<open>
  C1. The graph never drifts from the log. In a session (a store in memory, after any sequence of the local calls
  listed at \<open>call\<close>, refused ones included; no \<^verbatim>\<open>compact\<close> and no merge) listing the log does not panic, the graph that
  was kept up to date call by call is exactly the one a rebuild from the log computes, the ontology in
  force is the graph's, and no entry is ahead of the store's clock. If in the log an edge id always names the
  same edge, a rebuild in another process, with another iteration order of its hash maps, gives the same graph.
  An explicit \<^verbatim>\<open>revalidate\<close> changes neither the log, the clock, the graph nor the ontology; it resets the map of
  node types to the types of the visible nodes.
\<close>

theorem session_consistent:
  assumes "session P A s" and "iter_ok (pf_env P)"
  shows "\<exists>all s' n. entries_since (ps_oplog s) None = Some all \<and>
    ps_graph s = rebuild (pf_env P) (graph_new (gr_base_ontology (ps_graph s))) all \<and> ps_ontology s = gr_ontology (ps_graph s) \<and>
    (\<forall>e \<in> set all. as_tuple (en_clock e) \<le> as_tuple (ps_clock s)) \<and>
    (\<forall>E. iter_ok E \<and> same_env (pf_env P) E \<and> log_edges_agree (env_hash (pf_env P)) all \<longrightarrow>
      view (rebuild E (graph_new (gr_base_ontology (ps_graph s))) all) = view (ps_graph s)) \<and>
    ps_revalidate P s = Some (s', n) \<and> ps_oplog s' = ps_oplog s \<and> ps_clock s' = ps_clock s \<and> ps_graph s' = ps_graph s \<and>
    ps_ontology s' = ps_ontology s \<and> (\<forall>i. hm_get (ps_node_types s') i = map_option n_type (get_node (ps_graph s) i))"
proof -
  have s: "in_step P s" by (rule session_in_step [OF assms(1)])
  then obtain all where all: "entries_since (ps_oplog s) None = Some all" "ps_graph s = rebuild (pf_env P) (ps_graph s) all"
    by (auto simp: in_step_def)
  obtain s' n where r: "ps_revalidate P s = Some (s', n)" "in_step P s'" "ps_graph s' = rebuild (pf_env P) (ps_graph s) all"
    "ps_backend s' = ps_backend s" "ps_clock s' = ps_clock s" "ps_node_types s' = live_node_types (ps_graph s')"
    using revalidate_in_step [of P s] s all(1) by (auto simp: in_step_def [of P s])
  have base: "ps_graph s = rebuild (pf_env P) (graph_new (gr_base_ontology (ps_graph s))) all"
    using all(2) rebuild_from_base [of "pf_env P" "ps_graph s" all] by simp
  have "view (rebuild E (graph_new (gr_base_ontology (ps_graph s))) all) = view (ps_graph s)"
    if "iter_ok E \<and> same_env (pf_env P) E \<and> log_edges_agree (env_hash (pf_env P)) all" for E
    using rebuild_any_order [OF assms(2) _ _ refl, of E all "graph_new (gr_base_ontology (ps_graph s))"] that base by simp
  moreover have "\<forall>e \<in> set all. as_tuple (en_clock e) \<le> as_tuple (ps_clock s)"
    using s all(1) by (auto simp: in_step_def log_sound_def entry_all_def)
  moreover have "graph_inv (ps_graph s)" using rebuild_inv [OF assms(2), of "ps_graph s" all] all(2) by simp
  then have "hm_get (ps_node_types s') i = map_option n_type (get_node (ps_graph s) i)" for i
    using live_node_types_exact [of "ps_graph s"] r(3,6) all(2) by simp
  moreover have "ps_oplog s' = ps_oplog s" using r(4) by simp
  moreover have "ps_ontology s = gr_ontology (ps_graph s)" "ps_ontology s' = gr_ontology (ps_graph s')" using s r(2) by (simp_all add: in_step_def)
  ultimately show ?thesis using all base r(1,3,5) by metis
qed

lemma shop_writes:
  "unused demo_platform 20 empty_shop (AddNode ''x'' ''item'' (Some ''book'') ''x'' [])"
  "\<exists>s h. ps_add_node demo_platform std_api 20 empty_shop ''x'' ''item'' ''x'' None (Some ''book'') = (s, Inr h)"
  by (simp_all add: unused_def ps_add_node_def convert_props_def shop_eval)

theorem session_consistent_witness:
  "\<exists>s h all. ps_add_node demo_platform std_api 20 empty_shop ''x'' ''item'' ''x'' None (Some ''book'') = (s, Inr h) \<and>
     entries_since (ps_oplog s) None = Some all \<and> ps_graph s = rebuild (pf_env demo_platform) (graph_new (gr_base_ontology (ps_graph s))) all \<and>
     (\<exists>s' n. ps_revalidate demo_platform s = Some (s', n) \<and> ps_graph s' = ps_graph s)"
proof -
  obtain s h where s: "ps_add_node demo_platform std_api 20 empty_shop ''x'' ''item'' ''x'' None (Some ''book'') = (s, Inr h)"
    using shop_writes(2) by blast
  have "session demo_platform std_api s"
    by (rule session.called [OF session.created [OF empty_shop_new] call.added_node [OF _ s]]) (use shop_writes(1) in \<open>simp add: convert_props_def\<close>)
  from session_consistent [OF this demo_iter_ok] s show ?thesis by blast
qed

lemma session_upto:
  assumes "session P A s" "iter_ok (pf_env P)" shows "graph_upto (as_tuple (ps_clock s)) (ps_graph s)"
proof -
  have "in_step P s" by (rule session_in_step [OF assms(1)])
  then obtain all where "ps_graph s = rebuild (pf_env P) (ps_graph s) all" "\<forall>e \<in> set all. entry_upto (as_tuple (ps_clock s)) e"
    by (auto simp: in_step_def log_sound_def)
  then show ?thesis using rebuild_all [OF assms(2)] by metis
qed

text \<open>
  C7. A program reads its own writes. In a session whose clock still advances, an accepted \<^verbatim>\<open>add_node\<close> makes the
  node visible with its label, subtype and properties (its type is the requested one unless the id was
  used before), an accepted \<^verbatim>\<open>update_property\<close> of a visible node sets exactly that property, and an accepted
  \<^verbatim>\<open>remove_node\<close> makes the node invisible.
\<close>

theorem read_your_writes:
  assumes s: "session P A s" "iter_ok (pf_env P)" and clock: "clk_logical (ps_clock s) \<noteq> - 1 \<or> clk_physical (ps_clock s) < wall"
  shows "(ps_add_node P A wall s i t l props st = (s', Inr h) \<longrightarrow>
      (\<exists>ps n. convert_props A props = Inr ps \<and> get_node (ps_graph s') i = Some n \<and> n_label n = l \<and> n_subtype n = st \<and>
        n_type n = (case hm_get (gr_nodes (ps_graph s)) i of Some m \<Rightarrow> n_type m | None \<Rightarrow> t) \<and>
        (\<forall>k v. bt_get ps k = Some v \<longrightarrow> bt_get (n_properties n) k = Some v))) \<and>
    (ps_update_property P A wall s i k obj = (s', Inr h) \<longrightarrow> get_node (ps_graph s) i = Some n \<longrightarrow>
      (\<exists>v n'. py_to_value A obj = Inr v \<and> get_node (ps_graph s') i = Some n' \<and> bt_get (n_properties n') = (bt_get (n_properties n))(k \<mapsto> v))) \<and>
    (ps_remove_node P wall s i = (s', Inr h) \<longrightarrow> get_node (ps_graph s') i = None)" (is "?add \<and> ?update \<and> ?remove")
proof -
  let ?t = "as_tuple (ps_clock s)" and ?e = "\<lambda>op. written P wall s op"
  note upto = session_upto [OF s]
  have later: "?t < as_tuple (en_clock (?e op))" for op using clock tick_advances [of "ps_clock s" wall] by simp
  have ont: "ps_ontology s = gr_ontology (ps_graph s)" using session_in_step [OF s(1)] by (simp add: in_step_def)
  have app: "ps_graph s1 = graph_apply (pf_env P) (ps_graph s) (?e op) \<and> validate_entry_payload P s (?e op) = Inr ()"
    if "ps_append P wall s op = (s1, Inr h)" for s1 op using append_ok [OF that] by auto
  have ?add
  proof
    assume "ps_add_node P A wall s i t l props st = (s', Inr h)"
    then obtain ps s1 where ps: "convert_props A props = Inr ps" "ps_append P wall s (AddNode i t st l ps) = (s1, Inr h)" "ps_graph s' = ps_graph s1"
      by (auto simp: ps_add_node_def split: sum.splits prod.splits)
    have "distinct (map fst ps)"
      using ps(1) from_python_fits(3) [of A _ 0 "[]" ps] by (auto simp: convert_props_def bt_wf_def intro: bt_wf_distinct split: option.splits)
    moreover have "validate_node (env_regex (pf_env P)) (gr_ontology (ps_graph s)) t st ps = Inr ()"
      using app [OF ps(2)] by (simp add: validate_entry_payload_def ont)
    ultimately show "\<exists>ps n. convert_props A props = Inr ps \<and> get_node (ps_graph s') i = Some n \<and> n_label n = l \<and> n_subtype n = st \<and>
        n_type n = (case hm_get (gr_nodes (ps_graph s)) i of Some m \<Rightarrow> n_type m | None \<Rightarrow> t) \<and>
        (\<forall>k v. bt_get ps k = Some v \<longrightarrow> bt_get (n_properties n) k = Some v)"
      using add_node_later [OF upto later, of "AddNode i t st l ps"] ps(1,3) app [OF ps(2)] by simp
  qed
  moreover have ?update
  proof (intro impI)
    assume "ps_update_property P A wall s i k obj = (s', Inr h)" and n: "get_node (ps_graph s) i = Some n"
    then obtain v where v: "py_to_value A obj = Inr v" "ps_append P wall s (UpdateProperty i k v) = (s', Inr h)"
      by (auto simp: ps_update_property_def split: sum.splits)
    have "validate_property_update (env_regex (pf_env P)) (gr_ontology (ps_graph s)) (n_type n) (n_subtype n) k v = Inr ()"
      using app [OF v(2)] n by (simp add: validate_entry_payload_def ont)
    then show "\<exists>v n'. py_to_value A obj = Inr v \<and> get_node (ps_graph s') i = Some n' \<and> bt_get (n_properties n') = (bt_get (n_properties n))(k \<mapsto> v)"
      using update_later [OF upto later, of "UpdateProperty i k v"] n v(1) app [OF v(2)] by simp
  qed
  moreover have ?remove
  proof
    assume "ps_remove_node P wall s i = (s', Inr h)"
    then have "ps_append P wall (s\<lparr>ps_node_types := hm_remove i (ps_node_types s)\<rparr>) (RemoveNode i) = (s', Inr h)" by (simp add: ps_remove_node_def)
    from append_ok [OF this] have "ps_graph s' = graph_apply (pf_env P) (ps_graph s) (?e (RemoveNode i))" by auto
    then show "get_node (ps_graph s') i = None" using remove_later [OF upto later] by simp
  qed
  ultimately show ?thesis by blast
qed

theorem read_your_writes_witness:
  "\<exists>s h n. ps_add_node demo_platform std_api 20 empty_shop ''x'' ''item'' ''x'' None (Some ''book'') = (s, Inr h) \<and>
     get_node (ps_graph s) ''x'' = Some n \<and> n_type n = ''item'' \<and> n_subtype n = Some ''book''"
proof -
  obtain s h where s: "ps_add_node demo_platform std_api 20 empty_shop ''x'' ''item'' ''x'' None (Some ''book'') = (s, Inr h)"
    using shop_writes(2) by blast
  have "clk_logical (ps_clock empty_shop) \<noteq> - 1 \<or> clk_physical (ps_clock empty_shop) < 20"
    "hm_get (gr_nodes (ps_graph empty_shop)) ''x'' = None"
    by (simp_all add: shop_eval)
  moreover from this(1) have "\<exists>ps n. convert_props std_api None = Inr ps \<and> get_node (ps_graph s) ''x'' = Some n \<and> n_label n = ''x'' \<and>
      n_subtype n = Some ''book'' \<and> n_type n = (case hm_get (gr_nodes (ps_graph empty_shop)) ''x'' of Some m \<Rightarrow> n_type m | None \<Rightarrow> ''item'') \<and>
      (\<forall>k v. bt_get ps k = Some v \<longrightarrow> bt_get (n_properties n) k = Some v)"
    by (rule conjunct1 [OF read_your_writes [OF session.created [OF empty_shop_new, of std_api] demo_iter_ok], THEN mp, OF _ s])
  ultimately show ?thesis using s by auto
qed

end
