(* ===== verification/Silk_Compaction.thy ===== *)
theory Silk_Compaction
  imports Silk_Session
begin


text \<open>
  What epoch compaction keeps (\<^verbatim>\<open>compact\<close> and \<^verbatim>\<open>build_checkpoint_ops\<close> of \<^verbatim>\<open>src/src/python/mod.rs\<close>, with the replay of a
  checkpoint in \<^verbatim>\<open>graph.rs\<close>). The checkpoint writes every live node and edge as an addition without
  properties followed by one update per property; replaying it gives the same live nodes and edges back,
  their clocks keeping their times and losing their authors.
\<close>

declare map_of_eq_Some_iff [simp del] Some_eq_map_of_iff [simp del]

section \<open>The replay of a checkpoint as a fold\<close>

text \<open>A clock read back from a checkpoint: its time, and the author of the checkpoint.\<close>

definition stamp :: "string \<Rightarrow> hybrid_clock \<Rightarrow> hybrid_clock" where
  "stamp a c = with_values a (clk_physical c) (clk_logical c)"

definition replay_item :: "env \<Rightarrow> string \<Rightarrow> graph_op \<times> hybrid_clock \<Rightarrow> graph \<Rightarrow> graph" where
  "replay_item E a item g =
     (case fst item of DefineOntology _ \<Rightarrow> g
      | _ \<Rightarrow> apply_inner E g (entry_new (env_hash E) (fst item) [] [] (stamp a (snd item)) a) SkipRequired True)"

lemma apply_checkpoint_items:
  assumes "drop i op_clocks = map (\<lambda>item. as_tuple (snd item)) items"
  shows "apply_checkpoint E g e False i (map fst items) op_clocks = fold (replay_item E (en_author e)) items g"
  using assms
proof (induction items arbitrary: i g)
  case (Cons item items)
  then have i: "i < length op_clocks" by (metis drop_all list.simps(3) map_is_Nil_conv not_le neq_Nil_conv)
  then have "drop i op_clocks = op_clocks ! i # drop (Suc i) op_clocks" by (rule Cons_nth_drop_Suc [symmetric])
  then have "op_clocks ! i = as_tuple (snd item)" "drop (Suc i) op_clocks = map (\<lambda>item. as_tuple (snd item)) items"
    using Cons.prems by auto
  with Cons.IH [of "Suc i"] i show ?case
    by (simp add: replay_item_def stamp_def as_tuple_def split: graph_op.splits)
qed simp

section \<open>Nodes\<close>

text \<open>A node as the replay leaves it, after a part \<open>ps\<close> of its properties.\<close>

definition restamped_part :: "string \<Rightarrow> node \<Rightarrow> properties \<Rightarrow> node" where
  "restamped_part a n ps =
     (let clock = (\<lambda>k. stamp a (prop_clock (n_property_clocks n) (n_last_clock n) k)) in
      n\<lparr>n_properties := ps, n_property_clocks := map (\<lambda>(k, _). (k, clock k)) ps,
        n_last_clock := fold (\<lambda>(k, _). max (clock k)) ps (stamp a (n_last_add_clock n)),
        n_last_add_clock := stamp a (n_last_add_clock n), n_tombstoned := False\<rparr>)"

definition restamp_node :: "string \<Rightarrow> node \<Rightarrow> node" where
  "restamp_node a n = restamped_part a n (n_properties n)"

lemma restamped_part_simps [simp]:
  "n_id (restamped_part a n ps) = n_id n" "n_type (restamped_part a n ps) = n_type n"
  "n_subtype (restamped_part a n ps) = n_subtype n" "n_properties (restamped_part a n ps) = ps"
  "n_label (restamped_part a n ps) = n_label n" "\<not> n_tombstoned (restamped_part a n ps)"
  by (simp_all add: restamped_part_def Let_def)

lemma restamp_node_simps [simp]:
  "n_id (restamp_node a n) = n_id n" "n_type (restamp_node a n) = n_type n" "n_subtype (restamp_node a n) = n_subtype n"
  "n_label (restamp_node a n) = n_label n" "n_properties (restamp_node a n) = n_properties n" "\<not> n_tombstoned (restamp_node a n)"
  by (simp_all add: restamp_node_def)

lemma hm_insert_last: "k \<notin> hm_keys xs \<Longrightarrow> AList.update k v (xs @ [(k, u)]) = xs @ [(k, v)]"
  by (induction xs) auto

lemma hm_get_last: "k \<notin> hm_keys xs \<Longrightarrow> map_of (xs @ [(k, u)]) k = Some u"
  by (induction xs) auto

lemma bt_wf_snoc: "bt_wf (ps @ [(k, v)]) \<Longrightarrow> bt_insert k v ps = ps @ [(k, v)] \<and> k \<notin> hm_keys ps"
  using bt_wf_append [of ps k v "[]"] bt_insert_last [of ps k v] by auto

lemma clock_wins_max: "(if clock_wins c l then c else l) = max c l"
  by (auto simp: clock_wins_iff max_def)

lemma replay_node_property:
  assumes nodes: "gr_nodes g = xs @ [(n_id n, restamped_part a n ps)]" "n_id n \<notin> hm_keys xs"
    and q: "gr_quarantined g = []" and wf: "bt_wf (ps @ [(k, v)])"
    and ok: "validate_property_update (env_regex E) (gr_ontology g) (n_type n) (n_subtype n) k v = Inr ()"
  shows "replay_item E a (UpdateProperty (n_id n) k v, prop_clock (n_property_clocks n) (n_last_clock n) k) g =
    g\<lparr>gr_nodes := xs @ [(n_id n, restamped_part a n (ps @ [(k, v)]))]\<rparr>"
proof -
  let ?m = "restamped_part a n ps" and ?c = "stamp a (prop_clock (n_property_clocks n) (n_last_clock n) k)"
  have k: "k \<notin> hm_keys ps" "bt_insert k v ps = ps @ [(k, v)]" using bt_wf_snoc [OF wf] by auto
  have clk: "k \<notin> hm_keys (n_property_clocks ?m)" using k(1) by (force simp: restamped_part_def Let_def)
  have get: "hm_get (gr_nodes g) (n_id n) = Some ?m" unfolding nodes(1) by (rule hm_get_last [OF nodes(2)])
  have "dominated (n_property_clocks ?m) k ?c" using clk by (simp add: dominated_def map_of_eq_None_iff [THEN iffD2])
  moreover have "restamped_part a n (ps @ [(k, v)]) =
      ?m\<lparr>n_properties := ps @ [(k, v)], n_property_clocks := AList.update k ?c (n_property_clocks ?m),
         n_last_clock := (if clock_wins ?c (n_last_clock ?m) then ?c else n_last_clock ?m)\<rparr>"
    unfolding hm_insert_fresh [OF clk] clock_wins_max by (simp add: restamped_part_def Let_def)
  ultimately have "replay_item E a (UpdateProperty (n_id n) k v, prop_clock (n_property_clocks n) (n_last_clock n) k) g =
      g\<lparr>gr_nodes := AList.update (n_id n) (restamped_part a n (ps @ [(k, v)])) (gr_nodes g)\<rparr>"
    by (simp add: replay_item_def apply_inner.simps entry_new_def apply_update_entry_def get ok unquarantine_none [OF q]
        apply_update_property_def Let_def k(2))
  then show ?thesis using nodes by (simp add: hm_insert_last)
qed

text \<open>What the replay of a node needs: its type and subtype are known to the ontology, its properties acceptable as updates.\<close>

definition node_replayable :: "env \<Rightarrow> ontology \<Rightarrow> node \<Rightarrow> bool" where
  "node_replayable E ont n \<longleftrightarrow> bt_wf (n_properties n) \<and>
     validate_node_mode (env_regex E) ont (n_type n) (n_subtype n) [] SkipRequired = Inr () \<and>
     (\<forall>(k, v) \<in> set (n_properties n). validate_property_update (env_regex E) ont (n_type n) (n_subtype n) k v = Inr ())"

abbreviation node_updates :: "node \<Rightarrow> properties \<Rightarrow> (graph_op \<times> hybrid_clock) list" where
  "node_updates n \<equiv> map (\<lambda>(k, v). (UpdateProperty (n_id n) k v, prop_clock (n_property_clocks n) (n_last_clock n) k))"

lemma replay_node_updates:
  assumes "gr_nodes g = xs @ [(n_id n, restamped_part a n ps)]" "n_id n \<notin> hm_keys xs" "gr_quarantined g = []"
    "bt_wf (ps @ qs)" "\<forall>(k, v) \<in> set qs. validate_property_update (env_regex E) (gr_ontology g) (n_type n) (n_subtype n) k v = Inr ()"
  shows "fold (replay_item E a) (node_updates n qs) g = g\<lparr>gr_nodes := xs @ [(n_id n, restamped_part a n (ps @ qs))]\<rparr>"
  using assms
proof (induction qs arbitrary: g ps)
  case (Cons q qs)
  obtain k v where q: "q = (k, v)" by (cases q)
  have "bt_wf (ps @ [(k, v)])" using Cons.prems(4) by (auto simp: q bt_wf_def sorted_wrt_append)
  from replay_node_property [OF Cons.prems(1-3) this] Cons.prems(5)
  have step: "replay_item E a (UpdateProperty (n_id n) k v, prop_clock (n_property_clocks n) (n_last_clock n) k) g =
      g\<lparr>gr_nodes := xs @ [(n_id n, restamped_part a n (ps @ [(k, v)]))]\<rparr>" by (simp add: q)
  show ?case
    using Cons.IH [of "g\<lparr>gr_nodes := xs @ [(n_id n, restamped_part a n (ps @ [(k, v)]))]\<rparr>" "ps @ [(k, v)]"] Cons.prems(2-5)
    by (simp add: q step)
qed auto

lemma replay_node:
  assumes "n_id n \<notin> hm_keys (gr_nodes g)" "gr_quarantined g = []" "gr_pending g = []" "node_replayable E (gr_ontology g) n"
  shows "fold (replay_item E a) (node_checkpoint_ops n) g =
    g\<lparr>gr_nodes := gr_nodes g @ [(n_id n, restamp_node a n)], gr_by_type := index_insert (n_type n) (n_id n) (gr_by_type g)\<rparr>"
proof -
  let ?g = "g\<lparr>gr_nodes := gr_nodes g @ [(n_id n, restamped_part a n [])], gr_by_type := index_insert (n_type n) (n_id n) (gr_by_type g)\<rparr>"
  have none: "hm_get (gr_nodes g) (n_id n) = None" using assms(1) by (simp add: hm_get_None_iff)
  have "replay_item E a (AddNode (n_id n) (n_type n) (n_subtype n) (n_label n) [], n_last_add_clock n) g = ?g"
    using assms(2-4) by (simp add: replay_item_def apply_inner.simps entry_new_def apply_add_node_entry_def node_replayable_def
        unquarantine_none apply_add_node_def none retry_pending_edges_def hm_insert_fresh [OF assms(1)] restamped_part_def)
  then have "fold (replay_item E a) (node_checkpoint_ops n) g = fold (replay_item E a) (node_updates n (n_properties n)) ?g"
    by (simp add: node_checkpoint_ops_def)
  also have "\<dots> = ?g\<lparr>gr_nodes := gr_nodes g @ [(n_id n, restamped_part a n ([] @ n_properties n))]\<rparr>"
    by (rule replay_node_updates) (use assms in \<open>auto simp: node_replayable_def\<close>)
  finally show ?thesis by (simp add: restamp_node_def)
qed

lemma replay_nodes:
  assumes "distinct (map n_id ns)" "n_id ` set ns \<inter> hm_keys (gr_nodes g) = {}" "gr_quarantined g = []" "gr_pending g = []"
    "\<forall>n \<in> set ns. node_replayable E (gr_ontology g) n"
  shows "fold (replay_item E a) (concat (map node_checkpoint_ops ns)) g =
    g\<lparr>gr_nodes := gr_nodes g @ map (\<lambda>n. (n_id n, restamp_node a n)) ns,
      gr_by_type := fold (\<lambda>n. index_insert (n_type n) (n_id n)) ns (gr_by_type g)\<rparr>"
  using assms
proof (induction ns arbitrary: g)
  case (Cons n ns)
  have "n_id n \<notin> hm_keys (gr_nodes g)" using Cons.prems(2) by auto
  from replay_node [OF this Cons.prems(3,4)] Cons.prems(5)
  have "fold (replay_item E a) (node_checkpoint_ops n) g =
    g\<lparr>gr_nodes := gr_nodes g @ [(n_id n, restamp_node a n)], gr_by_type := index_insert (n_type n) (n_id n) (gr_by_type g)\<rparr>" by auto
  with Cons.IH [of "g\<lparr>gr_nodes := gr_nodes g @ [(n_id n, restamp_node a n)], gr_by_type := index_insert (n_type n) (n_id n) (gr_by_type g)\<rparr>"]
    Cons.prems show ?case by auto
qed simp

section \<open>Edges\<close>

definition restamped_edge_part :: "string \<Rightarrow> edge \<Rightarrow> properties \<Rightarrow> edge" where
  "restamped_edge_part a e ps =
     (let clock = (\<lambda>k. stamp a (prop_clock (e_property_clocks e) (e_last_clock e) k)) in
      e\<lparr>e_properties := ps, e_property_clocks := map (\<lambda>(k, _). (k, clock k)) ps,
        e_last_clock := fold (\<lambda>(k, _). max (clock k)) ps (stamp a (e_last_add_clock e)),
        e_last_add_clock := stamp a (e_last_add_clock e), e_tombstoned := False\<rparr>)"

definition restamp_edge :: "string \<Rightarrow> edge \<Rightarrow> edge" where
  "restamp_edge a e = restamped_edge_part a e (e_properties e)"

lemma restamped_edge_part_simps [simp]:
  "e_id (restamped_edge_part a e ps) = e_id e" "e_type (restamped_edge_part a e ps) = e_type e"
  "e_source (restamped_edge_part a e ps) = e_source e" "e_target (restamped_edge_part a e ps) = e_target e"
  "e_properties (restamped_edge_part a e ps) = ps" "\<not> e_tombstoned (restamped_edge_part a e ps)"
  by (simp_all add: restamped_edge_part_def Let_def)

lemma replay_edge_property:
  assumes edges: "gr_edges g = xs @ [(e_id e, restamped_edge_part a e ps)]" "e_id e \<notin> hm_keys xs"
    and q: "gr_quarantined g = []" and wf: "bt_wf (ps @ [(k, v)])" and no: "e_id e \<notin> hm_keys (gr_nodes g)"
    and ok: "validate_edge_property_update (env_regex E) (gr_ontology g) (e_type e) k v = Inr ()"
  shows "replay_item E a (UpdateProperty (e_id e) k v, prop_clock (e_property_clocks e) (e_last_clock e) k) g =
    g\<lparr>gr_edges := xs @ [(e_id e, restamped_edge_part a e (ps @ [(k, v)]))]\<rparr>"
proof -
  let ?m = "restamped_edge_part a e ps" and ?c = "stamp a (prop_clock (e_property_clocks e) (e_last_clock e) k)"
  have k: "k \<notin> hm_keys ps" "bt_insert k v ps = ps @ [(k, v)]" using bt_wf_snoc [OF wf] by auto
  have clk: "k \<notin> hm_keys (e_property_clocks ?m)" using k(1) by (force simp: restamped_edge_part_def Let_def)
  have get: "hm_get (gr_edges g) (e_id e) = Some ?m" unfolding edges(1) by (rule hm_get_last [OF edges(2)])
  have none: "hm_get (gr_nodes g) (e_id e) = None" using no by (simp add: hm_get_None_iff)
  have "dominated (e_property_clocks ?m) k ?c" using clk by (simp add: dominated_def map_of_eq_None_iff [THEN iffD2])
  moreover have "restamped_edge_part a e (ps @ [(k, v)]) =
      ?m\<lparr>e_properties := ps @ [(k, v)], e_property_clocks := AList.update k ?c (e_property_clocks ?m),
         e_last_clock := (if clock_wins ?c (e_last_clock ?m) then ?c else e_last_clock ?m)\<rparr>"
    unfolding hm_insert_fresh [OF clk] clock_wins_max by (simp add: restamped_edge_part_def Let_def)
  ultimately have "replay_item E a (UpdateProperty (e_id e) k v, prop_clock (e_property_clocks e) (e_last_clock e) k) g =
      g\<lparr>gr_edges := AList.update (e_id e) (restamped_edge_part a e (ps @ [(k, v)])) (gr_edges g)\<rparr>"
    by (simp add: replay_item_def apply_inner.simps entry_new_def apply_update_entry_def get none ok unquarantine_none [OF q]
        apply_update_property_def Let_def k(2))
  then show ?thesis using edges by (simp add: hm_insert_last)
qed

text \<open>An edge can be replayed between nodes that are there, if no node has its id.\<close>

definition edge_replayable :: "env \<Rightarrow> ontology \<Rightarrow> (string \<rightharpoonup> node) \<Rightarrow> edge \<Rightarrow> bool" where
  "edge_replayable E ont nodes e \<longleftrightarrow> bt_wf (e_properties e) \<and> nodes (e_id e) = None \<and>
     hm_contains (on_edge_types ont) (e_type e) \<and>
     (\<exists>src tgt. nodes (e_source e) = Some src \<and> nodes (e_target e) = Some tgt \<and>
        validate_edge_mode (env_regex E) ont (e_type e) (n_type src) (n_type tgt) [] SkipRequired = Inr ()) \<and>
     (\<forall>(k, v) \<in> set (e_properties e). validate_edge_property_update (env_regex E) ont (e_type e) k v = Inr ())"

abbreviation edge_updates :: "edge \<Rightarrow> properties \<Rightarrow> (graph_op \<times> hybrid_clock) list" where
  "edge_updates e \<equiv> map (\<lambda>(k, v). (UpdateProperty (e_id e) k v, prop_clock (e_property_clocks e) (e_last_clock e) k))"

lemma replay_edge_updates:
  assumes "gr_edges g = xs @ [(e_id e, restamped_edge_part a e ps)]" "e_id e \<notin> hm_keys xs" "gr_quarantined g = []"
    "bt_wf (ps @ qs)" "e_id e \<notin> hm_keys (gr_nodes g)"
    "\<forall>(k, v) \<in> set qs. validate_edge_property_update (env_regex E) (gr_ontology g) (e_type e) k v = Inr ()"
  shows "fold (replay_item E a) (edge_updates e qs) g = g\<lparr>gr_edges := xs @ [(e_id e, restamped_edge_part a e (ps @ qs))]\<rparr>"
  using assms
proof (induction qs arbitrary: g ps)
  case (Cons q qs)
  obtain k v where q: "q = (k, v)" by (cases q)
  have "bt_wf (ps @ [(k, v)])" using Cons.prems(4) by (auto simp: q bt_wf_def sorted_wrt_append)
  from replay_edge_property [OF Cons.prems(1-3) this Cons.prems(5)] Cons.prems(6)
  have step: "replay_item E a (UpdateProperty (e_id e) k v, prop_clock (e_property_clocks e) (e_last_clock e) k) g =
      g\<lparr>gr_edges := xs @ [(e_id e, restamped_edge_part a e (ps @ [(k, v)]))]\<rparr>" by (simp add: q)
  show ?case
    using Cons.IH [of "g\<lparr>gr_edges := xs @ [(e_id e, restamped_edge_part a e (ps @ [(k, v)]))]\<rparr>" "ps @ [(k, v)]"] Cons.prems(2-6)
    by (simp add: q step)
qed auto

lemma replay_edge:
  assumes "e_id e \<notin> hm_keys (gr_edges g)" "gr_quarantined g = []" "edge_replayable E (gr_ontology g) (hm_get (gr_nodes g)) e"
  shows "fold (replay_item E a) (edge_checkpoint_ops e) g =
    g\<lparr>gr_edges := gr_edges g @ [(e_id e, restamp_edge a e)], gr_outgoing := index_insert (e_source e) (e_id e) (gr_outgoing g),
      gr_incoming := index_insert (e_target e) (e_id e) (gr_incoming g)\<rparr>"
proof -
  let ?g = "g\<lparr>gr_edges := gr_edges g @ [(e_id e, restamped_edge_part a e [])], gr_outgoing := index_insert (e_source e) (e_id e) (gr_outgoing g),
      gr_incoming := index_insert (e_target e) (e_id e) (gr_incoming g)\<rparr>"
  have none: "hm_get (gr_edges g) (e_id e) = None" using assms(1) by (simp add: hm_get_None_iff)
  have "replay_item E a (AddEdge (e_id e) (e_type e) (e_source e) (e_target e) [], e_last_add_clock e) g = ?g"
    using assms(2,3) by (auto simp: replay_item_def apply_inner.simps entry_new_def admit_edge_def edge_replayable_def
        unquarantine_none apply_add_edge_def none hm_insert_fresh [OF assms(1)] restamped_edge_part_def)
  then have "fold (replay_item E a) (edge_checkpoint_ops e) g = fold (replay_item E a) (edge_updates e (e_properties e)) ?g"
    by (simp add: edge_checkpoint_ops_def)
  also have "\<dots> = ?g\<lparr>gr_edges := gr_edges g @ [(e_id e, restamped_edge_part a e ([] @ e_properties e))]\<rparr>"
    by (rule replay_edge_updates) (use assms in \<open>auto simp: edge_replayable_def hm_get_None_iff\<close>)
  finally show ?thesis by (simp add: restamp_edge_def)
qed

lemma replay_edges:
  assumes "distinct (map e_id es)" "e_id ` set es \<inter> hm_keys (gr_edges g) = {}" "gr_quarantined g = []"
    "\<forall>e \<in> set es. edge_replayable E (gr_ontology g) (hm_get (gr_nodes g)) e"
  shows "fold (replay_item E a) (concat (map edge_checkpoint_ops es)) g =
    g\<lparr>gr_edges := gr_edges g @ map (\<lambda>e. (e_id e, restamp_edge a e)) es,
      gr_outgoing := fold (\<lambda>e. index_insert (e_source e) (e_id e)) es (gr_outgoing g),
      gr_incoming := fold (\<lambda>e. index_insert (e_target e) (e_id e)) es (gr_incoming g)\<rparr>"
  using assms
proof (induction es arbitrary: g)
  case (Cons e es)
  let ?g = "g\<lparr>gr_edges := gr_edges g @ [(e_id e, restamp_edge a e)], gr_outgoing := index_insert (e_source e) (e_id e) (gr_outgoing g),
      gr_incoming := index_insert (e_target e) (e_id e) (gr_incoming g)\<rparr>"
  have "e_id e \<notin> hm_keys (gr_edges g)" using Cons.prems(2) by auto
  from replay_edge [OF this Cons.prems(3)] Cons.prems(4) have "fold (replay_item E a) (edge_checkpoint_ops e) g = ?g" by auto
  with Cons.IH [of ?g] Cons.prems show ?case by auto
qed simp

section \<open>The checkpoint of a graph\<close>

text \<open>The hypotheses of compaction, on the store: every live node and edge can be replayed under the store's ontology.\<close>

definition replayable :: "env \<Rightarrow> ontology \<Rightarrow> graph \<Rightarrow> bool" where
  "replayable E ont g \<longleftrightarrow>
     (\<forall>n \<in> set (all_nodes g). node_replayable E ont n) \<and> (\<forall>e \<in> set (all_edges g). edge_replayable E ont (get_node g) e)"

lemma live_edges_ids:
  assumes "graph_inv g"
  shows "distinct (map e_id (all_edges g))"
    "e \<in> set (all_edges g) \<Longrightarrow> is_node_live g (e_source e) \<and> is_node_live g (e_target e)"
proof -
  have wf: "hm_wf (gr_edges g)" and ids: "\<forall>i e. hm_get (gr_edges g) i = Some e \<longrightarrow> e_id e = i"
    using assms by (auto simp: graph_inv_def edge_inv_def)
  have "e_id e = i" if "(i, e) \<in> set (gr_edges g)" for i e using that wf ids by (metis map_of_is_SomeI)
  then have "map e_id (map snd (gr_edges g)) = map fst (gr_edges g)" by auto
  then have "distinct (map e_id (map snd (gr_edges g)))" using wf by metis
  then show "distinct (map e_id (all_edges g))" unfolding all_edges_def by (rule distinct_map_filter)
qed (auto simp: all_edges_def)

lemma checkpoint_ops_plain:
  "\<forall>item \<in> set (node_checkpoint_ops n). \<not> is_define_ontology (fst item)"
  "\<forall>item \<in> set (edge_checkpoint_ops e). \<not> is_define_ontology (fst item)"
  by (auto simp: node_checkpoint_ops_def edge_checkpoint_ops_def is_define_ontology_def)

lemma fold_ontology_plain:
  "\<forall>item \<in> set items. \<not> is_define_ontology (fst item) \<Longrightarrow> fold_checkpoint_ontology (map fst items) ont = ont"
  unfolding fold_checkpoint_ontology_def
  by (induction items arbitrary: ont) (auto simp: is_define_ontology_def split: graph_op.splits)

lemma rebuild_checkpoint:
  assumes "en_payload cp = Checkpoint (map fst ((DefineOntology ont, c) # items)) (map (\<lambda>item. as_tuple (snd item)) ((DefineOntology ont, c) # items)) p l"
    and "\<forall>item \<in> set items. \<not> is_define_ontology (fst item)"
  shows "rebuild E g [cp] = unquarantine (fold (replay_item E (en_author cp)) items
    \<lparr>gr_nodes = [], gr_edges = [], gr_outgoing = [], gr_incoming = [], gr_by_type = [], gr_ontology = ont,
     gr_base_ontology = gr_base_ontology g, gr_quarantined = [], gr_pending = []\<rparr>) cp"
proof -
  let ?items = "(DefineOntology ont, c) # items"
  have "apply_checkpoint E g' cp False 0 (map fst ?items) (map (\<lambda>item. as_tuple (snd item)) ?items) =
      fold (replay_item E (en_author cp)) ?items g'" for g' by (rule apply_checkpoint_items) simp
  moreover have "fold_checkpoint_ontology (map fst ?items) o' = ont" for o'
    using fold_ontology_plain [OF assms(2), of ont] by (simp add: fold_checkpoint_ontology_def)
  ultimately show ?thesis
    by (cases g) (simp add: rebuild_def Let_def fold_ontology_step_def assms(1) is_extend_def apply_inner.simps replay_item_def)
qed

lemma checkpoint_replayed:
  assumes inv: "graph_inv g" and ok: "replayable E ont g"
    and cp: "en_payload cp = Checkpoint (map fst ((DefineOntology ont, c) # items)) (map (\<lambda>item. as_tuple (snd item)) ((DefineOntology ont, c) # items)) p l"
    and items: "items = concat (map node_checkpoint_ops (all_nodes g)) @ concat (map edge_checkpoint_ops (all_edges g))"
    and g': "g' = rebuild E g0 [cp]"
  shows "gr_nodes g' = map (\<lambda>n. (n_id n, restamp_node (en_author cp) n)) (all_nodes g)"
    "gr_edges g' = map (\<lambda>e. (e_id e, restamp_edge (en_author cp) e)) (all_edges g)"
    "gr_ontology g' = ont" "gr_quarantined g' = []" "gr_pending g' = []"
proof -
  let ?a = "en_author cp"
  define h where "h = \<lparr>gr_nodes = [], gr_edges = [], gr_outgoing = [], gr_incoming = [], gr_by_type = [], gr_ontology = ont,
     gr_base_ontology = gr_base_ontology g0, gr_quarantined = [], gr_pending = []\<rparr>"
  define h1 where "h1 = h\<lparr>gr_nodes := map (\<lambda>n. (n_id n, restamp_node ?a n)) (all_nodes g),
      gr_by_type := fold (\<lambda>n. index_insert (n_type n) (n_id n)) (all_nodes g) []\<rparr>"
  have nodes: "fold (replay_item E ?a) (concat (map node_checkpoint_ops (all_nodes g))) h = h1"
    using replay_nodes [of "all_nodes g" h E ?a] live_nodes_ids(1) [OF inv] ok by (simp add: h1_def h_def replayable_def)
  have "edge_replayable E ont (hm_get (gr_nodes h1)) e" if "edge_replayable E ont (get_node g) e" for e
    using that by (auto simp: edge_replayable_def h1_def live_lookup [OF inv])
  then have "fold (replay_item E ?a) (concat (map edge_checkpoint_ops (all_edges g))) h1 =
     h1\<lparr>gr_edges := map (\<lambda>e. (e_id e, restamp_edge ?a e)) (all_edges g),
       gr_outgoing := fold (\<lambda>e. index_insert (e_source e) (e_id e)) (all_edges g) [],
       gr_incoming := fold (\<lambda>e. index_insert (e_target e) (e_id e)) (all_edges g) []\<rparr>"
    using replay_edges [of "all_edges g" h1 E ?a] live_edges_ids(1) [OF inv] ok by (simp add: h1_def h_def replayable_def)
  moreover have "\<forall>item \<in> set items. \<not> is_define_ontology (fst item)" unfolding items using checkpoint_ops_plain by auto
  ultimately have "g' = unquarantine (h1\<lparr>gr_edges := map (\<lambda>e. (e_id e, restamp_edge ?a e)) (all_edges g),
       gr_outgoing := fold (\<lambda>e. index_insert (e_source e) (e_id e)) (all_edges g) [],
       gr_incoming := fold (\<lambda>e. index_insert (e_target e) (e_id e)) (all_edges g) []\<rparr>) cp"
    unfolding g' using rebuild_checkpoint [OF cp, of E g0] nodes by (simp add: h_def items)
  then show "gr_nodes g' = map (\<lambda>n. (n_id n, restamp_node ?a n)) (all_nodes g)"
    "gr_edges g' = map (\<lambda>e. (e_id e, restamp_edge ?a e)) (all_edges g)"
    "gr_ontology g' = ont" "gr_quarantined g' = []" "gr_pending g' = []"
    by (simp_all add: unquarantine_def h1_def h_def)
qed

lemma live_lists:
  assumes "graph_inv g" and "gr_nodes g' = map (\<lambda>n. (n_id n, restamp_node a n)) (all_nodes g)"
    and "gr_edges g' = map (\<lambda>e. (e_id e, restamp_edge a e)) (all_edges g)"
  shows "all_nodes g' = map (restamp_node a) (all_nodes g)" "all_edges g' = map (restamp_edge a) (all_edges g)"
    "get_node g' i = map_option (restamp_node a) (get_node g i)"
proof -
  show "all_nodes g' = map (restamp_node a) (all_nodes g)"
    unfolding all_nodes_def [of g'] assms(2) by (simp add: filter_map o_def restamp_node_def)
  show get: "get_node g' i = map_option (restamp_node a) (get_node g i)" for i
    unfolding get_node_def [of g'] assms(2) live_lookup [OF assms(1)] by (simp add: restamp_node_def split: option.splits)
  have "is_node_live g' i \<longleftrightarrow> is_node_live g i" for i by (simp add: is_node_live_iff get)
  then show "all_edges g' = map (restamp_edge a) (all_edges g)"
    unfolding all_edges_def [of g'] assms(3) using live_edges_ids(2) [OF assms(1)]
    by (simp add: filter_map o_def restamp_edge_def cong: filter_cong)
qed

section \<open>Compaction\<close>

lemma backend_replace_log:
  assumes "backend_replace P b cp = (b', Inr ())"
  shows "backend_oplog b' = oplog_new cp"
  using assms by (cases b) (auto simp: checkpoint_is_new store_replace_with_checkpoint_def Let_def split: prod.splits sum.splits if_splits)

lemma checkpoint_entry_fields:
  "en_next (checkpoint_entry P s ops clocks) = []" "en_refs (checkpoint_entry P s ops clocks) = []"
  "en_author (checkpoint_entry P s ops clocks) = ps_instance_id s"
  "en_payload (checkpoint_entry P s ops clocks) =
     Checkpoint ops (map as_tuple clocks) (fst (as_tuple (ps_clock s))) (snd (as_tuple (ps_clock s)))"
  by (simp_all add: checkpoint_entry_def create_entry_def entry_new_def entry_new_signed_def Let_def split: option.splits)

lemma compact_result:
  assumes safe: "safe \<longrightarrow> (\<exists>reasons. ps_verify_compaction_safe s = Some (True, reasons))"
    and q: "gr_quarantined (ps_graph s) = []"
    and cp: "cp = (case build_checkpoint_ops s of (ops, clocks) \<Rightarrow> checkpoint_entry P (s\<lparr>ps_clock := tick wall (ps_clock s)\<rparr>) ops clocks)"
    and b: "backend_replace P (ps_backend s) cp = (b, Inr ())"
    and g: "g = rebuild (pf_env P) (ps_graph s) [cp]"
  shows "ps_compact P wall s safe None =
    Some (s\<lparr>ps_clock := tick wall (ps_clock s), ps_backend := b, ps_graph := g, ps_node_types := live_node_types g, ps_ontology := gr_ontology g\<rparr>,
      Inr (en_hash cp))"
proof -
  have "(if safe then ps_verify_compaction_safe s else Some (True, [])) = Some (True, if safe then snd (the (ps_verify_compaction_safe s)) else [])"
    using safe by auto
  moreover have "carried_entries s = []" by (simp add: carried_entries_def q List.map_filter_simps)
  moreover have "backend_oplog b = oplog_new cp" by (rule backend_replace_log [OF b])
  moreover have "en_next cp = []" "en_refs cp = []" by (simp_all add: cp checkpoint_entry_fields split: prod.splits)
  ultimately show ?thesis
    using b by (cases "build_checkpoint_ops s")
      (simp add: ps_compact_def cp Let_def ps_revalidate_def listing_singleton q g split: backend.splits)
qed

text \<open>
  C3. Compaction keeps the graph, under four conditions: nothing is quarantined; every live node and edge can be
  replayed under the store's ontology (\<open>replayable\<close>: type and subtype known, properties acceptable, no edge id
  that is also a node id; it can fail, see \<open>compaction_can_drop_a_node\<close>); the database, if there is one, takes the
  checkpoint; and if the safety check is asked for, it passes. Then \<^verbatim>\<open>compact\<close> succeeds: the log is the
  checkpoint alone, every live node and edge comes back with its id, type, subtype, label, endpoints and
  properties (Python sees the same dicts, in some order), only clocks being stamped with the name of this
  instance, and the ontology, the quarantine and the types of the nodes are those of the graph before.
\<close>

theorem compact_preserves_graph:
  assumes "iter_ok (pf_env P)" and "graph_inv (ps_graph s)" and "replayable (pf_env P) (ps_ontology s) (ps_graph s)"
    and "gr_quarantined (ps_graph s) = []"
    and "safe \<longrightarrow> (\<exists>reasons. ps_verify_compaction_safe s = Some (True, reasons))"
    and "\<forall>cp. snd (backend_replace P (ps_backend s) cp) = Inr ()"
  shows "\<exists>s' cp. ps_compact P wall s safe None = Some (s', Inr (en_hash cp)) \<and>
    entries_since (ps_oplog s') None = Some [cp] \<and> is_checkpoint (en_payload cp) \<and>
    mset (map node_to_pydict (all_nodes (ps_graph s'))) = mset (map node_to_pydict (all_nodes (ps_graph s))) \<and>
    mset (map edge_to_pydict (all_edges (ps_graph s'))) = mset (map edge_to_pydict (all_edges (ps_graph s))) \<and>
    mset (all_nodes (ps_graph s')) = mset (map (restamp_node (ps_instance_id s)) (all_nodes (ps_graph s))) \<and>
    mset (all_edges (ps_graph s')) = mset (map (restamp_edge (ps_instance_id s)) (all_edges (ps_graph s))) \<and>
    ps_ontology s' = ps_ontology s \<and> gr_quarantined (ps_graph s') = [] \<and>
    (\<forall>i. hm_get (ps_node_types s') i = map_option n_type (get_node (ps_graph s) i))"
proof -
  let ?a = "ps_instance_id s" and ?g = "ps_graph s" and ?s1 = "s\<lparr>ps_clock := tick wall (ps_clock s)\<rparr>"
  define items where "items = concat (map node_checkpoint_ops (all_nodes ?g)) @ concat (map edge_checkpoint_ops (all_edges ?g))"
  define cp where "cp = checkpoint_entry P ?s1 (map fst ((DefineOntology (ps_ontology s), ps_clock s) # items))
    (map snd ((DefineOntology (ps_ontology s), ps_clock s) # items))"
  have cp: "cp = (case build_checkpoint_ops s of (ops, clocks) \<Rightarrow> checkpoint_entry P ?s1 ops clocks)"
    by (simp add: cp_def build_checkpoint_ops_def items_def)
  obtain b where b: "backend_replace P (ps_backend s) cp = (b, Inr ())" using assms(6) by (metis prod.collapse)
  define g' where "g' = rebuild (pf_env P) ?g [cp]"
  define s' where "s' = s\<lparr>ps_clock := tick wall (ps_clock s), ps_backend := b, ps_graph := g', ps_node_types := live_node_types g',
    ps_ontology := gr_ontology g'\<rparr>"
  have run: "ps_compact P wall s safe None = Some (s', Inr (en_hash cp))"
    unfolding s'_def by (rule compact_result [OF assms(5,4) cp b g'_def])
  have author: "en_author cp = ?a" and fields: "en_next cp = []" "en_refs cp = []" by (simp_all add: cp_def checkpoint_entry_fields)
  have payload: "en_payload cp = Checkpoint (map fst ((DefineOntology (ps_ontology s), ps_clock s) # items))
      (map (\<lambda>item. as_tuple (snd item)) ((DefineOntology (ps_ontology s), ps_clock s) # items))
      (fst (as_tuple (tick wall (ps_clock s)))) (snd (as_tuple (tick wall (ps_clock s))))"
    by (simp add: cp_def checkpoint_entry_fields o_def)
  note replayed = checkpoint_replayed [OF assms(2,3) payload items_def g'_def, unfolded author]
  note live = live_lists [OF assms(2) replayed(1,2)]
  have "graph_inv g'" unfolding g'_def by (rule rebuild_inv [OF assms(1)])
  then have "hm_get (live_node_types g') i = map_option n_type (get_node ?g i)" for i
    by (simp add: live_node_types_exact live(3) option.map_comp o_def)
  moreover have "entries_since (ps_oplog s') None = Some [cp]"
    using backend_replace_log [OF b] listing_singleton [OF fields] by (simp add: s'_def)
  moreover have "node_to_pydict (restamp_node ?a n) = node_to_pydict n" for n by (simp add: node_to_pydict_def split: sum.splits)
  moreover have "edge_to_pydict (restamp_edge ?a e) = edge_to_pydict e" for e by (simp add: edge_to_pydict_def restamp_edge_def split: sum.splits)
  ultimately show ?thesis
    using run live(1,2) replayed(3,4) payload
    by (intro exI [of _ s'] exI [of _ cp]) (simp add: s'_def is_checkpoint_def o_def)
qed

text \<open>
  The hypothesis on the ontology cannot be dropped. A node that is added again under another type keeps its
  first type and takes the subtype of the second addition; the pair need not be acceptable. Compaction
  then quarantines the node, and it is gone from the graph.
\<close>

theorem compaction_can_drop_a_node:
  "\<exists>s1 h1 s2 h2 s3 h3. ps_append demo_platform 20 empty_shop (AddNode ''x'' ''item'' (Some ''book'') ''x'' []) = (s1, Inr h1) \<and>
     ps_append demo_platform 30 s1 (AddNode ''x'' ''note'' None ''x'' []) = (s2, Inr h2) \<and>
     get_node (ps_graph s2) ''x'' \<noteq> None \<and> gr_quarantined (ps_graph s2) = [] \<and>
     ps_compact demo_platform 40 s2 False None = Some (s3, Inr h3) \<and> get_node (ps_graph s3) ''x'' = None"
proof -
  have "\<exists>s1 h1 s2 h2 n log. ps_append demo_platform 20 empty_shop (AddNode ''x'' ''item'' (Some ''book'') ''x'' []) = (s1, Inr h1) \<and>
     ps_append demo_platform 30 s1 (AddNode ''x'' ''note'' None ''x'' []) = (s2, Inr h2) \<and>
     gr_nodes (ps_graph s2) = [(''x'', n)] \<and> n_type n = ''item'' \<and> n_subtype n = None \<and> n_properties n = [] \<and> n_id n = ''x'' \<and> \<not> n_tombstoned n \<and>
     gr_quarantined (ps_graph s2) = [] \<and> gr_edges (ps_graph s2) = [] \<and> ps_backend s2 = Memory log \<and> ps_ontology s2 = shop_ontology"
    by (simp add: shop_eval)
  then obtain s1 h1 s2 h2 n log where run: "ps_append demo_platform 20 empty_shop (AddNode ''x'' ''item'' (Some ''book'') ''x'' []) = (s1, Inr h1)"
     "ps_append demo_platform 30 s1 (AddNode ''x'' ''note'' None ''x'' []) = (s2, Inr h2)"
     "gr_nodes (ps_graph s2) = [(''x'', n)]" "n_type n = ''item''" "n_subtype n = None" "n_properties n = []" "n_id n = ''x''" "\<not> n_tombstoned n"
     "gr_quarantined (ps_graph s2) = []" "gr_edges (ps_graph s2) = []" "ps_backend s2 = Memory log" "ps_ontology s2 = shop_ontology" by blast
  let ?cp = "case build_checkpoint_ops s2 of (ops, clocks) \<Rightarrow> checkpoint_entry demo_platform (s2\<lparr>ps_clock := tick 40 (ps_clock s2)\<rparr>) ops clocks"
  have lists: "all_nodes (ps_graph s2) = [n]" "all_edges (ps_graph s2) = []" using run by (simp_all add: all_nodes_def all_edges_def)
  have lost: "get_node (rebuild (pf_env demo_platform) (ps_graph s2) [?cp]) ''x'' = None"
    using rebuild_checkpoint [where cp = ?cp and ont = shop_ontology and c = "ps_clock s2" and items = "node_checkpoint_ops n" and E = "pf_env demo_platform" and g = "ps_graph s2"] run
      by (simp add: build_checkpoint_ops_def lists checkpoint_entry_fields checkpoint_ops_plain o_def) (simp add: node_checkpoint_ops_def replay_item_def get_node_def
         apply_inner.simps apply_add_node_entry_def unquarantine_def quarantine_def entry_new_def)
  have "backend_replace demo_platform (ps_backend s2) ?cp = (Memory (oplog_replace_with_checkpoint ?cp), Inr ())"
    by (simp add: run)
  from compact_result [OF _ run(9) refl this refl, of False] lost
  have "\<exists>s3 h3. ps_compact demo_platform 40 s2 False None = Some (s3, Inr h3) \<and> get_node (ps_graph s3) ''x'' = None"
    by simp
  moreover have "get_node (ps_graph s2) ''x'' \<noteq> None" using run by (simp add: get_node_def)
  ultimately show ?thesis using run(1,2,9) by blast
qed

definition tiny_py_store :: demo_py_store where
  "tiny_py_store = fresh_store (Memory demo_log) tiny_graph [] ''a'' (with_values ''a'' 5 0) tiny_ontology"

theorem compact_preserves_graph_witness:
  "\<exists>s' h. ps_compact (demo_platform\<lparr>pf_env := tiny_env id\<rparr>) 9 tiny_py_store False None = Some (s', Inr h) \<and>
     mset (map node_to_pydict (all_nodes (ps_graph s'))) = mset (map node_to_pydict (all_nodes tiny_graph))"
proof -
  have "\<exists>n m e. gr_nodes tiny_graph = [(''a'', n), (''b'', m)] \<and> gr_edges tiny_graph = [(''e'', e)] \<and>
      n_type n = ''n'' \<and> n_subtype n = None \<and> n_properties n = [] \<and> \<not> n_tombstoned n \<and>
      n_type m = ''n'' \<and> n_subtype m = None \<and> n_properties m = [] \<and> \<not> n_tombstoned m \<and>
      e_id e = ''e'' \<and> e_type e = ''l'' \<and> e_source e = ''a'' \<and> e_target e = ''b'' \<and> e_properties e = []"
    by (simp add: tiny_graph_def apply_all_def tiny_defs)
  then have "replayable (tiny_env id) tiny_ontology tiny_graph"
    by (auto simp: replayable_def node_replayable_def edge_replayable_def all_nodes_def all_edges_def get_node_def bt_wf_def hm_contains_def)
  moreover have "gr_quarantined tiny_graph = []" by (simp add: tiny_graph_def apply_all_def tiny_defs)
  ultimately show ?thesis
    using compact_preserves_graph [of "demo_platform\<lparr>pf_env := tiny_env id\<rparr>" tiny_py_store False 9]
      graph_run_inv [OF tiny_graph_run tiny_iter_ok(1)] tiny_iter_ok(1)
    by (auto simp: tiny_py_store_def fresh_store_def)
qed

end
