(* ===== verification/Silk_Merge.thy ===== *)
theory Silk_Merge
  imports Silk_Session Silk_Convergence
begin


text \<open>
  Taking in a peer's entries (\<^verbatim>\<open>merge_entries_vec\<close> of \<^verbatim>\<open>src/src/python/mod.rs\<close>): what can enter the log and what
  cannot leave it, how far a peer can push the clock, and what brings two stores with the same log to
  the same graph. Entries are filtered one by one before the merge, and the filter is where the guards
  are; the examples at the end show what it lets through.
\<close>

declare map_of_eq_Some_iff [simp del] Some_eq_map_of_iff [simp del]

section \<open>The log before and after\<close>

text \<open>A relation between logs that every append of a batch respects is respected by the merge, failed or not.\<close>

locale log_relation =
  fixes R :: "oplog \<Rightarrow> oplog \<Rightarrow> bool" and ok :: "entry \<Rightarrow> bool" and H :: content_hash
  assumes R_refl: "R l l"
    and R_trans: "R l m \<Longrightarrow> R m n \<Longrightarrow> R l n"
    and R_append: "ok e \<Longrightarrow> R l (fst (oplog_append H l e))"
begin

lemma after_pass: "\<forall>e \<in> set es. ok e \<Longrightarrow> R log (fst (merge_pass H log es n nr))"
proof (induction es arbitrary: log n nr)
  case (Cons e es)
  obtain log' r where app: "oplog_append H log e = (log', r)" by (cases "oplog_append H log e")
  then have step: "R log log'" using R_append [of e log] Cons.prems by simp
  have "fst (merge_pass H log (e # es) n nr) = log' \<or> (\<exists>n' nr'. fst (merge_pass H log (e # es) n nr) = fst (merge_pass H log' es n' nr'))"
    by (auto simp: app split: sum.splits bool.splits oplog_error.splits)
  then show ?case using step Cons R_trans by auto
qed (simp add: R_refl)

lemma rest_of_pass: "merge_pass H log es n nr = (log', Inr (n', rest)) \<Longrightarrow> set rest \<subseteq> set nr \<union> set es"
  by (induction H log es n nr rule: merge_pass.induct) (auto split: prod.splits sum.splits bool.splits oplog_error.splits)

lemma after_merge: "\<forall>e \<in> set es. ok e \<Longrightarrow> R log (fst (merge_entries H log es))"
proof -
  have "R log (fst (merge_loop H k log es n))" if "\<forall>e \<in> set es. ok e" for k n
    using that
  proof (induction k arbitrary: log es n)
    case (Suc k)
    obtain log' r where p: "merge_pass H log es n [] = (log', r)" by (cases "merge_pass H log es n []")
    then have step: "R log log'" using after_pass [OF Suc.prems, of log n "[]"] by simp
    show ?case
    proof (cases r)
      case (Inr nr)
      obtain n' rest where nr: "nr = (n', rest)" by (cases nr)
      have "\<forall>e \<in> set rest. ok e" using rest_of_pass [OF p [unfolded Inr nr]] Suc.prems by auto
      then show ?thesis using Suc.IH [of rest log' n'] step R_trans p by (auto simp: Inr nr R_refl)
    qed (use p step R_refl in auto)
  qed (simp add: R_refl)
  then show "\<forall>e \<in> set es. ok e \<Longrightarrow> R log (fst (merge_entries H log es))" unfolding merge_entries_def by blast
qed

end

text \<open>Only a checkpoint without parents removes entries; and what is new was in the batch, with its hash checked.\<close>

abbreviation keeps_entries :: "oplog \<Rightarrow> oplog \<Rightarrow> bool" where
  "keeps_entries l l' \<equiv> (\<forall>h x. oplog_get l h = Some x \<longrightarrow> oplog_get l' h = Some x)"

abbreviation from_batch :: "(entry \<Rightarrow> bool) \<Rightarrow> content_hash \<Rightarrow> oplog \<Rightarrow> oplog \<Rightarrow> bool" where
  "from_batch ok H l l' \<equiv> (\<forall>h x. oplog_get l' h = Some x \<longrightarrow> oplog_get l h = Some x \<or> ok x \<and> en_hash x = h \<and> verify_hash H x)"

interpretation keeping: log_relation keeps_entries "\<lambda>e. \<not> (en_next e = [] \<and> is_checkpoint (en_payload e))" H for H
proof unfold_locales
  show "keeps_entries l (fst (oplog_append H l e))" if "\<not> (en_next e = [] \<and> is_checkpoint (en_payload e))" for l e
    using that by (auto simp: oplog_append_def oplog_get_def insert_entry_simps update_conv' hm_contains_def split: option.splits)
qed auto

interpretation origin: log_relation "from_batch ok H" ok H for ok H
proof unfold_locales
  show "from_batch ok H l (fst (oplog_append H l e))" if "ok e" for l e
    using that by (auto simp: oplog_append_def oplog_get_def oplog_replace_with_checkpoint_def insert_entry_simps update_conv'
        split: option.splits if_splits)
qed blast+

interpretation sound: log_relation "\<lambda>l l'. oplog_inv H l \<longrightarrow> oplog_inv H l'" "\<lambda>_. True" H for H
  by unfold_locales (auto intro: oplog_append_inv)

lemma topo_loop_entries: "topo_loop log hs indeg q acc = Some es \<Longrightarrow> \<forall>e \<in> set es. e \<in> set acc \<or> (\<exists>h. oplog_get log h = Some e)"
proof (induction "length q + sum_list (map snd indeg)" arbitrary: indeg q acc rule: less_induct)
  case less
  show ?case
  proof (cases q)
    case (Cons x q')
    then obtain e m ready where step: "hm_get (ol_entries log) x = Some e" "relax_children hs (child_of log x) indeg [] = Some (m, ready)"
      "topo_loop log hs m (q' @ sort_key (topo_key log) ready) (acc @ [e]) = Some es"
      using less.prems by (auto simp: topo_loop_step split: option.splits)
    then show ?thesis using less.hyps [OF _ step(3)] relax_children_measure [OF step(2)] Cons by (auto simp: oplog_get_def)
  qed (use less.prems in simp)
qed

lemma listed_entries: "entries_since log known = Some es \<Longrightarrow> e \<in> set es \<Longrightarrow> \<exists>h. oplog_get log h = Some e"
  using topo_loop_entries by (fastforce simp: entries_since_def topo_sort_def Let_def split: option.splits)

section \<open>The merge of a store\<close>

lemma backend_merge_log: "backend_oplog (fst (backend_merge P b es)) = fst (merge_entries (env_hash (pf_env P)) (backend_oplog b) es)"
proof (cases b)
  case (Memory log)
  then show ?thesis by (cases "merge_entries (env_hash (pf_env P)) log es") simp
next
  case (Persistent st)
  let ?H = "env_hash (pf_env P)"
  have "fst (merge_entries ?H (st_oplog st) es) = fst (store_merge_loop ?H (length es + 1) (st_oplog st) es 0 [])"
    unfolding merge_entries_def by (subst store_merge_loop_eq [symmetric]) simp
  then show ?thesis
    using Persistent by (auto simp: store_merge_def Let_def split: prod.splits sum.splits flush_mode.splits)
qed

lemma merge_frames:
  "ps_backend (fold (apply_merged P) es s) = ps_backend s" "ps_clock (fold (apply_merged P) es s) = ps_clock s"
  "ps_backend (announce_merged walls es s) = ps_backend s" "ps_clock (announce_merged walls es s) = merge_clocks walls es (ps_clock s)"
  by (induction es arbitrary: s walls) (simp_all add: apply_merged_def notify_subscribers_def)

lemma revalidate_effect:
  assumes "ps_revalidate P s = Some (s', n)" "entries_since (ps_oplog s) None = Some all"
  defines "g \<equiv> rebuild (pf_env P) (ps_graph s) all"
  shows "\<exists>calls. s' = s\<lparr>ps_graph := g, ps_node_types := live_node_types g, ps_ontology := gr_ontology g, ps_calls := calls\<rparr>"
proof -
  let ?s = "s\<lparr>ps_graph := g, ps_node_types := live_node_types g, ps_ontology := gr_ontology g\<rparr>"
  have "s' = fst (release_freed all (map fst (gr_quarantined (ps_graph s))) ?s 0)" using assms(1,2) by (simp add: ps_revalidate_def Let_def g_def)
  then show ?thesis using release_freed_frame [of all _ ?s 0] by auto
qed

lemma revalidate_frame:
  assumes "ps_revalidate P s = Some (s', n)"
  shows "ps_backend s' = ps_backend s" "ps_clock s' = ps_clock s"
proof -
  obtain all where "entries_since (ps_oplog s) None = Some all" using assms by (auto simp: ps_revalidate_def split: option.splits)
  from revalidate_effect [OF assms this] show "ps_backend s' = ps_backend s" "ps_clock s' = ps_clock s" by auto
qed

lemma merge_vec_cases:
  assumes "merge_entries_vec P walls s entries = Some (s', r)"
  defines "valid \<equiv> filter (admissible P s) entries"
  shows "ps_oplog s' = fst (merge_entries (env_hash (pf_env P)) (ps_oplog s) valid)"
    "ps_clock s' = ps_clock s \<or> (\<exists>all. entries_since (ps_oplog s') None = Some all \<and>
       ps_clock s' = merge_clocks walls (filter (\<lambda>e. en_hash e \<in> en_hash ` set valid) all) (ps_clock s))"
proof -
  obtain b br where b: "backend_merge P (ps_backend s) valid = (b, br)" by (cases "backend_merge P (ps_backend s) valid")
  have log: "backend_oplog b = fst (merge_entries (env_hash (pf_env P)) (ps_oplog s) valid)"
    using backend_merge_log [of P "ps_backend s" valid] b by simp
  have main: "ps_backend s' = b \<and> (ps_clock s' = ps_clock s \<or> (\<exists>all. entries_since (ps_oplog s') None = Some all \<and>
       ps_clock s' = merge_clocks walls (filter (\<lambda>e. en_hash e \<in> en_hash ` set valid) all) (ps_clock s)))"
  proof (cases "br = Inr 0 \<or> (\<exists>err. br = Inl err)")
    case True
    then show ?thesis using assms(1) b unfolding merge_entries_vec_def valid_def [symmetric] by auto
  next
    case False
    let ?s1 = "s\<lparr>ps_backend := b\<rparr>"
    let ?news = "filter (\<lambda>e. en_hash e \<in> en_hash ` set valid)"
    obtain n where n: "br = Inr n" "n \<noteq> 0" using False by (cases br) auto
    obtain all where all: "entries_since (backend_oplog b) None = Some all"
      using assms(1) b n by (auto simp: merge_entries_vec_def valid_def [symmetric] Let_def split: option.splits)
    define step where "step = (if list_ex (\<lambda>e. en_hash e \<in> en_hash ` set valid \<and> is_schema_change (en_payload e)) valid
      then map_option fst (ps_revalidate P ?s1) else Some (fold (apply_merged P) (?news all) ?s1))"
    have "merge_entries_vec P walls s entries = (case step of None \<Rightarrow> None | Some s2 \<Rightarrow>
        (let s3 = announce_merged walls (?news all) s2 in Some (s3\<lparr>ps_bell := bell_notify (ps_bell s3)\<rparr>, Inr n)))"
      using b n all by (simp add: merge_entries_vec_def valid_def [symmetric] step_def Let_def split: option.split)
    then obtain s2 where st: "step = Some s2" and
      run: "s' = (let s3 = announce_merged walls (?news all) s2 in s3\<lparr>ps_bell := bell_notify (ps_bell s3)\<rparr>)"
      using assms(1) by (auto simp: Let_def split: option.splits)
    have "ps_backend s2 = b \<and> ps_clock s2 = ps_clock s"
      using st revalidate_frame [of P ?s1 s2] by (auto simp: step_def merge_frames split: if_splits)
    then show ?thesis using run all by (auto simp: Let_def merge_frames)
  qed
  then show "ps_oplog s' = fst (merge_entries (env_hash (pf_env P)) (ps_oplog s) valid)" using log by simp
  show "ps_clock s' = ps_clock s \<or> (\<exists>all. entries_since (ps_oplog s') None = Some all \<and>
       ps_clock s' = merge_clocks walls (filter (\<lambda>e. en_hash e \<in> en_hash ` set valid) all) (ps_clock s))" using main by blast
qed

section \<open>What enters and what stays\<close>

lemma admissible_foreign:
  assumes "admissible P s e" "is_checkpoint (en_payload e)" "1 < ol_len (ps_oplog s)"
  shows "en_author e = ps_instance_id s"
  using assms by (auto simp: admissible_def split: if_splits)

lemma new_entry_admissible:
  assumes "merge_entries_vec P walls s entries = Some (s', r)"
  shows "from_batch (\<lambda>e. e \<in> set entries \<and> admissible P s e) (env_hash (pf_env P)) (ps_oplog s) (ps_oplog s')"
  using merge_vec_cases(1) [OF assms]
    origin.after_merge [of "filter (admissible P s) entries" "\<lambda>e. e \<in> set entries \<and> admissible P s e" "env_hash (pf_env P)" "ps_oplog s"]
  by simp

text \<open>
  C4. What a merge lets in, and that nothing is lost. Whatever a peer sends and whatever the outcome, every
  entry that is in the log afterwards and was not before came in the batch and has the hash of its content.
  An entry that defines an ontology is exempt from the other two guards, as the source has it
  (\<open>define_ontology_defeats_guards\<close> below); every other new entry is not ahead of the local clock by more than
  the permitted drift and, with \<^verbatim>\<open>require_signatures\<close>, carries a signature that verifies under the registered
  key of its author. No entry of a log with more than a root is lost, if no checkpoint of the batch names this
  instance as its author.
\<close>

theorem merge_guarded:
  assumes "merge_entries_vec P walls s entries = Some (s', r)"
  shows "(oplog_get (ps_oplog s') h = Some e \<and> oplog_get (ps_oplog s) h \<noteq> Some e \<longrightarrow>
      e \<in> set entries \<and> en_hash e = h \<and> verify_hash (env_hash (pf_env P)) e \<and>
      (is_define_ontology (en_payload e) \<or>
        clk_physical (en_clock e) \<le> saturating_add (clk_physical (ps_clock s)) MAX_CLOCK_DRIFT \<and>
        (ps_require_signatures s \<longrightarrow> is_signed e \<and> (\<exists>vk. hm_get (ps_key_registry s) (en_author e) = Some vk \<and> verify_signature (pf_verify P) e vk)))) \<and>
    (1 < ol_len (ps_oplog s) \<and> (\<forall>x \<in> set entries. is_checkpoint (en_payload x) \<longrightarrow> en_author x \<noteq> ps_instance_id s) \<longrightarrow>
      oplog_get (ps_oplog s) h = Some e \<longrightarrow> oplog_get (ps_oplog s') h = Some e)"
proof -
  have "e \<in> set entries \<and> admissible P s e \<and> en_hash e = h \<and> verify_hash (env_hash (pf_env P)) e"
    if "oplog_get (ps_oplog s') h = Some e" "oplog_get (ps_oplog s) h \<noteq> Some e"
    using new_entry_admissible [OF assms] that by blast
  then have 1: "oplog_get (ps_oplog s') h = Some e \<and> oplog_get (ps_oplog s) h \<noteq> Some e \<longrightarrow>
      e \<in> set entries \<and> en_hash e = h \<and> verify_hash (env_hash (pf_env P)) e \<and>
      (is_define_ontology (en_payload e) \<or>
        clk_physical (en_clock e) \<le> saturating_add (clk_physical (ps_clock s)) MAX_CLOCK_DRIFT \<and>
        (ps_require_signatures s \<longrightarrow> is_signed e \<and> (\<exists>vk. hm_get (ps_key_registry s) (en_author e) = Some vk \<and> verify_signature (pf_verify P) e vk)))"
    by (auto simp: admissible_def signature_admissible_def not_less split: if_splits option.splits)
  have "\<forall>x \<in> set (filter (admissible P s) entries). \<not> (en_next x = [] \<and> is_checkpoint (en_payload x))"
    if "1 < ol_len (ps_oplog s)" "\<forall>x \<in> set entries. is_checkpoint (en_payload x) \<longrightarrow> en_author x \<noteq> ps_instance_id s"
    using that admissible_foreign by auto
  then have 2: "1 < ol_len (ps_oplog s) \<and> (\<forall>x \<in> set entries. is_checkpoint (en_payload x) \<longrightarrow> en_author x \<noteq> ps_instance_id s) \<longrightarrow>
      oplog_get (ps_oplog s) h = Some e \<longrightarrow> oplog_get (ps_oplog s') h = Some e"
    using keeping.after_merge [of "filter (admissible P s) entries" "ps_oplog s" "env_hash (pf_env P)"] merge_vec_cases(1) [OF assms] by simp
  show ?thesis using 1 2 by blast
qed

section \<open>The clock\<close>

lemma merged_clock_bound:
  assumes "\<forall>e \<in> set es. clk_physical (en_clock e) \<le> b" "clk_physical c \<le> b" "\<forall>i. walls i \<le> b"
  shows "clk_physical (merge_clocks walls es c) \<le> b"
  using assms by (induction es arbitrary: c walls) (auto simp: clock_merge_physical)

text \<open>
  C22. How far a batch can push the clock. If the log holds nothing later than the local clock, no entry of the
  batch defines an ontology (such entries skip the check: \<open>define_ontology_defeats_guards\<close>), and the wall clock
  stays below a bound that allows for the drift, then the physical clock stays below that bound after the
  merge, whatever times the entries carry.
\<close>

theorem merge_clock_bounded:
  assumes "merge_entries_vec P walls s entries = Some (s', r)"
    and "\<forall>h e. oplog_get (ps_oplog s) h = Some e \<longrightarrow> clk_physical (en_clock e) \<le> clk_physical (ps_clock s)"
    and "\<forall>e \<in> set entries. \<not> is_define_ontology (en_payload e)"
    and "saturating_add (clk_physical (ps_clock s)) MAX_CLOCK_DRIFT \<le> b" and "\<forall>i. walls i \<le> b"
  shows "clk_physical (ps_clock s') \<le> b"
proof -
  have c: "clk_physical (ps_clock s) \<le> b" using assms(4) saturating_add_mono order_trans by blast
  show ?thesis
  proof (cases "ps_clock s' = ps_clock s")
    case False
    then obtain all where run: "entries_since (ps_oplog s') None = Some all"
      "ps_clock s' = merge_clocks walls (filter (\<lambda>e. en_hash e \<in> en_hash ` set (filter (admissible P s) entries)) all) (ps_clock s)"
      using merge_vec_cases(2) [OF assms(1)] by blast
    have "clk_physical (en_clock e) \<le> b" if "e \<in> set all" for e
    proof -
      obtain h where "oplog_get (ps_oplog s') h = Some e" using listed_entries [OF run(1) \<open>e \<in> set all\<close>] by blast
      then consider "oplog_get (ps_oplog s) h = Some e" | "e \<in> set entries" "admissible P s e" using new_entry_admissible [OF assms(1)] by blast
      then show ?thesis using assms(2-4) c by cases (auto simp: admissible_def not_less split: if_splits intro: order_trans)
    qed
    then show ?thesis unfolding run(2) using c assms(5) by (intro merged_clock_bound) auto
  qed (use c in simp)
qed


section \<open>Examples\<close>

text \<open>A peer's note about nothing, on top of the root of the shop.\<close>

definition peer_note :: "u64 \<Rightarrow> entry" where
  "peer_note t = entry_new time_hash (AddNode ''y'' ''note'' None ''y'' []) [161] [] (with_values ''b'' t 0) ''b''"

lemmas merge_eval = merge_entries_vec_def admissible_def signature_admissible_def MAX_CLOCK_DRIFT_def is_define_ontology_def is_schema_change_def
  merge_entries_def entries_since_def reachable_from_def topo_sort_def topo_loop.simps topo_key_def apply_merged_def track_node_type_def
  clock_merge_def as_tuple_def is_signed_def

lemma drift_of_shop [simp]: "saturating_add 10 (1000000 :: u64) = 1000010"
  by (simp add: saturating_add_def)

lemma merge_note:
  "\<exists>s. merge_entries_vec demo_platform (\<lambda>_. 11) empty_shop [peer_note 12] = Some (s, Inr 1) \<and> oplog_get (ps_oplog s) 192 = Some (peer_note 12) \<and>
     oplog_get (ps_oplog empty_shop) 192 = None \<and> oplog_get (ps_oplog empty_shop) 161 = Some shop_root"
  by (simp add: merge_eval peer_note_def shop_eval oplog_get_def)

theorem merge_guarded_witness:
  "\<exists>s. merge_entries_vec demo_platform (\<lambda>_. 11) empty_shop [peer_note 12] = Some (s, Inr 1) \<and> oplog_get (ps_oplog s) 192 = Some (peer_note 12) \<and>
     verify_hash time_hash (peer_note 12) \<and> clk_physical (en_clock (peer_note 12)) \<le> 1000010"
proof -
  obtain s where s: "merge_entries_vec demo_platform (\<lambda>_. 11) empty_shop [peer_note 12] = Some (s, Inr 1)"
    "oplog_get (ps_oplog s) 192 = Some (peer_note 12)" "oplog_get (ps_oplog empty_shop) 192 = None" using merge_note by blast
  moreover have "\<not> is_define_ontology (en_payload (peer_note 12))" "clk_physical (ps_clock empty_shop) = 10" "env_hash (pf_env demo_platform) = time_hash"
    by (simp_all add: peer_note_def entry_new_def is_define_ontology_def shop_eval)
  ultimately show ?thesis using merge_guarded [OF s(1), of 192 "peer_note 12"] by (simp add: MAX_CLOCK_DRIFT_def)
qed

theorem merge_clock_bounded_witness:
  "\<exists>s. merge_entries_vec demo_platform (\<lambda>_. 11) empty_shop [peer_note 12] = Some (s, Inr 1) \<and> clk_physical (ps_clock s) \<le> 1000010"
proof -
  obtain s where s: "merge_entries_vec demo_platform (\<lambda>_. 11) empty_shop [peer_note 12] = Some (s, Inr 1)" using merge_note by blast
  have "\<forall>h e. oplog_get (ps_oplog empty_shop) h = Some e \<longrightarrow> clk_physical (en_clock e) \<le> clk_physical (ps_clock empty_shop)"
    "\<forall>e \<in> set [peer_note 12]. \<not> is_define_ontology (en_payload e)" "clk_physical (ps_clock empty_shop) = 10"
    by (simp_all add: peer_note_def entry_new_def is_define_ontology_def shop_eval oplog_get_def)
  then show ?thesis using merge_clock_bounded [OF s] s by (auto simp: MAX_CLOCK_DRIFT_def)
qed

text \<open>
  The exemption of ontology definitions is enough to defeat both guards: an unsigned definition with the
  latest possible time is taken in by a store that requires signatures, and drags its clock to the end.
\<close>

theorem define_ontology_defeats_guards:
  "\<exists>e s. \<not> is_signed e \<and> en_author e \<noteq> ps_instance_id empty_shop \<and>
     merge_entries_vec demo_platform (\<lambda>_. 11) (set_require_signatures empty_shop True) [e] = Some (s, Inr 1) \<and>
     clk_physical (ps_clock s) = 18446744073709551615"
  by (rule exI [of _ "entry_new time_hash (DefineOntology shop_ontology) [161] [] (with_values ''b'' 18446744073709551615 0) ''b''"])
    (simp add: merge_eval shop_eval set_require_signatures_def)

text \<open>
  The author of a checkpoint is what the entry says. An unsigned checkpoint in the name of the receiving
  instance passes the filter and replaces the whole log: the local node is gone.
\<close>

theorem forged_checkpoint_replaces_log:
  "\<exists>s1 h e s2. ps_append demo_platform 20 empty_shop (AddNode ''x'' ''note'' None ''x'' []) = (s1, Inr h) \<and>
     get_node (ps_graph s1) ''x'' \<noteq> None \<and> ol_len (ps_oplog s1) = 2 \<and> en_author e = ps_instance_id s1 \<and> \<not> is_signed e \<and>
     merge_entries_vec demo_platform (\<lambda>_. 21) s1 [e] = Some (s2, Inr 1) \<and> ol_len (ps_oplog s2) = 1 \<and> get_node (ps_graph s2) ''x'' = None"
proof -
  have "\<exists>s1 h log g. ps_append demo_platform 20 empty_shop (AddNode ''x'' ''note'' None ''x'' []) = (s1, Inr h) \<and>
      s1 = empty_shop\<lparr>ps_backend := Memory log, ps_graph := g, ps_clock := with_values ''a'' 20 0, ps_bell := bell_notify bell_new\<rparr> \<and> ol_len log = 2 \<and>
      hm_keys (ol_entries log) = {161, 320} \<and> get_node g ''x'' \<noteq> None \<and> gr_quarantined g = [] \<and> gr_base_ontology g = shop_ontology"
    by (simp add: shop_eval)
  then obtain s1 h log g where s1: "ps_append demo_platform 20 empty_shop (AddNode ''x'' ''note'' None ''x'' []) = (s1, Inr h)"
    "s1 = empty_shop\<lparr>ps_backend := Memory log, ps_graph := g, ps_clock := with_values ''a'' 20 0, ps_bell := bell_notify bell_new\<rparr>" "ol_len log = 2"
    "hm_keys (ol_entries log) = {161, 320}" "get_node g ''x'' \<noteq> None" "gr_quarantined g = []" "gr_base_ontology g = shop_ontology" by blast
  define e where "e = entry_new time_hash (Checkpoint [] [] 0 0) [] [] (with_values ''a'' 25 0) ''a''"
  have "\<not> hm_contains (ol_entries log) 400" "ol_entries log \<noteq> []" using s1(4) by (auto simp: hm_contains_iff)
  then have "\<exists>s2. merge_entries_vec demo_platform (\<lambda>_. 21) s1 [e] = Some (s2, Inr 1) \<and> ol_len (ps_oplog s2) = 1 \<and> get_node (ps_graph s2) ''x'' = None"
    using s1(3,6,7)
    by (simp add: e_def s1(2) merge_eval shop_eval ps_revalidate_def rebuild_def is_extend_def fold_ontology_step_def fold_checkpoint_ontology_def
        oplog_replace_with_checkpoint_def saturating_add_def)
  then obtain s2 where "merge_entries_vec demo_platform (\<lambda>_. 21) s1 [e] = Some (s2, Inr 1)" "ol_len (ps_oplog s2) = 1"
    "get_node (ps_graph s2) ''x'' = None" by blast
  moreover have "ps_graph s1 = g" "ps_oplog s1 = log" "ps_instance_id s1 = ''a''" by (simp_all add: s1(2) empty_shop_def fresh_store_def)
  moreover have "en_author e = ''a''" "\<not> is_signed e" by (simp_all add: e_def entry_new_def is_signed_def)
  ultimately show ?thesis
    using s1(1,3,5) by (intro exI [of _ s1] exI [of _ h] exI [of _ e] exI [of _ s2]) (simp only: simp_thms)
qed

section \<open>Rebuilding restores agreement\<close>

text \<open>
  C21. Stores that hold the same entries agree once both revalidate. The stores may live in different processes,
  each with its own iteration order of hash maps, over one base ontology; the log can be listed, and in it an
  edge id always names the same edge (\<open>log_edges_agree\<close>; without it, see \<open>replay_depends_on_iteration\<close>). Then both
  calls return, and the graphs (as \<open>view\<close> observes them), the ontologies and the maps of node types agree, however
  the entries arrived; the map of types is exactly that of the visible nodes.
\<close>

theorem revalidate_converges:
  assumes "iter_ok (pf_env P)" and "iter_ok (pf_env P')" and "same_env (pf_env P) (pf_env P')"
    and "oplog_inv (env_hash (pf_env P)) (ps_oplog s)" and "oplog_inv (env_hash (pf_env P)) (ps_oplog t)"
    and "oplog_get (ps_oplog s) = oplog_get (ps_oplog t)" and "gr_base_ontology (ps_graph s) = gr_base_ontology (ps_graph t)"
    and "entries_since (ps_oplog s) None = Some all" and "log_edges_agree (env_hash (pf_env P)) all"
  shows "\<exists>s' m t' n. ps_revalidate P s = Some (s', m) \<and> ps_revalidate P' t = Some (t', n) \<and>
    view (ps_graph s') = view (ps_graph t') \<and> ps_ontology s' = ps_ontology t' \<and>
    (\<forall>i. hm_get (ps_node_types s') i = map_option n_type (get_node (ps_graph s') i) \<and> hm_get (ps_node_types t') i = hm_get (ps_node_types s') i)"
proof -
  have all': "entries_since (ps_oplog t) None = Some all" using entries_since_cong(1) [OF assms(4-6)] assms(8) by simp
  obtain s' m t' n where run: "ps_revalidate P s = Some (s', m)" "ps_revalidate P' t = Some (t', n)"
    using assms(8) all' by (fastforce simp: ps_revalidate_def Let_def)
  let ?g = "rebuild (pf_env P) (ps_graph s) all" and ?g' = "rebuild (pf_env P') (ps_graph t) all"
  have v: "view ?g = view ?g'" by (rule rebuild_any_order [OF assms(1-3,7,9)])
  have "ps_graph s' = ?g \<and> ps_ontology s' = gr_ontology ?g \<and> ps_node_types s' = live_node_types ?g"
    using revalidate_effect [OF run(1) assms(8)] by auto
  moreover have "ps_graph t' = ?g' \<and> ps_ontology t' = gr_ontology ?g' \<and> ps_node_types t' = live_node_types ?g'"
    using revalidate_effect [OF run(2) all'] by auto
  moreover have "hm_get (live_node_types ?g) i = map_option n_type (get_node ?g i)" "hm_get (live_node_types ?g') i = map_option n_type (get_node ?g i)" for i
    using live_node_types_exact [OF rebuild_inv [OF assms(1)]] live_node_types_exact [OF rebuild_inv [OF assms(2)]] view_observed(1) [OF v] by simp_all
  ultimately show ?thesis using run v view_eqD(6) [OF v] by auto
qed

text \<open>A platform whose hash maps iterate the other way round.\<close>

definition reversed_platform :: "((entry + hash list) journal, (entry + hash list) journal, entry + hash list, u8, u8) platform" where
  "reversed_platform = demo_platform\<lparr>pf_env := (pf_env demo_platform)\<lparr>env_iter := rev\<rparr>\<rparr>"

lemma reversed_ok: "iter_ok (pf_env reversed_platform)" "same_env (pf_env demo_platform) (pf_env reversed_platform)"
  by (simp_all add: reversed_platform_def iter_ok_def same_env_def demo_platform_def)

theorem revalidate_converges_witness:
  "\<exists>s t m n. ps_revalidate demo_platform empty_shop = Some (s, m) \<and>
     ps_revalidate reversed_platform (empty_shop\<lparr>ps_graph := graph_apply (pf_env demo_platform) (graph_new shop_ontology) (peer_note 12)\<rparr>) = Some (t, n) \<and>
     view (ps_graph s) = view (ps_graph t)"
proof -
  let ?t = "empty_shop\<lparr>ps_graph := graph_apply (pf_env demo_platform) (graph_new shop_ontology) (peer_note 12)\<rparr>"
  have root: "en_next shop_root = []" "en_refs shop_root = []" "verify_hash time_hash shop_root"
    by (simp_all add: shop_root_def entry_new_def verify_hash_def)
  have f: "ps_oplog empty_shop = oplog_new shop_root" "ps_oplog ?t = oplog_new shop_root" "env_hash (pf_env demo_platform) = time_hash"
    "gr_base_ontology (ps_graph empty_shop) = gr_base_ontology (ps_graph ?t)"
    by (simp_all add: empty_shop_def fresh_store_def demo_platform_def graph_apply_def apply_inner_base)
  have "log_edges_agree time_hash [shop_root]"
    by (simp add: log_edges_agree_def edges_agree_def shop_root_def entry_new_def edge_adds.simps)
  then show ?thesis
    using revalidate_converges [OF demo_iter_ok reversed_ok _ _ _ f(4), of "[shop_root]"] listing_singleton [OF root(1,2)] oplog_new_inv [OF root(3,1)] f(1-3)
    by (metis (no_types, lifting))
qed

section \<open>Selective sync\<close>

abbreviation parents_in :: "(hash, entry) hash_map \<Rightarrow> hash \<Rightarrow> hash list" where
  "parents_in m h \<equiv> (case hm_get m h of None \<Rightarrow> [] | Some e \<Rightarrow> en_next e)"

interpretation kc: worklist_push "parents_in m" "keep_closure m" for m
proof unfold_locales
  fix v q :: "hash list"
  show "keep_closure m v [] = v" by simp
  assume "q \<noteq> []"
  then obtain h q0 where q: "q = h # q0" by (cases q) auto
  have "\<exists>new. keep_closure m v q = keep_closure m (v @ new) (q0 @ new) \<and> distinct new \<and> set new = set (parents_in m h) - set v"
  proof (cases "hm_get m h")
    case (Some e)
    obtain v' q' where k: "keep_parents (en_next e) v q0 = (v', q')" by (cases "keep_parents (en_next e) v q0")
    from keep_parents_spec [OF this] obtain new where "v' = v @ new" "q' = q0 @ new" "distinct new" "set new = set (en_next e) - set v" by blast
    with Some k show ?thesis by (intro exI [of _ new]) (simp add: q)
  qed (auto simp: q intro: exI [of _ "[]"])
  then obtain new where new: "keep_closure m v q = keep_closure m (v @ new) (q0 @ new)" "distinct new" "set new = set (parents_in m h) - set v" by blast
  from new(2) have "length new = card (set (parents_in m h) - set v)" unfolding new(3) [symmetric] by (simp add: distinct_card)
  moreover have "distinct v \<longrightarrow> distinct (v @ new)" "set (v @ new) = set v \<union> set (parents_in m h)" using new(2,3) by auto
  moreover have "set (q0 @ new) = set q0 \<union> (set (parents_in m h) - set v)" "mset q = add_mset h (mset q0)" using new(3) by (auto simp: q)
  ultimately show "\<exists>h q0 v' q'. mset q = add_mset h (mset q0) \<and> keep_closure m v q = keep_closure m v' q' \<and>
      set v' = set v \<union> set (parents_in m h) \<and> set q' = set q0 \<union> (set (parents_in m h) - set v) \<and>
      length q' = length q0 + card (set (parents_in m h) - set v) \<and> (distinct v \<longrightarrow> distinct v')"
    using new(1) by (metis length_append)
qed

lemma entry_map_get:
  assumes "distinct (map en_hash es)"
  shows "hm_get (fold (\<lambda>e. hm_insert (en_hash e) e) es m) h = Some x \<longleftrightarrow>
    x \<in> set es \<and> en_hash x = h \<or> h \<notin> en_hash ` set es \<and> hm_get m h = Some x"
  using assms by (induction es arbitrary: m) (auto simp: update_conv' image_iff split: if_splits)

text \<open>What the type filter selects from a full answer, and the parents within it.\<close>

definition selected :: "string list \<Rightarrow> entry list \<Rightarrow> entry \<Rightarrow> bool" where
  "selected types es e \<longleftrightarrow> e \<in> set es \<and> \<not> filtered_out types (wanted_nodes types es) (en_payload e)"

definition parent_rel :: "entry list \<Rightarrow> (entry \<times> entry) set" where
  "parent_rel es = {(e, p). e \<in> set es \<and> p \<in> set es \<and> en_hash p \<in> set (en_next e)}"

lemma closure_of_hashes:
  assumes dist: "distinct (map en_hash es)" and m: "m = fold (\<lambda>e. hm_insert (en_hash e) e) es []"
    and e: "e \<in> set es" and S: "S \<subseteq> set es"
  shows "en_hash e \<in> (succ_rel (parents_in m))\<^sup>* `` (en_hash ` S) \<longleftrightarrow> e \<in> (parent_rel es)\<^sup>* `` S"
proof -
  have uniq: "x = y" if "x \<in> set es" "y \<in> set es" "en_hash x = en_hash y" for x y
    using dist that by (auto simp: distinct_map inj_on_def)
  have get: "hm_get m h = Some x \<longleftrightarrow> x \<in> set es \<and> en_hash x = h" for h x unfolding m entry_map_get [OF dist] by simp
  have edge_in: "(h, p) \<in> succ_rel (parents_in m) \<longleftrightarrow> (\<exists>x \<in> set es. en_hash x = h \<and> p \<in> set (en_next x))" for h p
  proof (cases "hm_get m h")
    case None
    then have "\<not> (x \<in> set es \<and> en_hash x = h)" for x using get [of h x] by simp
    then show ?thesis using None by (auto simp: succ_rel_def)
  next
    case (Some e)
    then have "x \<in> set es \<and> en_hash x = h \<longleftrightarrow> x = e" for x using get [of h x] by auto
    moreover have "(h, p) \<in> succ_rel (parents_in m) \<longleftrightarrow> p \<in> set (en_next e)" using Some by (simp add: succ_rel_def)
    ultimately show ?thesis by metis
  qed
  have fwd: "(en_hash x, en_hash y) \<in> (succ_rel (parents_in m))\<^sup>*" if "(x, y) \<in> (parent_rel es)\<^sup>*" for x y
    using that
  proof (induction rule: rtrancl_induct)
    case (step y z)
    then have "(en_hash y, en_hash z) \<in> succ_rel (parents_in m)" unfolding edge_in by (auto simp: parent_rel_def)
    with step.IH show ?case by (rule rtrancl_into_rtrancl)
  qed simp
  have bwd: "y \<in> set es \<Longrightarrow> en_hash y = k \<Longrightarrow> (x, y) \<in> (parent_rel es)\<^sup>*" if "(h, k) \<in> (succ_rel (parents_in m))\<^sup>*" "x \<in> set es" "en_hash x = h" for x y h k
    using that(1)
  proof (induction arbitrary: y rule: rtrancl_induct)
    case base
    then show ?case using that(2,3) uniq by auto
  next
    case (step k k')
    obtain z where "z \<in> set es" "en_hash z = k" "k' \<in> set (en_next z)" using step.hyps(2) edge_in by blast
    then show ?case using step.IH [of z] step.prems by (auto simp: parent_rel_def intro: rtrancl_into_rtrancl)
  qed
  show ?thesis using fwd bwd e S by blast
qed

lemma entries_missing_listed:
  assumes "log_run H log" "well_linked log" "bloom_validate (so_bloom offer) = Inr ()"
  shows "\<exists>full. entries_missing log offer = Some full \<and> distinct (map en_hash (sp_entries full))"
proof -
  have "entries_since log None = topo_sort log (filter (\<lambda>h. h \<notin> {}) (reachable_from log (ol_heads log)))"
    by (simp add: entries_since_def)
  then obtain all where all: "entries_since log None = Some all" "distinct (map en_hash all)"
    using delta_correct [OF log_run_inv [OF assms(1)] assms(2), of "{}"] by auto
  moreover obtain misses where "bloom_misses (so_bloom offer) all = Some misses"
    using bloom_misses_Some [OF assms(3), of all] by auto
  ultimately show ?thesis by (auto simp: entries_missing_def Let_def distinct_map inj_on_def)
qed

text \<open>
  C20. What selective sync sends. To every offer that decodes, both calls answer: \<^verbatim>\<open>receive_filtered_sync_offer\<close>
  with exactly those entries of the full answer that the type filter selects and their ancestors within it.
  So with every entry each of its parents is sent that the full answer contains, and the batch can be
  merged wherever the full answer can.
\<close>

theorem filtered_sync_exact:
  assumes "log_run H (ps_oplog s)" and "well_linked (ps_oplog s)" and "offer_from_bytes len decoded = Inr offer"
  shows "\<exists>full es. receive_sync_offer s len decoded = Some (Inr full) \<and>
    receive_filtered_sync_offer s len decoded types = Some (Inr \<lparr>sp_entries = es, sp_need = sp_need full\<rparr>) \<and>
    set es = (parent_rel (sp_entries full))\<^sup>* `` {e. selected types (sp_entries full) e} \<and>
    (\<forall>e \<in> set es. \<forall>p \<in> set (sp_entries full). en_hash p \<in> set (en_next e) \<longrightarrow> p \<in> set es)"
proof -
  have "bloom_validate (so_bloom offer) = Inr ()"
    using assms(3) by (auto simp: offer_from_bytes_def split: if_splits option.splits sum.splits)
  then obtain full where full: "entries_missing (ps_oplog s) offer = Some full" "distinct (map en_hash (sp_entries full))"
    using entries_missing_listed [OF assms(1,2)] by blast
  let ?es = "sp_entries full" and ?S = "{e. selected types (sp_entries full) e}"
  define m where "m = fold (\<lambda>e. hm_insert (en_hash e) e) ?es []"
  define keep where "keep = remdups (map en_hash (filter (\<lambda>e. \<not> filtered_out types (wanted_nodes types ?es) (en_payload e)) ?es))"
  define sent where "sent = filter (\<lambda>e. en_hash e \<in> set (keep_closure m keep keep)) ?es"
  have "filtered_out (remdups types) w op = filtered_out types w op" for w op by (auto simp: filtered_out_def split: graph_op.splits)
  moreover have "wanted_nodes (remdups types) ?es = wanted_nodes types ?es" by (simp add: wanted_nodes_def cong: graph_op.case_cong)
  ultimately have run: "receive_filtered_sync_offer s len decoded types = Some (Inr \<lparr>sp_entries = sent, sp_need = sp_need full\<rparr>)"
    using assms(3) full(1) by (simp add: receive_filtered_sync_offer_def Let_def sent_def keep_def m_def)
  have keep: "set keep = en_hash ` ?S" "?S \<subseteq> set ?es" by (auto simp: keep_def selected_def)
  have "set (keep_closure m keep keep) = (succ_rel (parents_in m))\<^sup>* `` set keep"
    by (rule kc.run_closure(1)) (simp_all add: keep_def)
  then have "e \<in> set sent \<longleftrightarrow> e \<in> set ?es \<and> e \<in> (parent_rel ?es)\<^sup>* `` ?S" for e
    using closure_of_hashes [OF full(2) m_def _ keep(2), of e] by (auto simp: sent_def keep(1))
  moreover have "(parent_rel ?es)\<^sup>* `` ?S \<subseteq> set ?es"
    using keep(2) by (auto elim: rtranclE simp: parent_rel_def)
  ultimately have sent: "set sent = (parent_rel ?es)\<^sup>* `` ?S" by blast
  have "p \<in> set sent" if "e \<in> set sent" "p \<in> set ?es" "en_hash p \<in> set (en_next e)" for e p
  proof -
    have "e \<in> set ?es" using that(1) by (simp add: sent_def)
    then have "(e, p) \<in> parent_rel ?es" using that by (simp add: parent_rel_def)
    then show ?thesis using that(1) unfolding sent by (blast intro: rtrancl_into_rtrancl)
  qed
  moreover have "receive_sync_offer s len decoded = Some (Inr full)" using assms(3) full(1) by (simp add: receive_sync_offer_def)
  ultimately show ?thesis using run sent by blast
qed

theorem filtered_sync_exact_witness:
  "\<exists>es need. receive_filtered_sync_offer empty_shop 0 (Some \<lparr>so_protocol_version = 3, so_heads = [], so_bloom = full_bloom,
      so_physical_ms = 0, so_logical = 0\<rparr>) [''item''] = Some (Inr \<lparr>sp_entries = es, sp_need = need\<rparr>) \<and> shop_root \<in> set es"
proof -
  let ?o = "\<lparr>so_protocol_version = 3, so_heads = [], so_bloom = full_bloom, so_physical_ms = 0, so_logical = 0\<rparr>"
  have root: "en_next shop_root = []" "en_refs shop_root = []" "verify_hash time_hash shop_root"
    by (simp_all add: shop_root_def entry_new_def verify_hash_def)
  have log: "ps_oplog empty_shop = oplog_new shop_root" by (simp add: empty_shop_def fresh_store_def)
  have o: "offer_from_bytes 0 (Some ?o) = Inr ?o"
    by (simp add: offer_from_bytes_def full_bloom_def bloom_validate_def MAX_SYNC_BYTES_def PROTOCOL_VERSION_def)
  have "log_run time_hash (ps_oplog empty_shop)" "well_linked (ps_oplog empty_shop)"
    using log_run.genesis [OF root(3,1)] root by (auto simp: log well_linked_def oplog_get_def oplog_new_def split: if_splits)
  from filtered_sync_exact [OF this o, of "[''item'']"] obtain full es where f: "receive_sync_offer empty_shop 0 (Some ?o) = Some (Inr full)"
    "receive_filtered_sync_offer empty_shop 0 (Some ?o) [''item''] = Some (Inr \<lparr>sp_entries = es, sp_need = sp_need full\<rparr>)"
    "{e. selected [''item''] (sp_entries full) e} \<subseteq> set es" by auto
  have "entries_since (ps_oplog empty_shop) None = Some [shop_root]" unfolding log by (rule listing_singleton [OF root(1,2)])
  moreover have "h \<in> set (closure_loop lg [] (hs_insert h (remdups xs)) (hs_insert h (remdups xs)))" for h lg and xs :: "hash list"
    using closure_loop_closed(1) [of "hs_insert h (remdups xs)" lg "[]"] by (auto simp: hs_insert_def)
  ultimately have "shop_root \<in> set (sp_entries full)"
    using f(1) o by (auto simp: receive_sync_offer_def entries_missing_def log oplog_new_def Let_def split: option.splits)
  then have "selected [''item''] (sp_entries full) shop_root" by (simp add: selected_def filtered_out_def shop_root_def entry_new_def)
  with f(2,3) show ?thesis by blast
qed

end
