(* ===== verification/Silk_Buffer.thy ===== *)
theory Silk_Buffer
  imports Silk_Session
begin


text \<open>
  The buffer of operations that are written before a store is there (\<^verbatim>\<open>src/src/buffer.rs\<close>, and its Python class in
  \<^verbatim>\<open>src/src/python/mod.rs\<close>): one JSON object per line, appended to a file, later drained into a store.

  \<^item> The file is its bytes, or \<open>None\<close> when there is no file. The answers of the file system are the parameter
    \<open>file_system\<close>: whether the file can be opened, what a write or a truncation leaves behind and whether
    it reports success.
  \<^item> The JSON text of an operation is the parameter \<open>op_codec\<close>. Lines and \<^verbatim>\<open>str::trim\<close> are modelled.
\<close>

declare map_of_eq_Some_iff [simp del] Some_eq_map_of_iff [simp del]

section \<open>Lines\<close>

record file_system =
  fs_open_append :: "string option \<Rightarrow> bool"
  fs_append :: "string \<Rightarrow> string \<Rightarrow> string \<times> bool"
  fs_open :: "string \<Rightarrow> bool"
  fs_utf8 :: "string \<Rightarrow> bool"
  fs_truncate :: "string \<Rightarrow> string \<times> bool"

record op_codec =
  oc_encode :: "graph_op \<Rightarrow> string option"
  oc_decode :: "string \<Rightarrow> graph_op option"

text \<open>\<^verbatim>\<open>BufRead::lines\<close>: the pieces between the newlines, without the empty piece after the last one and without a
  carriage return before the newline.\<close>

abbreviation newline :: char where
  "newline \<equiv> CHR 0x0A"

definition chomp :: "string \<Rightarrow> string" where
  "chomp l = (if l \<noteq> [] \<and> last l = CHR 0x0D then butlast l else l)"

fun file_lines :: "string \<Rightarrow> string \<Rightarrow> string list" where
  "file_lines acc [] = (if acc = [] then [] else [acc])"
| "file_lines acc (c # cs) = (if c = newline then chomp acc # file_lines [] cs else file_lines (acc @ [c]) cs)"

text \<open>\<^verbatim>\<open>str::trim\<close>: the code points with the Unicode property \<^verbatim>\<open>White_Space\<close>, as UTF-8.\<close>

definition WHITE_SPACE :: "string list" where
  "WHITE_SPACE = [[CHR 0x09], [CHR 0x0A], [CHR 0x0B], [CHR 0x0C], [CHR 0x0D], [CHR 0x20], [CHR 0xC2, CHR 0x85], [CHR 0xC2, CHR 0xA0],
     [CHR 0xE1, CHR 0x9A, CHR 0x80]] @ map (\<lambda>c. [CHR 0xE2, CHR 0x80, c]) [CHR 0x80, CHR 0x81, CHR 0x82, CHR 0x83, CHR 0x84,
       CHR 0x85, CHR 0x86, CHR 0x87, CHR 0x88, CHR 0x89, CHR 0x8A, CHR 0xA8, CHR 0xA9, CHR 0xAF] @
     [[CHR 0xE2, CHR 0x81, CHR 0x9F], [CHR 0xE3, CHR 0x80, CHR 0x80]]"

function trim_front :: "string list \<Rightarrow> string \<Rightarrow> string" where
  "trim_front spaces s = (case find (\<lambda>w. w \<noteq> [] \<and> take (length w) s = w) spaces of Some w \<Rightarrow> trim_front spaces (drop (length w) s) | None \<Rightarrow> s)"
  by pat_completeness auto

termination trim_front
proof (relation "measure (\<lambda>(spaces, s). length s)", goal_cases)
  case (2 spaces s w)
  then have "w \<noteq> []" "take (length w) s = w" by (auto dest: find_SomeD)
  moreover from this have "length w \<le> length s" by (metis length_take min.cobounded1)
  ultimately have "0 < length w" "0 < length s" by auto
  then show ?case using diff_less [of "length w" "length s"] by simp
qed simp

declare trim_front.simps [simp del]

definition trim :: "string \<Rightarrow> string" where
  "trim s = rev (trim_front (map rev WHITE_SPACE) (rev (trim_front WHITE_SPACE s)))"

section \<open>The buffer\<close>

datatype buffer_error = Serialize | OpenFailed | WriteFailed | ReadLine nat | ParseLine nat | TruncateFailed

definition buffer_append :: "file_system \<Rightarrow> op_codec \<Rightarrow> string option \<Rightarrow> graph_op \<Rightarrow> string option \<times> (buffer_error, unit) result" where
  "buffer_append F C buf op =
     (case oc_encode C op of None \<Rightarrow> (buf, Inl Serialize)
      | Some json \<Rightarrow>
        if \<not> fs_open_append F buf then (buf, Inl OpenFailed)
        else (case fs_append F (case buf of None \<Rightarrow> [] | Some contents \<Rightarrow> contents) (json @ [newline]) of
          (contents, ok) \<Rightarrow> (Some contents, if ok then Inr () else Inl WriteFailed)))"

fun read_lines :: "file_system \<Rightarrow> op_codec \<Rightarrow> nat \<Rightarrow> string list \<Rightarrow> (buffer_error, graph_op list) result" where
  "read_lines F C i [] = Inr []"
| "read_lines F C i (line # rest) =
     (if \<not> fs_utf8 F line then Inl (ReadLine (i + 1))
      else let trimmed = trim line in
        if trimmed = [] then read_lines F C (i + 1) rest
        else case oc_decode C trimmed of None \<Rightarrow> Inl (ParseLine (i + 1))
        | Some op \<Rightarrow> (case read_lines F C (i + 1) rest of Inl err \<Rightarrow> Inl err | Inr ops \<Rightarrow> Inr (op # ops)))"

definition buffer_read_all :: "file_system \<Rightarrow> op_codec \<Rightarrow> string option \<Rightarrow> (buffer_error, graph_op list) result" where
  "buffer_read_all F C buf =
     (case buf of None \<Rightarrow> Inr []
      | Some contents \<Rightarrow> if \<not> fs_open F contents then Inl OpenFailed else read_lines F C 0 (file_lines [] contents))"

definition buffer_len :: "file_system \<Rightarrow> string option \<Rightarrow> nat" where
  "buffer_len F buf =
     (case buf of None \<Rightarrow> 0
      | Some contents \<Rightarrow> if \<not> fs_open F contents then 0
          else length (filter (\<lambda>l. trim l \<noteq> []) (takeWhile (fs_utf8 F) (file_lines [] contents))))"

definition buffer_is_empty :: "file_system \<Rightarrow> string option \<Rightarrow> bool" where
  "buffer_is_empty F buf \<longleftrightarrow> buffer_len F buf = 0"

definition buffer_clear :: "file_system \<Rightarrow> string option \<Rightarrow> string option \<times> (buffer_error, unit) result" where
  "buffer_clear F buf =
     (case buf of None \<Rightarrow> (None, Inr ())
      | Some contents \<Rightarrow> (case fs_truncate F contents of (contents', ok) \<Rightarrow> (Some contents', if ok then Inr () else Inl TruncateFailed)))"

section \<open>The Python class\<close>

datatype buffer_failure = BufferIo buffer_error | BufferConvert convert_error | NotBufferable nat nat nat | StoreRefused py_error

definition io_error :: "string option \<times> (buffer_error, unit) result \<Rightarrow> string option \<times> (buffer_failure, unit) result" where
  "io_error r = map_prod id (map_sum BufferIo id) r"

definition buffer_add_node :: "file_system \<Rightarrow> op_codec \<Rightarrow> 'o py_api \<Rightarrow> string option \<Rightarrow> string \<Rightarrow> string \<Rightarrow> string \<Rightarrow> ('o \<times> 'o) list option \<Rightarrow>
    string option \<Rightarrow> string option \<times> (buffer_failure, unit) result" where
  "buffer_add_node F C A buf node_id node_type label properties subtype =
     (case convert_props A properties of Inl err \<Rightarrow> (buf, Inl (BufferConvert err))
      | Inr props \<Rightarrow> io_error (buffer_append F C buf (AddNode node_id node_type subtype label props)))"

definition buffer_add_edge :: "file_system \<Rightarrow> op_codec \<Rightarrow> 'o py_api \<Rightarrow> string option \<Rightarrow> string \<Rightarrow> string \<Rightarrow> string \<Rightarrow> string \<Rightarrow>
    ('o \<times> 'o) list option \<Rightarrow> string option \<times> (buffer_failure, unit) result" where
  "buffer_add_edge F C A buf edge_id edge_type source_id target_id properties =
     (case convert_props A properties of Inl err \<Rightarrow> (buf, Inl (BufferConvert err))
      | Inr props \<Rightarrow> io_error (buffer_append F C buf (AddEdge edge_id edge_type source_id target_id props)))"

definition buffer_update_property :: "file_system \<Rightarrow> op_codec \<Rightarrow> 'o py_api \<Rightarrow> string option \<Rightarrow> string \<Rightarrow> string \<Rightarrow> 'o \<Rightarrow>
    string option \<times> (buffer_failure, unit) result" where
  "buffer_update_property F C A buf entity_id key obj =
     (case py_to_value A obj of Inl err \<Rightarrow> (buf, Inl (BufferConvert err))
      | Inr v \<Rightarrow> io_error (buffer_append F C buf (UpdateProperty entity_id key v)))"

definition buffer_remove_node :: "file_system \<Rightarrow> op_codec \<Rightarrow> string option \<Rightarrow> string \<Rightarrow> string option \<times> (buffer_failure, unit) result" where
  "buffer_remove_node F C buf node_id = io_error (buffer_append F C buf (RemoveNode node_id))"

definition buffer_remove_edge :: "file_system \<Rightarrow> op_codec \<Rightarrow> string option \<Rightarrow> string \<Rightarrow> string option \<times> (buffer_failure, unit) result" where
  "buffer_remove_edge F C buf edge_id = io_error (buffer_append F C buf (RemoveEdge edge_id))"

text \<open>\<^verbatim>\<open>rewrite_remaining\<close>: truncate, then append one by one.\<close>

fun append_each :: "file_system \<Rightarrow> op_codec \<Rightarrow> string option \<Rightarrow> graph_op list \<Rightarrow> string option \<times> (buffer_error, unit) result" where
  "append_each F C buf [] = (buf, Inr ())"
| "append_each F C buf (op # ops) =
     (case buffer_append F C buf op of (buf', Inl err) \<Rightarrow> (buf', Inl err) | (buf', Inr _) \<Rightarrow> append_each F C buf' ops)"

definition rewrite_remaining :: "file_system \<Rightarrow> op_codec \<Rightarrow> string option \<Rightarrow> graph_op list \<Rightarrow> string option \<times> (buffer_error, unit) result" where
  "rewrite_remaining F C buf remaining =
     (case buffer_clear F buf of (buf', Inl err) \<Rightarrow> (buf', Inl err) | (buf', Inr _) \<Rightarrow> append_each F C buf' remaining)"

definition unbufferable :: "graph_op \<Rightarrow> bool" where
  "unbufferable op = (case op of DefineOntology _ \<Rightarrow> True | ExtendOntology _ \<Rightarrow> True | Checkpoint _ _ _ _ \<Rightarrow> True | _ \<Rightarrow> False)"

text \<open>The loop of \<^verbatim>\<open>drain\<close> from position \<open>i\<close> on; the store's append reads the wall clock once per operation.\<close>

fun drain_loop :: "('d, 't, 'v, 'sk, 'pk) platform \<Rightarrow> file_system \<Rightarrow> op_codec \<Rightarrow> (nat \<Rightarrow> u64) \<Rightarrow> nat \<Rightarrow> nat \<Rightarrow> graph_op list \<Rightarrow> string option \<Rightarrow>
    ('d, 'sk, 'pk, 'cb) py_store \<Rightarrow> string option \<times> ('d, 'sk, 'pk, 'cb) py_store \<times> (buffer_failure, nat) result" where
  "drain_loop P F C walls i applied [] buf s =
     (case buffer_clear F buf of (buf', Inl err) \<Rightarrow> (buf', s, Inl (BufferIo err)) | (buf', Inr _) \<Rightarrow> (buf', s, Inr applied))"
| "drain_loop P F C walls i applied (op # ops) buf s =
     (if unbufferable op then
        (case rewrite_remaining F C buf (op # ops) of
           (buf', Inl err) \<Rightarrow> (buf', s, Inl (BufferIo err))
         | (buf', Inr _) \<Rightarrow> (buf', s, Inl (NotBufferable i applied (length (op # ops)))))
      else (case ps_append P (walls i) s op of
          (s1, Inr _) \<Rightarrow> drain_loop P F C walls (i + 1) (applied + 1) ops buf (s1\<lparr>ps_node_types := track_node_type op (ps_node_types s1)\<rparr>)
        | (s1, Inl refused) \<Rightarrow>
            (case rewrite_remaining F C buf (op # ops) of
               (buf', Inl err) \<Rightarrow> (buf', s1, Inl (BufferIo err))
             | (buf', Inr _) \<Rightarrow> (buf', s1, Inl (StoreRefused refused)))))"

definition drain :: "('d, 't, 'v, 'sk, 'pk) platform \<Rightarrow> file_system \<Rightarrow> op_codec \<Rightarrow> (nat \<Rightarrow> u64) \<Rightarrow> string option \<Rightarrow> ('d, 'sk, 'pk, 'cb) py_store \<Rightarrow>
    string option \<times> ('d, 'sk, 'pk, 'cb) py_store \<times> (buffer_failure, nat) result" where
  "drain P F C walls buf s =
     (case buffer_read_all F C buf of Inl err \<Rightarrow> (buf, s, Inl (BufferIo err))
      | Inr ops \<Rightarrow> drain_loop P F C walls 0 0 ops buf s)"

section \<open>Reading back what was written\<close>

text \<open>A file system on which nothing fails, and an operation that JSON gives back: an object on one line.\<close>

definition fs_up :: "file_system \<Rightarrow> bool" where
  "fs_up F \<longleftrightarrow> (\<forall>buf. fs_open_append F buf) \<and> (\<forall>old new. fs_append F old new = (old @ new, True)) \<and>
     (\<forall>contents. fs_open F contents) \<and> (\<forall>contents. fs_truncate F contents = ([], True))"

definition op_reads_back :: "file_system \<Rightarrow> op_codec \<Rightarrow> graph_op \<Rightarrow> bool" where
  "op_reads_back F C op \<longleftrightarrow> (\<exists>t. oc_encode C op = Some t \<and> oc_decode C t = Some op \<and> t \<noteq> [] \<and> hd t = CHR ''{'' \<and> last t = CHR ''}'' \<and>
     newline \<notin> set t \<and> fs_utf8 F t)"

lemma trim_front_stays:
  assumes "\<forall>w \<in> set spaces. w = [] \<or> hd w \<noteq> hd s" "s \<noteq> []"
  shows "trim_front spaces s = s"
proof -
  have "find (\<lambda>w. w \<noteq> [] \<and> take (length w) s = w) spaces = None"
    using assms by (auto simp: find_None_list_all list_all_iff) (metis hd_take length_greater_0_conv)
  then show ?thesis by (simp add: trim_front.simps)
qed

lemma trim_object:
  assumes "t \<noteq> []" "hd t = CHR ''{''" "last t = CHR ''}''"
  shows "trim t = t"
proof -
  have "\<forall>w \<in> set WHITE_SPACE. w = [] \<or> hd w \<noteq> CHR ''{''" by (simp add: WHITE_SPACE_def)
  then have 1: "trim_front WHITE_SPACE t = t" using assms by (intro trim_front_stays) auto
  have "\<forall>w \<in> set (map rev WHITE_SPACE). w = [] \<or> hd w \<noteq> CHR ''}''" by (simp add: WHITE_SPACE_def)
  then have "trim_front (map rev WHITE_SPACE) (rev t) = rev t" using assms by (intro trim_front_stays) (auto simp: hd_rev)
  with 1 show ?thesis by (simp add: trim_def)
qed

abbreviation buffer_text :: "string option \<Rightarrow> string" where
  "buffer_text buf \<equiv> (case buf of None \<Rightarrow> [] | Some contents \<Rightarrow> contents)"

definition text_of :: "op_codec \<Rightarrow> graph_op list \<Rightarrow> string" where
  "text_of C ops = concat (map (\<lambda>op. the (oc_encode C op) @ [newline]) ops)"

lemma file_lines_step: "newline \<notin> set t \<Longrightarrow> file_lines acc (t @ newline # rest) = chomp (acc @ t) # file_lines [] rest"
  by (induction t arbitrary: acc) auto

lemma lines_of_text:
  assumes "\<forall>op \<in> set ops. op_reads_back F C op"
  shows "file_lines [] (text_of C ops) = map (\<lambda>op. the (oc_encode C op)) ops"
  using assms by (induction ops) (auto simp: text_of_def op_reads_back_def file_lines_step chomp_def)

lemma read_lines_of_text:
  assumes "\<forall>op \<in> set ops. op_reads_back F C op"
  shows "read_lines F C i (map (\<lambda>op. the (oc_encode C op)) ops) = Inr ops"
  using assms by (induction ops arbitrary: i) (auto simp: op_reads_back_def trim_object Let_def)

lemma read_all_text:
  assumes "fs_up F" "\<forall>op \<in> set ops. op_reads_back F C op" "buffer_text buf = text_of C ops"
  shows "buffer_read_all F C buf = Inr ops" "buffer_len F buf = length ops"
proof -
  have none: "ops = []" if "buf = None" using assms(3) that by (cases ops) (auto simp: text_of_def)
  have "\<forall>l \<in> set (map (\<lambda>op. the (oc_encode C op)) ops). fs_utf8 F l \<and> trim l \<noteq> []"
    using assms(2) by (auto simp: op_reads_back_def trim_object)
  then have "length (filter (\<lambda>l. trim l \<noteq> []) (takeWhile (fs_utf8 F) (map (\<lambda>op. the (oc_encode C op)) ops))) = length ops"
    by (simp add: takeWhile_eq_all_conv [THEN iffD2] filter_True)
  then show "buffer_read_all F C buf = Inr ops" "buffer_len F buf = length ops"
    using assms none lines_of_text [OF assms(2)] read_lines_of_text [OF assms(2)]
    by (auto simp: buffer_read_all_def buffer_len_def fs_up_def split: option.splits)
qed

lemma append_each_text:
  assumes "fs_up F" "\<forall>op \<in> set ops. op_reads_back F C op"
  shows "\<exists>buf'. append_each F C buf ops = (buf', Inr ()) \<and> buffer_text buf' = buffer_text buf @ text_of C ops"
  using assms(2)
proof (induction ops arbitrary: buf)
  case (Cons op ops)
  then obtain t where "oc_encode C op = Some t" by (auto simp: op_reads_back_def)
  then have "buffer_append F C buf op = (Some (buffer_text buf @ t @ [newline]), Inr ())"
    using assms(1) by (simp add: buffer_append_def fs_up_def)
  with Cons.IH [of "Some (buffer_text buf @ t @ [newline])"] Cons.prems \<open>oc_encode C op = Some t\<close>
  show ?case by (simp add: text_of_def)
qed (simp add: text_of_def)

lemma rewrite_text:
  assumes "fs_up F" "\<forall>op \<in> set ops. op_reads_back F C op"
  shows "\<exists>buf'. rewrite_remaining F C buf ops = (buf', Inr ()) \<and> buffer_text buf' = text_of C ops"
proof -
  obtain f where "buffer_clear F buf = (f, Inr ())" "buffer_text f = []"
    using assms(1) by (cases buf) (auto simp: buffer_clear_def fs_up_def)
  then show ?thesis using append_each_text [OF assms, of f] by (simp add: rewrite_remaining_def)
qed

text \<open>
  C38. What is buffered is read back: appending operations to a new buffer succeeds, and reading it returns
  the same operations in the same order, as many as \<^verbatim>\<open>len\<close> counts.
\<close>

theorem buffer_roundtrip:
  assumes "fs_up F" and "\<forall>op \<in> set ops. op_reads_back F C op"
  shows "\<exists>buf. append_each F C None ops = (buf, Inr ()) \<and> buffer_read_all F C buf = Inr ops \<and> buffer_len F buf = length ops"
  using append_each_text [OF assms, of None] read_all_text [OF assms] by auto

text \<open>A codec that knows one kind of operation, and a disk on which nothing fails.\<close>

definition plain_disk :: file_system where
  "plain_disk = \<lparr>fs_open_append = (\<lambda>_. True), fs_append = (\<lambda>old new. (old @ new, True)), fs_open = (\<lambda>_. True), fs_utf8 = (\<lambda>_. True),
     fs_truncate = (\<lambda>_. ([], True))\<rparr>"

definition removal_codec :: op_codec where
  "removal_codec = \<lparr>oc_encode = (\<lambda>op. case op of RemoveNode i \<Rightarrow> Some (CHR ''{'' # i @ ''}'') | _ \<Rightarrow> None),
     oc_decode = (\<lambda>t. Some (RemoveNode (butlast (tl t))))\<rparr>"

lemma plain_disk_up: "fs_up plain_disk"
  by (simp add: fs_up_def plain_disk_def)

lemma removals_read_back: "\<forall>op \<in> set [RemoveNode ''x'', RemoveNode ''y'']. op_reads_back plain_disk removal_codec op"
  by (simp add: op_reads_back_def removal_codec_def plain_disk_def)

theorem buffer_roundtrip_witness:
  "\<exists>buf. append_each plain_disk removal_codec None [RemoveNode ''x'', RemoveNode ''y''] = (buf, Inr ()) \<and>
     buffer_read_all plain_disk removal_codec buf = Inr [RemoveNode ''x'', RemoveNode ''y''] \<and> buffer_len plain_disk buf = length [RemoveNode ''x'', RemoveNode ''y'']"
  by (rule buffer_roundtrip [OF plain_disk_up removals_read_back])

section \<open>Draining\<close>

text \<open>The store after some operations were appended from position \<open>i\<close> on, and that all of them were accepted.\<close>

fun drained :: "('d, 't, 'v, 'sk, 'pk) platform \<Rightarrow> (nat \<Rightarrow> u64) \<Rightarrow> nat \<Rightarrow> graph_op list \<Rightarrow> ('d, 'sk, 'pk, 'cb) py_store \<Rightarrow> ('d, 'sk, 'pk, 'cb) py_store" where
  "drained P walls i [] s = s"
| "drained P walls i (op # ops) s = drained P walls (i + 1) ops
     ((fst (ps_append P (walls i) s op))\<lparr>ps_node_types := track_node_type op (ps_node_types (fst (ps_append P (walls i) s op)))\<rparr>)"

fun accepted :: "('d, 't, 'v, 'sk, 'pk) platform \<Rightarrow> (nat \<Rightarrow> u64) \<Rightarrow> nat \<Rightarrow> graph_op list \<Rightarrow> ('d, 'sk, 'pk, 'cb) py_store \<Rightarrow> bool" where
  "accepted P walls i [] s = True"
| "accepted P walls i (op # ops) s = (\<not> unbufferable op \<and> \<not> isl (snd (ps_append P (walls i) s op)) \<and>
     accepted P walls (i + 1) ops
       ((fst (ps_append P (walls i) s op))\<lparr>ps_node_types := track_node_type op (ps_node_types (fst (ps_append P (walls i) s op)))\<rparr>))"

lemma drain_loop_spec:
  assumes F: "fs_up F"
  shows "\<forall>op \<in> set ops. op_reads_back F C op \<Longrightarrow> drain_loop P F C walls i a ops buf s = (buf', s', r) \<Longrightarrow>
    \<exists>k \<le> length ops. accepted P walls i (take k ops) s \<and> buffer_text buf' = text_of C (drop k ops) \<and>
      (if k = length ops then r = Inr (a + k) \<and> s' = drained P walls i ops s
       else \<exists>err. r = Inl err \<and>
         (unbufferable (ops ! k) \<and> s' = drained P walls i (take k ops) s \<or>
          (\<exists>e. ps_append P (walls (i + k)) (drained P walls i (take k ops) s) (ops ! k) = (s', Inl e) \<and> err = StoreRefused e)))"
proof (induction ops arbitrary: i a s)
  case Nil
  then show ?case using F by (cases buf) (auto simp: buffer_clear_def fs_up_def text_of_def)
next
  case (Cons op ops)
  obtain f where f: "rewrite_remaining F C buf (op # ops) = (f, Inr ())" "buffer_text f = text_of C (op # ops)"
    using rewrite_text [OF F Cons.prems(1)] by blast
  obtain s1 r1 where app: "ps_append P (walls i) s op = (s1, r1)" by (cases "ps_append P (walls i) s op")
  let ?s1 = "s1\<lparr>ps_node_types := track_node_type op (ps_node_types s1)\<rparr>"
  consider "unbufferable op" | e where "\<not> unbufferable op" "r1 = Inl e" | h where "\<not> unbufferable op" "r1 = Inr h" by (cases r1) auto
  then show ?case
  proof cases
    case 1
    then show ?thesis using Cons.prems(2) f by (intro exI [of _ 0]) auto
  next
    case 2
    then show ?thesis using Cons.prems(2) f app by (intro exI [of _ 0]) auto
  next
    case 3
    then have run: "drain_loop P F C walls (i + 1) (a + 1) ops buf ?s1 = (buf', s', r)" using Cons.prems(2) app by simp
    from Cons.IH [OF _ run] Cons.prems(1) obtain k where k: "k \<le> length ops" "accepted P walls (i + 1) (take k ops) ?s1"
      "buffer_text buf' = text_of C (drop k ops)"
      "if k = length ops then r = Inr (a + 1 + k) \<and> s' = drained P walls (i + 1) ops ?s1
       else \<exists>err. r = Inl err \<and> (unbufferable (ops ! k) \<and> s' = drained P walls (i + 1) (take k ops) ?s1 \<or>
          (\<exists>e. ps_append P (walls (i + 1 + k)) (drained P walls (i + 1) (take k ops) ?s1) (ops ! k) = (s', Inl e) \<and> err = StoreRefused e))"
      by auto
    then show ?thesis using 3 app by (intro exI [of _ "Suc k"]) auto
  qed
qed

text \<open>
  C18. Draining takes a prefix. If the store accepts everything, all operations are applied, their number is
  returned and the buffer is empty. Otherwise exactly the operations before the first refused one are
  applied, and the buffer then holds that one and all after it, so that a later drain continues there.
\<close>

theorem drain_exact:
  assumes "fs_up F" and "\<forall>op \<in> set ops. op_reads_back F C op" and "buffer_text buf = text_of C ops"
    and "drain P F C walls buf s = (buf', s', r)"
  shows "\<exists>k \<le> length ops. accepted P walls 0 (take k ops) s \<and> buffer_read_all F C buf' = Inr (drop k ops) \<and>
      (if k = length ops then r = Inr k \<and> s' = drained P walls 0 ops s
       else \<exists>err. r = Inl err \<and>
         (unbufferable (ops ! k) \<and> s' = drained P walls 0 (take k ops) s \<or>
          (\<exists>e. ps_append P (walls k) (drained P walls 0 (take k ops) s) (ops ! k) = (s', Inl e) \<and> err = StoreRefused e)))"
proof -
  have "drain_loop P F C walls 0 0 ops buf s = (buf', s', r)" using assms(4) read_all_text(1) [OF assms(1-3)] by (simp add: drain_def)
  from drain_loop_spec [OF assms(1,2) this] obtain k where k: "k \<le> length ops" "accepted P walls 0 (take k ops) s"
    "buffer_text buf' = text_of C (drop k ops)"
    "if k = length ops then r = Inr (0 + k) \<and> s' = drained P walls 0 ops s
       else \<exists>err. r = Inl err \<and> (unbufferable (ops ! k) \<and> s' = drained P walls 0 (take k ops) s \<or>
          (\<exists>e. ps_append P (walls (0 + k)) (drained P walls 0 (take k ops) s) (ops ! k) = (s', Inl e) \<and> err = StoreRefused e))" by blast
  have "buffer_read_all F C buf' = Inr (drop k ops)"
    using assms(2) k(3) by (intro read_all_text(1) [OF assms(1)]) (auto dest: in_set_dropD)
  with k show ?thesis by (intro exI [of _ k]) auto
qed


theorem drain_exact_witness:
  "\<exists>buf s' r k. drain demo_platform plain_disk removal_codec (\<lambda>i. 20) (Some (text_of removal_codec [RemoveNode ''x'', RemoveNode ''y''])) empty_shop = (buf, s', r) \<and>
     k \<le> length [RemoveNode ''x'', RemoveNode ''y''] \<and> buffer_read_all plain_disk removal_codec buf = Inr (drop k [RemoveNode ''x'', RemoveNode ''y''])"
proof -
  let ?ops = "[RemoveNode ''x'', RemoveNode ''y'']" and ?buf = "Some (text_of removal_codec [RemoveNode ''x'', RemoveNode ''y''])"
  obtain buf s' r where run: "drain demo_platform plain_disk removal_codec (\<lambda>i. 20) ?buf empty_shop = (buf, s', r)"
    by (cases "drain demo_platform plain_disk removal_codec (\<lambda>i. 20) ?buf empty_shop")
  obtain k where "k \<le> length ?ops" "buffer_read_all plain_disk removal_codec buf = Inr (drop k ?ops)"
    using drain_exact [OF plain_disk_up removals_read_back _ run] by auto
  then show ?thesis using run by blast
qed

text \<open>
  The rewrite is not atomic: it truncates the file first. If the file then cannot be opened for writing, all
  operations that were still waiting are lost, though the store took none of them.
\<close>

definition ghost :: graph_op where
  "ghost = AddNode ''g'' ''ghost'' None ''g'' []"

definition ghost_codec :: op_codec where
  "ghost_codec = \<lparr>oc_encode = (\<lambda>_. Some ''{}''), oc_decode = (\<lambda>_. Some ghost)\<rparr>"

definition locked_disk :: file_system where
  "locked_disk = plain_disk\<lparr>fs_open_append := (\<lambda>_. False)\<rparr>"

theorem failed_rewrite_loses_operations:
  "\<exists>s. buffer_read_all locked_disk ghost_codec (Some (''{}'' @ [newline])) = Inr [ghost] \<and>
     drain demo_platform locked_disk ghost_codec (\<lambda>_. 20) (Some (''{}'' @ [newline])) empty_shop = (Some [], s, Inl (BufferIo OpenFailed)) \<and>
     ps_oplog s = ps_oplog empty_shop"
proof -
  have read: "buffer_read_all locked_disk ghost_codec (Some (''{}'' @ [newline])) = Inr [ghost]"
    using trim_object [of "''{}''"] by (simp add: buffer_read_all_def locked_disk_def plain_disk_def ghost_codec_def chomp_def)
  have "bt_get (on_node_types shop_ontology) ''ghost'' = None" by (simp add: shop_ontology_def)
  then have "\<exists>s err. ps_append demo_platform 20 empty_shop ghost = (s, Inl err) \<and> ps_oplog s = ps_oplog empty_shop"
    by (simp add: ghost_def ps_append_def Let_def validate_entry_payload_def validate_node_def validate_node_mode_def) (simp add: empty_shop_def fresh_store_def)
  then obtain s err where "ps_append demo_platform 20 empty_shop ghost = (s, Inl err)" "ps_oplog s = ps_oplog empty_shop" by blast
  then show ?thesis
    using read by (simp add: drain_def unbufferable_def rewrite_remaining_def buffer_clear_def buffer_append_def locked_disk_def plain_disk_def
        ghost_codec_def)
qed

end
