(* ===== verification/Silk_Query.thy ===== *)
theory Silk_Query
  imports Silk_Merge Silk_Provenance Silk_Pattern Silk_Order Silk_Extension
begin


text \<open>
  Reading through the Python classes: the read-only methods of \<^verbatim>\<open>PyGraphStore\<close> (\<^verbatim>\<open>src/src/python/mod.rs\<close>) and of its
  historical snapshot \<^verbatim>\<open>PyGraphSnapshot\<close> (\<^verbatim>\<open>src/src/python/snapshot.rs\<close>), and the calls that pass through to the peer
  registry. They compose the log, the graph and the algorithms with the conversions to Python objects;
  what can fail is the conversion.

  \<^item> Queries collect with \<^verbatim>\<open>?\<close>, so one value that cannot be converted fails the whole list; \<^verbatim>\<open>get\<close>, \<^verbatim>\<open>get_node\<close> and
    \<^verbatim>\<open>get_edge\<close> unwrap, which is a panic (\<open>None\<close>).
  \<^item> The JSON text of a payload or of the ontology comes from a crate and is a parameter.
\<close>

section \<open>The log\<close>

fun collect_ok :: "('a \<Rightarrow> ('e, 'b) result) \<Rightarrow> 'a list \<Rightarrow> ('e, 'b list) result" where
  "collect_ok f [] = Inr []"
| "collect_ok f (x # xs) =
     (case f x of Inl e \<Rightarrow> Inl e | Inr y \<Rightarrow> (case collect_ok f xs of Inl e \<Rightarrow> Inl e | Inr ys \<Rightarrow> Inr (y # ys)))"

datatype read_error = Unconvertible convert_error | PayloadUnwritable

definition entries_to_py :: "hex_codec \<Rightarrow> (graph_op \<Rightarrow> string option) \<Rightarrow> entry list \<Rightarrow> (read_error, py_object list) result" where
  "entries_to_py X render es =
     collect_ok (\<lambda>e. case entry_to_pydict X render e of None \<Rightarrow> Inl PayloadUnwritable | Some d \<Rightarrow> Inr d) es"

definition ps_get :: "hex_codec \<Rightarrow> (graph_op \<Rightarrow> string option) \<Rightarrow> ('d, 'sk, 'pk, 'cb) py_store \<Rightarrow> string \<Rightarrow>
    (read_error, py_object option) result option" where
  "ps_get X render s hex =
     (case parse_hex_hash X hex of Inl err \<Rightarrow> Some (Inl (Unconvertible err))
      | Inr h \<Rightarrow>
        (case oplog_get (ps_oplog s) h of None \<Rightarrow> Some (Inr None)
         | Some e \<Rightarrow> (case entry_to_pydict X render e of None \<Rightarrow> None | Some d \<Rightarrow> Some (Inr (Some d)))))"

definition ps_heads :: "hex_codec \<Rightarrow> ('d, 'sk, 'pk, 'cb) py_store \<Rightarrow> string list" where
  "ps_heads X s = map (hex_hash X) (ol_heads (ps_oplog s))"

definition ps_len :: "('d, 'sk, 'pk, 'cb) py_store \<Rightarrow> nat" where
  "ps_len s = ol_len (ps_oplog s)"

definition ps_verify_integrity :: "('d, 't, 'v, 'sk, 'pk) platform \<Rightarrow> ('d, 'sk, 'pk, 'cb) py_store \<Rightarrow> bool \<times> integrity_error list" where
  "ps_verify_integrity P s = (let errors = verify_integrity (env_hash (pf_env P)) (ps_oplog s) in (errors = [], errors))"

definition ps_memory_usage :: "(entry \<Rightarrow> nat) \<Rightarrow> nat \<Rightarrow> ('d, 'sk, 'pk, 'cb) py_store \<Rightarrow> (string, nat) hash_map" where
  "ps_memory_usage bytes_len value_size s =
     (let oplog_bytes = oplog_estimated_memory_bytes bytes_len (ps_oplog s);
          graph_bytes = graph_estimated_memory_bytes value_size (ps_graph s)
      in [(''oplog_bytes'', oplog_bytes), (''graph_bytes'', graph_bytes), (''total_bytes'', oplog_bytes + graph_bytes)])"

definition ps_clock_time :: "('d, 'sk, 'pk, 'cb) py_store \<Rightarrow> u64 \<times> u32" where
  "ps_clock_time s = as_tuple (ps_clock s)"

definition ps_entries_since :: "hex_codec \<Rightarrow> (graph_op \<Rightarrow> string option) \<Rightarrow> ('d, 'sk, 'pk, 'cb) py_store \<Rightarrow> string option \<Rightarrow>
    (read_error, py_object list) result option" where
  "ps_entries_since X render s hex =
     (case (case hex of None \<Rightarrow> Inr None | Some x \<Rightarrow> map_sum id Some (parse_hex_hash X x)) of
        Inl err \<Rightarrow> Some (Inl (Unconvertible err))
      | Inr known \<Rightarrow> map_option (entries_to_py X render) (entries_since (ps_oplog s) known))"

definition ps_entries_affecting :: "hex_codec \<Rightarrow> (graph_op \<Rightarrow> string option) \<Rightarrow> ('d, 'sk, 'pk, 'cb) py_store \<Rightarrow> string \<Rightarrow>
    (read_error, py_object list) result option" where
  "ps_entries_affecting X render s i = map_option (entries_to_py X render) (entries_affecting (ps_oplog s) i)"

section \<open>The ontology\<close>

definition ps_node_type_names :: "('d, 'sk, 'pk, 'cb) py_store \<Rightarrow> string list" where
  "ps_node_type_names s = map fst (on_node_types (ps_ontology s))"

definition ps_edge_type_names :: "('d, 'sk, 'pk, 'cb) py_store \<Rightarrow> string list" where
  "ps_edge_type_names s = map fst (on_edge_types (ps_ontology s))"

definition ps_ontology_hash :: "('d, 't, 'v, 'sk, 'pk) platform \<Rightarrow> hex_codec \<Rightarrow> ('d, 'sk, 'pk, 'cb) py_store \<Rightarrow> string" where
  "ps_ontology_hash P X s = hex_hash X (env_ontology_hash (pf_env P) (ps_ontology s))"

definition ps_ontology_fingerprint :: "(json \<Rightarrow> string) \<Rightarrow> ('d, 'sk, 'pk, 'cb) py_store \<Rightarrow> string list" where
  "ps_ontology_fingerprint render s = sort (fingerprint render (ps_ontology s))"

fun compatibility_name :: "compatibility \<Rightarrow> string" where
  "compatibility_name Identical = ''identical''"
| "compatibility_name Superset = ''superset''"
| "compatibility_name Subset = ''subset''"
| "compatibility_name Divergent = ''divergent''"

definition ps_check_ontology_compatibility :: "('d, 't, 'v, 'sk, 'pk) platform \<Rightarrow> hex_codec \<Rightarrow> (json \<Rightarrow> string) \<Rightarrow>
    ('d, 'sk, 'pk, 'cb) py_store \<Rightarrow> string \<Rightarrow> string list \<Rightarrow> (convert_error, string) result" where
  "ps_check_ontology_compatibility P X render s foreign_hash_hex foreign_fingerprint =
     (case parse_hex_hash X foreign_hash_hex of Inl err \<Rightarrow> Inl err
      | Inr h \<Rightarrow> Inr (compatibility_name (check_compatibility (env_ontology_hash (pf_env P)) render (ps_ontology s) h
          (remdups foreign_fingerprint))))"

section \<open>The graph\<close>

text \<open>
  The queries of both classes have the same bodies; \<open>py_nodes\<close> and \<open>py_edges\<close> are the collecting loop they share.
\<close>

definition py_nodes :: "node list \<Rightarrow> (convert_error, py_object list) result" where
  "py_nodes ns = collect_ok node_to_pydict ns"

definition py_edges :: "edge list \<Rightarrow> (convert_error, py_object list) result" where
  "py_edges es = collect_ok edge_to_pydict es"

definition ps_query_nodes_by_type :: "('d, 'sk, 'pk, 'cb) py_store \<Rightarrow> string \<Rightarrow> (convert_error, py_object list) result" where
  "ps_query_nodes_by_type s node_type = py_nodes (nodes_by_type (ps_graph s) node_type)"

definition ps_query_nodes_by_subtype :: "('d, 'sk, 'pk, 'cb) py_store \<Rightarrow> string \<Rightarrow> (convert_error, py_object list) result" where
  "ps_query_nodes_by_subtype s subtype = py_nodes (nodes_by_subtype (ps_graph s) subtype)"

definition ps_query_nodes_by_property :: "'o py_api \<Rightarrow> ('d, 'sk, 'pk, 'cb) py_store \<Rightarrow> string \<Rightarrow> 'o \<Rightarrow>
    (convert_error, py_object list) result" where
  "ps_query_nodes_by_property A s key obj =
     (case py_to_value A obj of Inl err \<Rightarrow> Inl err | Inr v \<Rightarrow> py_nodes (nodes_by_property (ps_graph s) key v))"

definition ps_all_nodes :: "('d, 'sk, 'pk, 'cb) py_store \<Rightarrow> (convert_error, py_object list) result" where
  "ps_all_nodes s = py_nodes (all_nodes (ps_graph s))"

definition ps_all_edges :: "('d, 'sk, 'pk, 'cb) py_store \<Rightarrow> (convert_error, py_object list) result" where
  "ps_all_edges s = py_edges (all_edges (ps_graph s))"

definition ps_outgoing_edges :: "('d, 'sk, 'pk, 'cb) py_store \<Rightarrow> string \<Rightarrow> (convert_error, py_object list) result" where
  "ps_outgoing_edges s node_id = py_edges (outgoing_edges (ps_graph s) node_id)"

definition ps_incoming_edges :: "('d, 'sk, 'pk, 'cb) py_store \<Rightarrow> string \<Rightarrow> (convert_error, py_object list) result" where
  "ps_incoming_edges s node_id = py_edges (incoming_edges (ps_graph s) node_id)"

definition ps_neighbors :: "('d, 'sk, 'pk, 'cb) py_store \<Rightarrow> string \<Rightarrow> string list" where
  "ps_neighbors s node_id = neighbors (ps_graph s) node_id"

definition subgraph_dict :: "string list \<times> string list \<Rightarrow> py_object" where
  "subgraph_dict ne = PyDict [(''nodes'', PyList (map PyStr (fst ne))), (''edges'', PyList (map PyStr (snd ne)))]"

definition ps_subgraph :: "('d, 'sk, 'pk, 'cb) py_store \<Rightarrow> string \<Rightarrow> nat \<Rightarrow> py_object" where
  "ps_subgraph s start hops = subgraph_dict (subgraph (ps_graph s) start hops)"

definition chains_list :: "string list list \<Rightarrow> py_object" where
  "chains_list cs = PyList (map (\<lambda>c. PyList (map PyStr c)) cs)"

definition ps_pattern_match :: "('d, 'sk, 'pk, 'cb) py_store \<Rightarrow> string list \<Rightarrow> nat \<Rightarrow> py_object" where
  "ps_pattern_match s type_sequence max_results = chains_list (pattern_match (ps_graph s) type_sequence max_results)"

definition ps_get_quarantined :: "hex_codec \<Rightarrow> ('d, 'sk, 'pk, 'cb) py_store \<Rightarrow> string list" where
  "ps_get_quarantined X s = sort (map (\<lambda>(h, _). hex_hash X h) (gr_quarantined (ps_graph s)))"

definition ps_get_quarantined_details :: "hex_codec \<Rightarrow> ('d, 'sk, 'pk, 'cb) py_store \<Rightarrow> (string \<times> quarantine_record) list" where
  "ps_get_quarantined_details X s =
     map (\<lambda>(h, r). (hex_hash X h, r)) (sort_key (\<lambda>(h, _). hex_hash X h) (gr_quarantined (ps_graph s)))"

section \<open>The historical snapshot\<close>

definition gs_get_node :: "graph_snapshot \<Rightarrow> string \<Rightarrow> py_object option option" where
  "gs_get_node s node_id =
     (case get_node (gs_graph s) node_id of None \<Rightarrow> Some None
      | Some n \<Rightarrow> (case node_to_pydict n of Inl _ \<Rightarrow> None | Inr d \<Rightarrow> Some (Some d)))"

definition gs_get_edge :: "graph_snapshot \<Rightarrow> string \<Rightarrow> py_object option option" where
  "gs_get_edge s edge_id =
     (case get_edge (gs_graph s) edge_id of None \<Rightarrow> Some None
      | Some e \<Rightarrow> (case edge_to_pydict e of Inl _ \<Rightarrow> None | Inr d \<Rightarrow> Some (Some d)))"

definition gs_query_nodes_by_type :: "graph_snapshot \<Rightarrow> string \<Rightarrow> (convert_error, py_object list) result" where
  "gs_query_nodes_by_type s node_type = py_nodes (nodes_by_type (gs_graph s) node_type)"

definition gs_query_nodes_by_subtype :: "graph_snapshot \<Rightarrow> string \<Rightarrow> (convert_error, py_object list) result" where
  "gs_query_nodes_by_subtype s subtype = py_nodes (nodes_by_subtype (gs_graph s) subtype)"

definition gs_query_nodes_by_property :: "'o py_api \<Rightarrow> graph_snapshot \<Rightarrow> string \<Rightarrow> 'o \<Rightarrow> (convert_error, py_object list) result" where
  "gs_query_nodes_by_property A s key obj =
     (case py_to_value A obj of Inl err \<Rightarrow> Inl err | Inr v \<Rightarrow> py_nodes (nodes_by_property (gs_graph s) key v))"

definition gs_all_nodes :: "graph_snapshot \<Rightarrow> (convert_error, py_object list) result" where
  "gs_all_nodes s = py_nodes (all_nodes (gs_graph s))"

definition gs_all_edges :: "graph_snapshot \<Rightarrow> (convert_error, py_object list) result" where
  "gs_all_edges s = py_edges (all_edges (gs_graph s))"

definition gs_outgoing_edges :: "graph_snapshot \<Rightarrow> string \<Rightarrow> (convert_error, py_object list) result" where
  "gs_outgoing_edges s node_id = py_edges (outgoing_edges (gs_graph s) node_id)"

definition gs_incoming_edges :: "graph_snapshot \<Rightarrow> string \<Rightarrow> (convert_error, py_object list) result" where
  "gs_incoming_edges s node_id = py_edges (incoming_edges (gs_graph s) node_id)"

definition gs_subgraph :: "graph_snapshot \<Rightarrow> string \<Rightarrow> nat \<Rightarrow> py_object" where
  "gs_subgraph s start hops = subgraph_dict (subgraph (gs_graph s) start hops)"

definition gs_pattern_match :: "graph_snapshot \<Rightarrow> string list \<Rightarrow> nat \<Rightarrow> py_object" where
  "gs_pattern_match s type_sequence max_results = chains_list (pattern_match (gs_graph s) type_sequence max_results)"

section \<open>Peers\<close>

definition ps_register_peer :: "('d, 'sk, 'pk, 'cb) py_store \<Rightarrow> string \<Rightarrow> string \<Rightarrow> ('d, 'sk, 'pk, 'cb) py_store" where
  "ps_register_peer s peer_id address = s\<lparr>ps_gossip := register_peer (ps_gossip s) peer_id address\<rparr>"

definition ps_unregister_peer :: "('d, 'sk, 'pk, 'cb) py_store \<Rightarrow> string \<Rightarrow> ('d, 'sk, 'pk, 'cb) py_store \<times> bool" where
  "ps_unregister_peer s peer_id = (case unregister_peer (ps_gossip s) peer_id of (r, was) \<Rightarrow> (s\<lparr>ps_gossip := r\<rparr>, was))"

definition ps_list_peers :: "('d, 'sk, 'pk, 'cb) py_store \<Rightarrow> py_object" where
  "ps_list_peers s = PyList (map (\<lambda>p. PyDict [(''peer_id'', PyStr (pi_peer_id p)), (''address'', PyStr (pi_address p)),
     (''last_seen_ms'', PyInt (uint (pi_last_seen_ms p)))]) (list_peers (ps_gossip s)))"

definition ps_record_sync :: "u64 \<Rightarrow> ('d, 'sk, 'pk, 'cb) py_store \<Rightarrow> string \<Rightarrow> ('d, 'sk, 'pk, 'cb) py_store" where
  "ps_record_sync now_ms s peer_id = s\<lparr>ps_gossip := record_sync now_ms (ps_gossip s) peer_id\<rparr>"

end
