(* ===== verification/Silk_History.thy ===== *)
theory Silk_History
  imports Silk_Query
begin


text \<open>
  The history of a store that only its own program writes to (\<^verbatim>\<open>src/src/python/mod.rs\<close>, with the sessions of
  \<^verbatim>\<open>Silk_Session\<close>): a call adds at most one entry, at the end of the listing and with a later time. So the past
  can be looked at again (\<^verbatim>\<open>as_of\<close>), what was written through Python can be read through Python, and a snapshot
  of the store bootstraps an equal one.
\<close>

declare map_of_eq_Some_iff [simp del] Some_eq_map_of_iff [simp del]

section \<open>How a call extends the log\<close>

definition ordinary_op :: "graph_op \<Rightarrow> bool" where
  "ordinary_op op \<longleftrightarrow> \<not> is_define_ontology op \<and> \<not> is_checkpoint op \<and> fitting_op op"

text \<open>The listing of the log before and after, and what the call left alone.\<close>

definition extends_by :: "('d, 'sk, 'pk, 'cb) py_store \<Rightarrow> entry list \<Rightarrow> ('d, 'sk, 'pk, 'cb) py_store \<Rightarrow> bool" where
  "extends_by s new s' \<longleftrightarrow>
     (\<exists>all. entries_since (ps_oplog s) None = Some all \<and> entries_since (ps_oplog s') None = Some (all @ new)) \<and>
     gr_base_ontology (ps_graph s') = gr_base_ontology (ps_graph s) \<and> as_tuple (ps_clock s) \<le> as_tuple (ps_clock s')"

lemma memory_append_extends:
  assumes s: "log_sound P s" and op: "ordinary_op op" and fresh: "unused P wall s op" and run: "ps_append P wall s op = (s', r)"
  shows "extends_by s [] s' \<or> (\<exists>e. extends_by s [e] s' \<and> en_payload e = op \<and> en_clock e = tick wall (ps_clock s))"
proof (cases r)
  case (Inl err)
  have "\<exists>all. entries_since (ps_oplog s) None = Some all" using s by (auto simp: log_sound_def)
  moreover have "s' = s\<lparr>ps_clock := tick wall (ps_clock s)\<rparr>"
    using log_sound_append(3) [OF s _ fresh [unfolded unused_def] run Inl] op by (simp add: ordinary_op_def)
  ultimately show ?thesis using tick_mono by (auto simp: extends_by_def)
next
  case (Inr h)
  obtain all where "entries_since (ps_oplog s) None = Some all" "entries_since (ps_oplog s') None = Some (all @ [written P wall s op])"
    using log_sound_append(2) [OF s _ fresh [unfolded unused_def] run Inr] op by (auto simp: ordinary_op_def)
  moreover have "gr_base_ontology (ps_graph s') = gr_base_ontology (ps_graph s)" "ps_clock s' = tick wall (ps_clock s)"
    using append_ok [OF run [unfolded Inr]] by (auto simp: graph_apply_def apply_inner_base)
  ultimately have "extends_by s [written P wall s op] s'" using tick_mono by (simp add: extends_by_def)
  then show ?thesis by auto
qed

lemma revalidate_extends:
  assumes "ps_revalidate P s = Some (s', n)"
  shows "extends_by s [] s'"
proof -
  obtain all where all: "entries_since (ps_oplog s) None = Some all" using assms by (auto simp: ps_revalidate_def split: option.splits)
  from revalidate_effect [OF assms all] all show ?thesis by (auto simp: extends_by_def rebuild_base)
qed

lemma extends_by_trans: "extends_by s new s' \<Longrightarrow> extends_by s' new' s'' \<Longrightarrow> extends_by s (new @ new') s''"
  by (auto simp: extends_by_def)

lemma extends_by_frame [simp]:
  "extends_by (s\<lparr>ps_node_types := m\<rparr>) new s' = extends_by s new s'" "extends_by s new (s'\<lparr>ps_node_types := m'\<rparr>) = extends_by s new s'"
  "extends_by s new (s'\<lparr>ps_ontology := ont\<rparr>) = extends_by s new s'"
  by (simp_all add: extends_by_def)

lemma call_extends:
  assumes "call P A s s'" "in_step P s"
  shows "extends_by s [] s' \<or>
    (\<exists>e wall. extends_by s [e] s' \<and> ordinary_op (en_payload e) \<and> en_clock e = tick wall (ps_clock s))"
  using assms(1)
proof (cases rule: call_effect)
  case quiet
  moreover have "\<exists>all. entries_since (ps_oplog s) None = Some all" using assms(2) by (auto simp: in_step_def)
  ultimately show ?thesis by (auto simp: extends_by_def)
next
  case (wrote wall op m s1 r m')
  have "log_sound P (s\<lparr>ps_node_types := m\<rparr>)" "ordinary_op op" "unused P wall (s\<lparr>ps_node_types := m\<rparr>) op"
    using assms(2) wrote(1-4) by (simp_all add: in_step_def log_sound_def ordinary_op_def plain_op_def unused_def)
  from memory_append_extends [OF this wrote(5)] show ?thesis using \<open>ordinary_op op\<close> wrote(6) by auto
next
  case (extended wall extension parsed r)
  show ?thesis
  proof (cases "s' = s")
    case True
    then show ?thesis using assms(2) by (auto simp: extends_by_def in_step_def)
  next
    case False
    then have "\<exists>ext s1 r1. extension = Some ext \<and> ps_append P wall s (ExtendOntology ext) = (s1, r1) \<and>
        (s' = s1 \<or> (\<exists>ont n. ps_revalidate P (s1\<lparr>ps_ontology := ont\<rparr>) = Some (s', n)))"
      using extended(2) by (auto simp: ps_extend_ontology_def split: sum.splits option.splits prod.splits)
    then obtain ext s1 r1 where app: "extension = Some ext" "ps_append P wall s (ExtendOntology ext) = (s1, r1)"
      "s' = s1 \<or> (\<exists>ont n. ps_revalidate P (s1\<lparr>ps_ontology := ont\<rparr>) = Some (s', n))" by blast
    have op: "ordinary_op (ExtendOntology ext)" by (simp add: ordinary_op_def is_define_ontology_def is_checkpoint_def)
    have "extends_by s1 [] s'" if "ps_revalidate P (s1\<lparr>ps_ontology := ont\<rparr>) = Some (s', n)" for ont n
      using revalidate_extends [OF that] by (simp add: extends_by_def)
    then have "extends_by s1 [] s' \<or> s' = s1" using app(3) by blast
    moreover have "log_sound P s" using assms(2) by (simp add: in_step_def)
    ultimately show ?thesis
      using memory_append_extends [OF _ op extended(1) [OF app(1)] app(2)] op extends_by_trans [of s _ s1 "[]" s'] by fastforce
  qed
next
  case (revalidated n)
  then show ?thesis using revalidate_extends by blast
qed

section \<open>The listing of a session\<close>

text \<open>What a listing is: each entry of the log once, under its hash.\<close>

definition listed_as :: "oplog \<Rightarrow> entry list \<Rightarrow> bool" where
  "listed_as log all \<longleftrightarrow> entries_since log None = Some all \<and> distinct (map en_hash all) \<and>
     (\<forall>h e. oplog_get log h = Some e \<longleftrightarrow> e \<in> set all \<and> en_hash e = h)"

lemma listing_listed:
  assumes "oplog_inv H log" "well_linked log" "entries_since log None = Some all"
  shows "listed_as log all"
proof -
  have "entries_since log None = topo_sort log (filter (\<lambda>h. h \<notin> {}) (reachable_from log (ol_heads log)))" by (simp add: entries_since_def)
  then obtain es where "entries_since log None = Some es" "distinct (map en_hash es)" "set (map en_hash es) = hm_keys (ol_entries log) - {}"
    "\<forall>e \<in> set es. oplog_get log (en_hash e) = Some e" using delta_correct [OF assms(1,2), of "{}"] by (elim exE conjE) simp
  with assms(3) have all: "distinct (map en_hash all)" "set (map en_hash all) = hm_keys (ol_entries log)" "\<forall>e \<in> set all. oplog_get log (en_hash e) = Some e"
    by simp_all
  have "e \<in> set all \<and> en_hash e = h" if e: "oplog_get log h = Some e" for h e
  proof -
    have "h \<in> hm_keys (ol_entries log)" using e unfolding oplog_get_def by (rule get_in_keys)
    then have "h \<in> en_hash ` set all" using all(2) by simp
    then obtain x where x: "x \<in> set all" "h = en_hash x" by (rule imageE) simp
    then have "oplog_get log h = Some x" using all(3) by simp
    with e x show ?thesis by simp
  qed
  moreover have "oplog_get log h = Some e" if "e \<in> set all \<and> en_hash e = h" for h e using all(3) that by blast
  ultimately show ?thesis unfolding listed_as_def using all(1) assms(3) by blast
qed

lemma in_step_listed:
  assumes "in_step P s"
  obtains all where "listed_as (ps_oplog s) all" "oplog_inv (env_hash (pf_env P)) (ps_oplog s)" "well_linked (ps_oplog s)"
    "ps_graph s = rebuild (pf_env P) (graph_new (gr_base_ontology (ps_graph s))) all" "\<forall>e \<in> set all. entry_upto (as_tuple (ps_clock s)) e"
proof -
  obtain log all where log: "ps_backend s = Memory log" "oplog_inv (env_hash (pf_env P)) log" "well_linked log"
    "entries_since log None = Some all" "\<forall>e \<in> set all. entry_upto (as_tuple (ps_clock s)) e"
    using assms by (auto simp: in_step_def log_sound_def)
  moreover have "ps_graph s = rebuild (pf_env P) (ps_graph s) all" using assms log(1,4) by (auto simp: in_step_def)
  ultimately show ?thesis using that listing_listed [OF log(2-4)] rebuild_from_base [of "pf_env P" "ps_graph s" all] by auto
qed

text \<open>
  The listing starts with the definition of the ontology that the graph is based on, and everything after it
  is ordinary.
\<close>

definition rooted :: "('d, 'sk, 'pk, 'cb) py_store \<Rightarrow> bool" where
  "rooted s \<longleftrightarrow> (\<exists>root rest. entries_since (ps_oplog s) None = Some (root # rest) \<and> en_next root = [] \<and>
     en_payload root = DefineOntology (gr_base_ontology (ps_graph s)) \<and> validate_self (gr_base_ontology (ps_graph s)) = Inr () \<and>
     (\<forall>e \<in> set rest. ordinary_op (en_payload e)))"

lemma rooted_extends: "rooted s \<Longrightarrow> extends_by s new s' \<Longrightarrow> \<forall>e \<in> set new. ordinary_op (en_payload e) \<Longrightarrow> rooted s'"
  by (fastforce simp: rooted_def extends_by_def)

lemma session_rooted: "session P A s \<Longrightarrow> rooted s"
proof (induction rule: session.induct)
  case (created walls i ont s)
  then have s: "validate_self ont = Inr ()"
    "s = fresh_store (Memory (oplog_new (entry_new (env_hash (pf_env P)) (DefineOntology ont) [] [] (tick (walls 1) (clock_new (walls 0) i)) i)))
       (graph_new ont) [] i (tick (walls 1) (clock_new (walls 0) i)) ont"
    by (auto simp: ps_new_def Let_def split: sum.splits)
  show ?case using s(1) by (simp add: s(2) rooted_def fresh_store_def listing_singleton entry_new_def)
next
  case (called s s')
  then show ?case using call_extends [OF called.hyps(2) session_in_step [OF called.hyps(1)]] rooted_extends [of s _ s'] by fastforce
qed

section \<open>Looking back\<close>

text \<open>The entries up to a time, when the log has grown by later ones only, are the listing at that time.\<close>

lemma entries_as_of_listing:
  assumes inv: "oplog_inv H log" "oplog_inv H log'" "well_linked log" and all: "listed_as log all" and all': "listed_as log' (all @ new)"
    and past: "\<forall>e \<in> set all. as_tuple (en_clock e) \<le> (p, l)" and later: "\<forall>e \<in> set new. (p, l) < as_tuple (en_clock e)"
  shows "entries_as_of log' p l = Some all"
proof -
  let ?hs = "reachable_from log (ol_heads log)"
  let ?hs' = "map fst (filter (\<lambda>(_, e). as_tuple (en_clock e) \<le> (p, l)) (ol_entries log'))"
  have sort: "topo_sort log ?hs = Some all" using all by (simp add: listed_as_def entries_since_def)
  have wf: "distinct (map fst (ol_entries log'))" using inv(2) by (simp add: oplog_inv_def)
  have get: "(h, e) \<in> set (ol_entries log') \<longleftrightarrow> e \<in> set (all @ new) \<and> en_hash e = h" for h e
    using all' map_of_eq_Some_iff [OF wf] by (auto simp: listed_as_def oplog_get_def)
  have "set ?hs' = en_hash ` {e \<in> set (all @ new). as_tuple (en_clock e) \<le> (p, l)}" by (force simp: get)
  also have "\<dots> = en_hash ` set all" using past later by (auto simp: not_less [symmetric] simp del: less_eq_prod_simp)
  finally have hs': "set ?hs' = en_hash ` set all" .
  have "set ?hs = hm_keys (ol_entries log)" using heads_reach_all [OF inv(1,3)] by (simp add: set_reachable_from causal_past_def)
  also have "\<dots> = {h. oplog_get log h \<noteq> None}" by (auto simp: hm_keys_dom oplog_get_def)
  also have "\<dots> = en_hash ` set all" using all by (auto simp: listed_as_def)
  finally have hs: "set ?hs = en_hash ` set all" .
  have "oplog_get log (en_hash e) = Some e \<and> oplog_get log' (en_hash e) = Some e" if "e \<in> set all" for e
    using all all' that by (simp add: listed_as_def)
  then have "same_on (set ?hs) log log'" unfolding same_on_def hs oplog_get_def by fastforce
  then have "topo_sort log ?hs = topo_sort log' ?hs'"
    by (rule topo_sort_cong_on [OF inv(1,2)]) (simp_all only: hs hs' distinct_reachable_from distinct_map_filter [OF wf])
  then show ?thesis using sort by (simp add: entries_as_of_def)
qed

text \<open>Everything a program does after a point in time is later than it, while the counter there is not exhausted.\<close>

lemma tick_later:
  assumes "as_tuple c \<le> as_tuple d" "clk_logical c \<noteq> - 1"
  shows "as_tuple c < as_tuple (tick wall d)"
proof (cases "as_tuple c = as_tuple d")
  case True
  then have "clk_logical d \<noteq> - 1" using assms(2) by (simp add: as_tuple_def)
  then show ?thesis using True tick_advances [of d wall] by simp
next
  case False
  with assms(1) have "as_tuple c < as_tuple d" by simp
  also have "\<dots> \<le> as_tuple (tick wall d)" by (rule tick_mono)
  finally show ?thesis .
qed

lemma later_calls:
  assumes "(call P A)\<^sup>*\<^sup>* s s'" "session P A s" "clk_logical (ps_clock s) \<noteq> - 1"
  shows "\<exists>new. extends_by s new s' \<and> session P A s' \<and> (\<forall>e \<in> set new. as_tuple (ps_clock s) < as_tuple (en_clock e))"
  using assms(1)
proof (induction rule: rtranclp_induct)
  case base
  have "\<exists>all. entries_since (ps_oplog s) None = Some all" using session_in_step [OF assms(2)] by (auto simp: in_step_def)
  then have "extends_by s [] s" by (auto simp: extends_by_def)
  with assms(2) show ?case by (intro exI [of _ "[]"]) simp
next
  case (step t s')
  then obtain new where t: "extends_by s new t" "session P A t" "\<forall>e \<in> set new. as_tuple (ps_clock s) < as_tuple (en_clock e)" by blast
  have le: "as_tuple (ps_clock s) \<le> as_tuple (ps_clock t)" using t(1) by (simp add: extends_by_def)
  have s': "session P A s'" using t(2) step.hyps(2) by (rule session.called)
  from call_extends [OF step.hyps(2) session_in_step [OF t(2)]] show ?case
  proof (elim disjE exE conjE)
    assume "extends_by t [] s'"
    from extends_by_trans [OF t(1) this] show ?thesis using t(3) s' by (intro exI [of _ new]) simp
  next
    fix e wall assume e: "extends_by t [e] s'" "en_clock e = tick wall (ps_clock t)"
    from extends_by_trans [OF t(1) e(1)] show ?thesis
      using t(3) s' tick_later [OF le assms(3)] e(2) by (intro exI [of _ "new @ [e]"]) auto
  qed
qed

lemma window_of_root:
  assumes "en_payload root = DefineOntology ont" "\<forall>e \<in> set rest. ordinary_op (en_payload e) \<and> \<not> is_extend (en_payload e)"
  shows "fold window_ontology (root # rest) None = Some ont"
proof -
  have "window_ontology e x = x" if "ordinary_op (en_payload e) \<and> \<not> is_extend (en_payload e)" for e x
    using that by (cases "en_payload e") (auto simp: window_ontology_def ordinary_op_def is_extend_def is_checkpoint_def is_define_ontology_def)
  then have "fold window_ontology rest x = x" for x using assms(2) by (induction rest) auto
  then show ?thesis using assms(1) by (simp add: window_ontology_def)
qed

text \<open>
  C8. Time travel over local writes. Take a session (a store in memory with local calls only; no \<^verbatim>\<open>compact\<close> and no
  merge, before or after) whose ontology was not extended so far and whose logical counter is not at its end,
  and remember its clock. After any further calls of that kind, extensions included, \<^verbatim>\<open>as_of\<close> with the remembered
  clock returns the graph as it was: the same graph if hash maps iterate alike, and in any case one that no query
  can tell from it, provided that in the log so far an edge id always names the same edge.
\<close>

theorem time_travel_exact:
  assumes "session P A s" and "(call P A)\<^sup>*\<^sup>* s s'" and "clk_logical (ps_clock s) \<noteq> - 1"
    and "\<forall>h e. oplog_get (ps_oplog s) h = Some e \<longrightarrow> \<not> is_extend (en_payload e)"
  shows "\<exists>g all. entries_since (ps_oplog s) None = Some all \<and>
    ps_as_of P' s' (clk_physical (ps_clock s)) (clk_logical (ps_clock s)) =
      Some (Inr \<lparr>gs_graph = g, gs_cutoff_clock = as_tuple (ps_clock s), gs_instance_id = ps_instance_id s'\<rparr>) \<and>
    (pf_env P' = pf_env P \<longrightarrow> g = ps_graph s) \<and>
    (iter_ok (pf_env P) \<and> iter_ok (pf_env P') \<and> same_env (pf_env P) (pf_env P') \<and> log_edges_agree (env_hash (pf_env P)) all \<longrightarrow>
      view g = view (ps_graph s))"
proof -
  let ?g = "\<lambda>E. rebuild E (graph_new (gr_base_ontology (ps_graph s)))"
  obtain new where new: "extends_by s new s'" "session P A s'" "\<forall>e \<in> set new. as_tuple (ps_clock s) < as_tuple (en_clock e)"
    using later_calls [OF assms(2,1,3)] by blast
  obtain all where s: "listed_as (ps_oplog s) all" "oplog_inv (env_hash (pf_env P)) (ps_oplog s)" "well_linked (ps_oplog s)"
    "ps_graph s = rebuild (pf_env P) (graph_new (gr_base_ontology (ps_graph s))) all" "\<forall>e \<in> set all. entry_upto (as_tuple (ps_clock s)) e"
    using in_step_listed [OF session_in_step [OF assms(1)]] by blast
  obtain all' where s': "listed_as (ps_oplog s') all'" "oplog_inv (env_hash (pf_env P)) (ps_oplog s')"
    using in_step_listed [OF session_in_step [OF new(2)]] by blast
  have "all' = all @ new" using new(1) s(1) s'(1) by (simp add: extends_by_def listed_as_def)
  then have window: "entries_as_of (ps_oplog s') (clk_physical (ps_clock s)) (clk_logical (ps_clock s)) = Some all"
    using s(5) new(3) s'(1) by (intro entries_as_of_listing [OF s(2) s'(2) s(3,1)]) (auto simp: entry_all_def as_tuple_def)
  obtain root rest where root: "all = root # rest" "en_payload root = DefineOntology (gr_base_ontology (ps_graph s))"
    "\<forall>e \<in> set rest. ordinary_op (en_payload e)"
    using session_rooted [OF assms(1)] s(1) by (auto simp: rooted_def listed_as_def)
  have "\<forall>e \<in> set all. \<not> is_extend (en_payload e)" using assms(4) s(1) by (auto simp: listed_as_def)
  then have "fold window_ontology all None = Some (gr_base_ontology (ps_graph s))" unfolding root(1) using root by (intro window_of_root) auto
  then have run: "ps_as_of P' s' (clk_physical (ps_clock s)) (clk_logical (ps_clock s)) =
      Some (Inr \<lparr>gs_graph = ?g (pf_env P') all, gs_cutoff_clock = as_tuple (ps_clock s), gs_instance_id = ps_instance_id s'\<rparr>)"
    using window by (simp add: ps_as_of_def as_tuple_def)
  have "view (?g (pf_env P') all) = view (ps_graph s)"
    if "iter_ok (pf_env P)" "iter_ok (pf_env P')" "same_env (pf_env P) (pf_env P')" "log_edges_agree (env_hash (pf_env P)) all"
    using rebuild_any_order [OF that(1-3) refl that(4), of "graph_new (gr_base_ontology (ps_graph s))"] s(4) by simp
  then show ?thesis
    using run s(1,4) by (intro exI [of _ "?g (pf_env P') all"] exI [of _ all]) (simp add: listed_as_def)
qed

theorem time_travel_exact_witness:
  "\<exists>s h. ps_add_node demo_platform std_api 20 empty_shop ''x'' ''item'' ''x'' None (Some ''book'') = (s, Inr h) \<and>
     ps_as_of demo_platform s 10 1 = Some (Inr \<lparr>gs_graph = ps_graph empty_shop, gs_cutoff_clock = (10, 1), gs_instance_id = ps_instance_id s\<rparr>)"
proof -
  obtain s h where s: "ps_add_node demo_platform std_api 20 empty_shop ''x'' ''item'' ''x'' None (Some ''book'') = (s, Inr h)"
    using shop_writes(2) by blast
  have "call demo_platform std_api empty_shop s" by (rule call.added_node [OF _ s]) (use shop_writes(1) in \<open>simp add: convert_props_def\<close>)
  then have run: "(call demo_platform std_api)\<^sup>*\<^sup>* empty_shop s" by simp
  have c: "clk_physical (ps_clock empty_shop) = 10" "clk_logical (ps_clock empty_shop) = 1" "as_tuple (ps_clock empty_shop) = (10, 1)"
    by (simp_all add: shop_eval as_tuple_def)
  have "\<forall>h e. oplog_get (ps_oplog empty_shop) h = Some e \<longrightarrow> \<not> is_extend (en_payload e)"
    by (simp add: shop_eval oplog_get_def is_extend_def entry_new_def)
  then show ?thesis using time_travel_exact [OF session.created [OF empty_shop_new] run, of demo_platform] s c by auto
qed

section \<open>What was written can be read\<close>

lemma collect_ok_all:
  "\<forall>x \<in> set xs. \<exists>y. f x = Inr y \<Longrightarrow> \<exists>ys. collect_ok f xs = Inr ys \<and> map f xs = map Inr ys"
proof (induction xs)
  case (Cons x xs)
  then obtain y ys where "f x = Inr y" "collect_ok f xs = Inr ys" "map f xs = map Inr ys" by auto
  then show ?case by (intro exI [of _ "y # ys"]) simp
qed simp

lemma values_readable: "values_all (value_fits 0) ps \<Longrightarrow> \<exists>d. value_map_to_pydict ps = Inr d"
  using roundtrip_values(3) [OF std_api_reads_back, of ps 0] by (auto simp: values_all_def value_map_to_pydict_def)

lemma dicts_readable:
  "node_all K (value_fits 0) n \<Longrightarrow> \<exists>d. node_to_pydict n = Inr d"
  "edge_all K (value_fits 0) e \<Longrightarrow> \<exists>d. edge_to_pydict e = Inr d"
  using values_readable [of "n_properties n"] values_readable [of "e_properties e"]
  by (auto simp: node_all_def edge_all_def node_to_pydict_def edge_to_pydict_def)

lemma session_fits:
  assumes "session P A s" "iter_ok (pf_env P)"
  shows "graph_all (\<lambda>_. True) (value_fits 0) (ps_graph s)" "graph_inv (ps_graph s)"
proof -
  obtain all where all: "listed_as (ps_oplog s) all" "ps_graph s = rebuild (pf_env P) (graph_new (gr_base_ontology (ps_graph s))) all"
    using in_step_listed [OF session_in_step [OF assms(1)]] by blast
  have "\<forall>e \<in> set all. entry_all (\<lambda>_. True) (value_fits 0) e"
    using session_rooted [OF assms(1)] all(1) by (auto simp: rooted_def listed_as_def ordinary_op_def entry_all_def)
  from rebuild_all [OF assms(2) this] show "graph_all (\<lambda>_. True) (value_fits 0) (ps_graph s)" by (subst all(2))
  have "graph_run (pf_env P) (rebuild (pf_env P) (graph_new (gr_base_ontology (ps_graph s))) all)" by (intro graph_run.intros)
  from graph_run_inv [OF this assms(2)] show "graph_inv (ps_graph s)" by (subst all(2))
qed

text \<open>Every node and edge that a query returns is stored.\<close>

lemma queried_stored:
  assumes "graph_inv g"
  shows "set (nodes_by_type g t) \<subseteq> {n. \<exists>i. hm_get (gr_nodes g) i = Some n}" "set (nodes_by_subtype g t) \<subseteq> {n. \<exists>i. hm_get (gr_nodes g) i = Some n}"
    "set (nodes_by_property g k v) \<subseteq> {n. \<exists>i. hm_get (gr_nodes g) i = Some n}" "set (all_nodes g) \<subseteq> {n. \<exists>i. hm_get (gr_nodes g) i = Some n}"
    "set (outgoing_edges g i) \<subseteq> {e. \<exists>j. hm_get (gr_edges g) j = Some e}" "set (incoming_edges g i) \<subseteq> {e. \<exists>j. hm_get (gr_edges g) j = Some e}"
    "set (all_edges g) \<subseteq> {e. \<exists>j. hm_get (gr_edges g) j = Some e}"
proof -
  have wf: "hm_wf (gr_nodes g)" "hm_wf (gr_edges g)" using assms by (auto simp: graph_inv_def node_inv_def edge_inv_def)
  have "\<exists>i. hm_get (gr_nodes g) i = Some n" if "n \<in> snd ` set (gr_nodes g)" for n
    using that map_of_is_SomeI [of "gr_nodes g"] wf(1) by fastforce
  then show "set (nodes_by_type g t) \<subseteq> {n. \<exists>i. hm_get (gr_nodes g) i = Some n}" "set (nodes_by_subtype g t) \<subseteq> {n. \<exists>i. hm_get (gr_nodes g) i = Some n}"
    "set (nodes_by_property g k v) \<subseteq> {n. \<exists>i. hm_get (gr_nodes g) i = Some n}" "set (all_nodes g) \<subseteq> {n. \<exists>i. hm_get (gr_nodes g) i = Some n}"
    by (auto simp: nodes_by_type_def nodes_by_subtype_def nodes_by_property_def all_nodes_def set_map_filter get_node_Some)
  have "\<exists>j. hm_get (gr_edges g) j = Some e" if "e \<in> snd ` set (gr_edges g)" for e
    using that map_of_is_SomeI [of "gr_edges g"] wf(2) by fastforce
  then show "set (outgoing_edges g i) \<subseteq> {e. \<exists>j. hm_get (gr_edges g) j = Some e}" "set (incoming_edges g i) \<subseteq> {e. \<exists>j. hm_get (gr_edges g) j = Some e}"
    "set (all_edges g) \<subseteq> {e. \<exists>j. hm_get (gr_edges g) j = Some e}"
    by (auto simp: outgoing_edges_def incoming_edges_def all_edges_def set_map_filter get_edge_Some)
qed

text \<open>
  C10. What was written through Python can be read through Python: in a session no lookup panics and no query
  fails, each returns the dict of every node or edge it found. (The limits are checked on the way in, and
  nothing in the store makes a value larger.)
\<close>

theorem session_readable:
  assumes "session P A s" and "iter_ok (pf_env P)"
  shows "ps_get_node s i \<noteq> None \<and> ps_get_edge s i \<noteq> None \<and>
    (\<exists>ds. ps_query_nodes_by_type s t = Inr ds \<and> map node_to_pydict (nodes_by_type (ps_graph s) t) = map Inr ds) \<and>
    (\<exists>ds. ps_query_nodes_by_subtype s t = Inr ds \<and> map node_to_pydict (nodes_by_subtype (ps_graph s) t) = map Inr ds) \<and>
    (\<exists>ds. ps_all_nodes s = Inr ds \<and> map node_to_pydict (all_nodes (ps_graph s)) = map Inr ds) \<and>
    (\<exists>ds. ps_all_edges s = Inr ds \<and> map edge_to_pydict (all_edges (ps_graph s)) = map Inr ds) \<and>
    (\<exists>ds. ps_outgoing_edges s i = Inr ds \<and> map edge_to_pydict (outgoing_edges (ps_graph s) i) = map Inr ds) \<and>
    (\<exists>ds. ps_incoming_edges s i = Inr ds \<and> map edge_to_pydict (incoming_edges (ps_graph s) i) = map Inr ds) \<and>
    (\<forall>v. py_to_value B obj = Inr v \<longrightarrow>
      (\<exists>ds. ps_query_nodes_by_property B s k obj = Inr ds \<and> map node_to_pydict (nodes_by_property (ps_graph s) k v) = map Inr ds))"
proof -
  note fits = session_fits [OF assms]
  have node: "\<exists>d. node_to_pydict n = Inr d" if "\<exists>i. hm_get (gr_nodes (ps_graph s)) i = Some n" for n
    using that fits(1) dicts_readable(1) [of "\<lambda>_. True" n] unfolding graph_all_def by blast
  have edge: "\<exists>d. edge_to_pydict e = Inr d" if "\<exists>i. hm_get (gr_edges (ps_graph s)) i = Some e" for e
    using that fits(1) dicts_readable(2) [of "\<lambda>_. True" e] unfolding graph_all_def by blast
  have nodes: "\<exists>ds. py_nodes ns = Inr ds \<and> map node_to_pydict ns = map Inr ds" if "set ns \<subseteq> {n. \<exists>i. hm_get (gr_nodes (ps_graph s)) i = Some n}" for ns
    unfolding py_nodes_def using that node by (intro collect_ok_all) blast
  have edges: "\<exists>ds. py_edges es = Inr ds \<and> map edge_to_pydict es = map Inr ds" if "set es \<subseteq> {e. \<exists>j. hm_get (gr_edges (ps_graph s)) j = Some e}" for es
    unfolding py_edges_def using that edge by (intro collect_ok_all) blast
  have "ps_get_node s i \<noteq> None" using node by (force simp: ps_get_node_def get_node_Some split: option.splits sum.splits)
  moreover have "ps_get_edge s i \<noteq> None" using edge by (force simp: ps_get_edge_def get_edge_Some split: option.splits sum.splits)
  moreover note nodes [OF queried_stored(1) [OF fits(2)]] nodes [OF queried_stored(2) [OF fits(2)]] nodes [OF queried_stored(3) [OF fits(2)]]
    nodes [OF queried_stored(4) [OF fits(2)]] edges [OF queried_stored(5) [OF fits(2)]] edges [OF queried_stored(6) [OF fits(2)]]
    edges [OF queried_stored(7) [OF fits(2)]]
  ultimately show ?thesis
    unfolding ps_query_nodes_by_type_def ps_query_nodes_by_subtype_def ps_query_nodes_by_property_def ps_all_nodes_def ps_all_edges_def
      ps_outgoing_edges_def ps_incoming_edges_def by simp
qed

theorem session_readable_witness:
  "\<exists>s h ds. ps_add_node demo_platform std_api 20 empty_shop ''x'' ''item'' ''x'' None (Some ''book'') = (s, Inr h) \<and>
     ps_get_node s ''x'' \<noteq> None \<and> ps_all_nodes s = Inr ds"
proof -
  obtain s h where s: "ps_add_node demo_platform std_api 20 empty_shop ''x'' ''item'' ''x'' None (Some ''book'') = (s, Inr h)"
    using shop_writes(2) by blast
  have "session demo_platform std_api s"
    by (rule session.called [OF session.created [OF empty_shop_new] call.added_node [OF _ s]]) (use shop_writes(1) in \<open>simp add: convert_props_def\<close>)
  from session_readable [OF this demo_iter_ok, of "''x''" "''item''" std_api PyNone "''k''"]
  show ?thesis using s by (elim conjE exE) blast
qed

section \<open>Bootstrapping from a snapshot\<close>

lemma max_or_zero_ge: "x \<in> set xs \<Longrightarrow> x \<le> max_or_zero xs" for x :: "'a::{linorder, zero}"
proof -
  have "y \<le> fold max ys y \<and> (\<forall>z \<in> set ys. z \<le> fold max ys y)" for ys and y :: 'a
    by (induction ys arbitrary: y) (auto intro: order_trans [OF max.cobounded1] order_trans [OF max.cobounded2])
  then show "x \<in> set xs \<Longrightarrow> x \<le> max_or_zero xs" by (cases xs) (auto simp: max_or_zero_def)
qed

text \<open>Merging the rest of a listing into a log that has only its root gives the whole log back.\<close>

lemma merge_rest:
  assumes inv: "oplog_inv H log" and all: "listed_as log (root # rest)" and root: "en_next root = []"
    and rest: "\<forall>e \<in> set rest. \<not> is_checkpoint (en_payload e)"
  shows "\<exists>L n. merge_entries H (oplog_new root) rest = (L, Inr n) \<and> oplog_inv H L \<and> oplog_get L = oplog_get log"
proof -
  let ?B = "oplog_new root"
  have get: "oplog_get log h = Some e \<longleftrightarrow> (e = root \<or> e \<in> set rest) \<and> en_hash e = h" for h e using all by (auto simp: listed_as_def)
  have "hm_get (ol_entries log) (en_hash root) = Some root" using get [of "en_hash root" root] by (simp add: oplog_get_def)
  then have "verify_hash H root" using inv unfolding oplog_inv_def by blast
  then have B: "oplog_inv H ?B" using root by (rule oplog_new_inv)
  have stored: "stored ?B = {en_hash root}" by (auto simp: stored_iff oplog_get_def oplog_new_def split: if_splits)
  have "sendable log ?B rest"
    unfolding sendable_def stored
  proof (intro ballI conjI)
    fix e assume e: "e \<in> set rest"
    then show "oplog_get log (en_hash e) = Some e" using get by blast
    fix p assume "p \<in> set (en_next e)"
    then have "(p, en_hash e) \<in> causal log" using \<open>oplog_get log (en_hash e) = Some e\<close> by (auto simp: causal_def oplog_get_def)
    then have "p \<in> hm_keys (ol_entries log)" using inv unfolding oplog_inv_def by blast
    then obtain x where "oplog_get log p = Some x" by (auto simp: hm_keys_dom oplog_get_def)
    then show "p \<in> {en_hash root} \<or> p \<in> en_hash ` set rest" using get [of p x] by auto
  qed
  moreover have "no_foreign_root ?B rest" using rest by (auto simp: no_foreign_root_def)
  ultimately obtain L where L: "merge_entries H ?B rest = (L, Inr (card (en_hash ` set rest - stored ?B)))"
    "grown H ?B log (en_hash ` set rest - stored ?B) L" using merge_entries_grown [OF inv B] by blast
  have "oplog_get L h = oplog_get log h" for h
  proof -
    have "oplog_get L h = (case oplog_get ?B h of Some e \<Rightarrow> Some e
        | None \<Rightarrow> if h \<in> en_hash ` set rest - stored ?B then oplog_get log h else None)" using L(2) by (simp add: grown_def)
    also have "\<dots> = (if h = en_hash root then Some root else if h \<in> en_hash ` set rest then oplog_get log h else None)"
      by (auto simp: stored oplog_get_def oplog_new_def)
    also have "\<dots> = oplog_get log h"
    proof -
      have "oplog_get log h = Some root" if "h = en_hash root" using that get [of h root] by simp
      moreover have "oplog_get log h = None" if "h \<noteq> en_hash root" "h \<notin> en_hash ` set rest"
      proof (rule ccontr)
        assume "oplog_get log h \<noteq> None"
        then obtain x where "oplog_get log h = Some x" by blast
        then have "(x = root \<or> x \<in> set rest) \<and> en_hash x = h" using get by blast
        with that show False by blast
      qed
      ultimately show ?thesis by simp
    qed
    finally show ?thesis .
  qed
  with L show ?thesis by (auto simp: grown_def fun_eq_iff)
qed

lemma listed_size:
  assumes "listed_as log all" "oplog_inv H log"
  shows "length all = ol_len log"
proof -
  have "set (map en_hash all) = hm_keys (ol_entries log)"
    using assms(1) by (auto simp: listed_as_def hm_keys_dom oplog_get_def)
  moreover have "distinct (map fst (ol_entries log))" "ol_len log = length (ol_entries log)" using assms(2) by (simp_all add: oplog_inv_def)
  ultimately show ?thesis using assms(1) by (metis distinct_card length_map listed_as_def list.set_map)
qed

text \<open>
  C9. A snapshot bootstraps an equal store. From the snapshot of a session (a store in memory, local calls only)
  that fits into a message, \<^verbatim>\<open>from_snapshot\<close> in another process, whose hash maps iterate in an order of their own,
  makes a store with the same entries and the same listing, under its own name, with a clock that no entry is
  ahead of, and with the graph and ontology that the replay of this listing gives. If in the log an edge id
  always names the same edge, the graph (as \<open>view\<close> observes it) and the ontology are those of the session,
  extensions and quarantined entries included; with the same iteration order they are so in any case.
\<close>

theorem snapshot_bootstrap:
  fixes P P' :: "('d, 't, 'v, 'sk, 'pk) platform" and s :: "('d, 'sk, 'pk, 'cb) py_store"
  assumes "session P A s" and "ol_len (ps_oplog s) \<le> MAX_ENTRIES_PER_MESSAGE" and "len \<le> MAX_SYNC_BYTES"
    and "same_env (pf_env P) (pf_env P')"
  shows "\<exists>snap all (t :: ('d, 'sk, 'pk, 'cb) py_store). ps_snapshot s = Some snap \<and> ps_from_snapshot P' i len (Some snap) = Some (Inr t) \<and>
    oplog_get (ps_oplog t) = oplog_get (ps_oplog s) \<and> entries_since (ps_oplog s) None = Some all \<and> entries_since (ps_oplog t) None = Some all \<and>
    ps_instance_id t = i \<and> (\<forall>h e. oplog_get (ps_oplog t) h = Some e \<longrightarrow> as_tuple (en_clock e) \<le> as_tuple (ps_clock t)) \<and>
    ps_graph t = rebuild (pf_env P') (graph_new (gr_base_ontology (ps_graph s))) all \<and> ps_ontology t = gr_ontology (ps_graph t) \<and>
    (pf_env P' = pf_env P \<longrightarrow> ps_graph t = ps_graph s \<and> ps_ontology t = ps_ontology s) \<and>
    (iter_ok (pf_env P) \<and> iter_ok (pf_env P') \<and> log_edges_agree (env_hash (pf_env P)) all \<longrightarrow>
      view (ps_graph t) = view (ps_graph s) \<and> ps_ontology t = ps_ontology s)"
proof -
  let ?H = "env_hash (pf_env P)" and ?ont = "gr_base_ontology (ps_graph s)"
  have H: "env_hash (pf_env P') = ?H" using assms(4) by (simp add: same_env_def)
  obtain all where s: "listed_as (ps_oplog s) all" "oplog_inv ?H (ps_oplog s)" "ps_graph s = rebuild (pf_env P) (graph_new ?ont) all"
    using in_step_listed [OF session_in_step [OF assms(1)]] by blast
  obtain root rest where root: "all = root # rest" "en_next root = []" "en_payload root = DefineOntology ?ont"
    "validate_self ?ont = Inr ()" "\<forall>e \<in> set rest. ordinary_op (en_payload e)"
    using session_rooted [OF assms(1)] s(1) by (auto simp: rooted_def listed_as_def)
  obtain L n where L: "merge_entries ?H (oplog_new root) rest = (L, Inr n)" "oplog_inv ?H L" "oplog_get L = oplog_get (ps_oplog s)"
    using merge_rest [OF s(2) s(1) [unfolded root(1)] root(2)] root(5) by (auto simp: ordinary_op_def)
  have "merge_entries ?H (oplog_new root) [] = (oplog_new root, Inr 0)" by (simp add: merge_entries_def)
  then have merged: "\<exists>m. (if rest = [] then (oplog_new root, Inr 0) else merge_entries ?H (oplog_new root) rest) = (L, Inr m)" using L(1) by auto
  have listing: "entries_since L None = Some all" using entries_since_cong(1) [OF L(2) s(2) L(3)] s(1) by (simp add: listed_as_def)
  have snap: "snapshot_from_bytes len (Some \<lparr>sn_entries = all\<rparr>) = Inr \<lparr>sn_entries = all\<rparr>"
    using assms(2,3) listed_size [OF s(1,2)] by (simp add: snapshot_from_bytes_def)
  have genesis: "extract_ontology_from_genesis root = Inr ?ont" using root(3,4) by (simp add: extract_ontology_from_genesis_def checked_ontology_def)
  define p where "p = max_or_zero (map (\<lambda>e. clk_physical (en_clock e)) all)"
  define l where "l = max_or_zero (map (\<lambda>e. clk_logical (en_clock e)) (filter (\<lambda>e. clk_physical (en_clock e) = p) all))"
  define t :: "('d, 'sk, 'pk, 'cb) py_store" where
    "t = (let g = rebuild (pf_env P') (graph_new ?ont) all in fresh_store (Memory L) g (replay_node_types all) i (with_values i p l) (gr_ontology g))"
  obtain m where m: "(if rest = [] then (oplog_new root, Inr 0) else merge_entries ?H (oplog_new root) rest) = (L, Inr m)" using merged by blast
  have run: "ps_from_snapshot P' i len (Some \<lparr>sn_entries = all\<rparr>) = Some (Inr t)"
    unfolding ps_from_snapshot_def snap by (simp add: root(1) genesis m [folded H] listing [unfolded root(1)] t_def p_def l_def Let_def)
  have "as_tuple (en_clock e) \<le> (p, l)" if "e \<in> set all" for e
  proof (cases "clk_physical (en_clock e) = p")
    case True
    then have "clk_logical (en_clock e) \<le> l" unfolding l_def using that by (intro max_or_zero_ge) auto
    then show ?thesis using True by (simp add: as_tuple_def)
  next
    case False
    moreover have "clk_physical (en_clock e) \<le> p" unfolding p_def using that by (intro max_or_zero_ge) auto
    ultimately show ?thesis by (simp add: as_tuple_def less_le)
  qed
  then have "\<forall>h e. oplog_get (ps_oplog t) h = Some e \<longrightarrow> as_tuple (en_clock e) \<le> as_tuple (ps_clock t)"
    using s(1) by (auto simp: t_def fresh_store_def L(3) listed_as_def with_values_def as_tuple_def Let_def)
  moreover have t: "ps_graph t = rebuild (pf_env P') (graph_new ?ont) all" "ps_ontology t = gr_ontology (ps_graph t)" "ps_instance_id t = i" "ps_oplog t = L"
    by (simp_all add: t_def fresh_store_def Let_def)
  moreover have ont: "ps_ontology s = gr_ontology (ps_graph s)" using session_in_step [OF assms(1)] by (simp add: in_step_def)
  moreover have "view (ps_graph t) = view (ps_graph s)" if "iter_ok (pf_env P)" "iter_ok (pf_env P')" "log_edges_agree ?H all"
    using rebuild_any_order [OF that(1,2) assms(4) refl that(3), of "graph_new ?ont"] s(3) t(1) by simp
  moreover have "ps_snapshot s = Some \<lparr>sn_entries = all\<rparr>" using s(1) by (simp add: ps_snapshot_def snapshot_from_oplog_def listed_as_def)
  ultimately show ?thesis
    using run listing s(1,3) L(3) view_eqD(6) [of "ps_graph t" "ps_graph s"]
    by (intro exI [of _ "\<lparr>sn_entries = all\<rparr>"] exI [of _ all] exI [of _ t]) (auto simp: listed_as_def)
qed

lemma shop_length:
  "\<exists>s h. ps_add_node demo_platform std_api 20 empty_shop ''x'' ''item'' ''x'' None (Some ''book'') = (s, Inr h) \<and> ol_len (ps_oplog s) = 2 \<and>
     (\<forall>h e. oplog_get (ps_oplog s) h = Some e \<longrightarrow> edge_adds time_hash e = [])"
  by (simp add: ps_add_node_def convert_props_def shop_eval oplog_get_def edge_adds.simps)

theorem snapshot_bootstrap_witness:
  "\<exists>s h snap (t :: demo_py_store). ps_add_node demo_platform std_api 20 empty_shop ''x'' ''item'' ''x'' None (Some ''book'') = (s, Inr h) \<and>
     ps_snapshot s = Some snap \<and> ps_from_snapshot reversed_platform ''b'' 1000 (Some snap) = Some (Inr t) \<and> view (ps_graph t) = view (ps_graph s)"
proof -
  obtain s h where s: "ps_add_node demo_platform std_api 20 empty_shop ''x'' ''item'' ''x'' None (Some ''book'') = (s, Inr h)" "ol_len (ps_oplog s) = 2"
    "\<forall>h e. oplog_get (ps_oplog s) h = Some e \<longrightarrow> edge_adds time_hash e = []" using shop_length by blast
  have ses: "session demo_platform std_api s"
    by (rule session.called [OF session.created [OF empty_shop_new] call.added_node [OF _ s(1)]]) (use shop_writes(1) in \<open>simp add: convert_props_def\<close>)
  have "ol_len (ps_oplog s) \<le> MAX_ENTRIES_PER_MESSAGE" "1000 \<le> MAX_SYNC_BYTES" using s(2) by (simp_all add: MAX_ENTRIES_PER_MESSAGE_def MAX_SYNC_BYTES_def)
  moreover have "log_edges_agree (env_hash (pf_env demo_platform)) all" if "entries_since (ps_oplog s) None = Some all" for all
    using listed_entries [OF that] s(3) by (fastforce simp: log_edges_agree_def edges_agree_def demo_platform_def)
  ultimately show ?thesis using snapshot_bootstrap [OF ses _ _ reversed_ok(2), of 1000 "''b''"] s(1) demo_iter_ok reversed_ok(1) by blast
qed

end
