(* ===== verification/Spec2Isabelle.thy ===== *)
theory Spec2Isabelle
  imports Silk_Convergence Silk_Provenance Silk_Pattern Silk_Order Silk_Gossip Silk_Durability Silk_ObsLog Silk_Compaction Silk_Merge Silk_Buffer
    Silk_History
begin

text \<open>
  \<^bold>\<open>Silk: a verified model of a Merkle-CRDT graph engine.\<close>

  Silk keeps a typed property graph that several peers change independently. A change is an \<^emph>\<open>entry\<close>: a
  graph operation with a hybrid clock, the hashes of its causal parents and its own content hash.
  Entries form an append-only Merkle DAG, the \<^emph>\<open>operation log\<close>; the graph is what applying the entries
  gives, with last-writer-wins properties and add-wins nodes; peers exchange the entries the other
  lacks, found with a Bloom filter; a store keeps the log in a file. The sources are under
  \<^verbatim>\<open>src/src/\<close>. The model follows them function by function: every definition is a translation of a
  function, a loop or a type of the code, executable, with errors and panics as values.

  \<^bold>\<open>Parts and theories, bottom up.\<close>

  \<^item> \<^verbatim>\<open>Silk_Prelude\<close>: Rust's types and collections. A hash is a 256-bit word, a string its UTF-8 bytes, a
    \<^verbatim>\<open>HashMap\<close> an association list with distinct keys in some iteration order, a \<^verbatim>\<open>BTreeMap\<close> a sorted one, a
    \<^verbatim>\<open>Result\<close> a sum, a panic \<open>None\<close>. The locale \<open>finite_map\<close> is the interface of both maps; \<open>worklist_pop\<close> and
    \<open>worklist_push\<close> are the two shapes of the code's worklists; all are interpreted on the model.
  \<^item> \<^verbatim>\<open>Silk_Clock\<close> (\<^verbatim>\<open>clock.rs\<close>): the hybrid logical clock with saturating counters. Ticks and merges
    advance it; \<open>cmp_order\<close> is a strict total order.
  \<^item> \<^verbatim>\<open>Silk_Value\<close>, \<^verbatim>\<open>Silk_Ontology\<close>, \<^verbatim>\<open>Silk_Validation\<close>, \<^verbatim>\<open>Silk_Extension\<close> (\<^verbatim>\<open>ontology.rs\<close>): values and their
    comparison as doubles, the schema, all validators, extension, fingerprints. The validators accept
    exactly the admissible nodes and edges, subsumption is the closure of the parent relation,
    extension only adds.
  \<^item> \<^verbatim>\<open>Silk_Entry\<close> (\<^verbatim>\<open>entry.rs\<close>): operations, entries, hashing, signatures, the positional wire form.
  \<^item> \<^verbatim>\<open>Silk_OpLog\<close>, \<^verbatim>\<open>Silk_Topo\<close> (\<^verbatim>\<open>oplog.rs\<close>): the log, its invariant \<open>oplog_inv\<close> under every history, the outcome of
    an append on each branch, the integrity check, and the topological sort: parents first,
    complete, independent of iteration orders.
  \<^item> \<^verbatim>\<open>Silk_Graph\<close>, \<^verbatim>\<open>Silk_Materialize\<close> (\<^verbatim>\<open>graph.rs\<close>): the graph and its indexes, the application of every
    kind of entry with quarantine and pending edges, the two-pass rebuild, the queries. The invariant
    holds in every reachable graph, the queries return exactly what they should, concurrent
    property writes commute, and rebuild agrees with incremental application.
  \<^item> \<^verbatim>\<open>Silk_Iteration\<close>: the iteration order of a \<^verbatim>\<open>HashMap\<close> is the parameter \<open>env_iter\<close> of an environment, so two processes
    are two environments. The graph is seen as finite maps and sets (\<open>view\<close>), and a replay gives the same view in
    both if in the entries an edge id always names the same edge (\<open>log_edges_agree\<close>); otherwise
    \<open>replay_depends_on_iteration\<close> has two replays that differ. The theorems about two peers or processes
    (sync, revalidation, snapshots, time travel) use two environments and this result.
  \<^item> \<^verbatim>\<open>Silk_Provenance\<close> (\<^verbatim>\<open>provenance.rs\<close>): which entries mention an id, and that they explain the node.
  \<^item> \<^verbatim>\<open>Silk_Bloom\<close>, \<^verbatim>\<open>Silk_Sync\<close>, \<^verbatim>\<open>Silk_Convergence\<close> (\<^verbatim>\<open>bloom.rs\<close>, \<^verbatim>\<open>sync.rs\<close>): offers, payloads, the ancestor
    closure, the merge loop. No false negatives as long as the element count does not overflow; the payload has all that is missing, whatever the
    filter says; a batch merges in any order; one exchange in each direction makes two logs equal, and the
    graphs rebuilt from them.
  \<^item> \<^verbatim>\<open>Silk_Search\<close>, \<^verbatim>\<open>Silk_Network\<close>, \<^verbatim>\<open>Silk_Engine\<close>, \<^verbatim>\<open>Silk_Path\<close>, \<^verbatim>\<open>Silk_Pattern\<close>, \<^verbatim>\<open>Silk_Order\<close> (\<^verbatim>\<open>engine.rs\<close>): the graph
    algorithms. The locales \<open>graph_search\<close> and \<open>level_search\<close> state the search loop once; bfs, impact
    analysis, subgraph and shortest path are interpretations of the second, dfs of the first.
  \<^item> \<^verbatim>\<open>Silk_Gossip\<close> (\<^verbatim>\<open>gossip.rs\<close>): the peer registry; the rejection loop of the target selection ends because
    the generator has full period; the compaction check is exact.
  \<^item> \<^verbatim>\<open>Silk_Redb\<close>, \<^verbatim>\<open>Silk_Store\<close>, \<^verbatim>\<open>Silk_Reconstruct\<close>, \<^verbatim>\<open>Silk_Durability\<close> (\<^verbatim>\<open>store.rs\<close>): the store over the calls of the
    database crate. The histories of \<open>store_run\<close> (no failed merge, no compaction with pending entries, no checkpoint
    from a peer), flushed and reopened, give the log back; the store's merge is the protocol's merge.
  \<^item> \<^verbatim>\<open>Silk_ObsKey\<close>, \<^verbatim>\<open>Silk_ObsLog\<close> (\<^verbatim>\<open>obslog.rs\<close>): the observation log refines a map from source and
    millisecond to value.
  \<^item> \<^verbatim>\<open>Silk_Convert\<close> (\<^verbatim>\<open>python/conversions.rs\<close>): values, nodes, entries and hashes on their way to and from Python.
    What is accepted respects the limits, and exactly that survives both ways.
  \<^item> \<^verbatim>\<open>Silk_Tail\<close> (\<^verbatim>\<open>python/tail.rs\<close>): the bell and the cursor of a tail subscription. What other threads do during a call
    is a sequence of states, one for each instant at which the call looks. A ring after the counter was read ends the
    wait, and no entry is missed, however appends and fetches interleave.
  \<^item> \<^verbatim>\<open>Silk_Facade\<close>, \<^verbatim>\<open>Silk_Lifecycle\<close>, \<^verbatim>\<open>Silk_Query\<close> (\<^verbatim>\<open>python/mod.rs\<close>, \<^verbatim>\<open>python/snapshot.rs\<close>): the store that programs use, which
    composes all of the above: the state record \<open>py_store\<close>, the write path, extension and revalidation, merging
    a peer's entries, creating, opening, snapshots, time travel, selective sync, compaction, queries.
  \<^item> \<^verbatim>\<open>Silk_Tip\<close>, \<^verbatim>\<open>Silk_Times\<close>, \<^verbatim>\<open>Silk_Session\<close>: a program's own calls as the step relation \<open>call\<close> and the states it
    reaches, \<open>session\<close>: local writes, extension and revalidation on a store in memory, refused calls included; merges,
    compaction and files are not part of it and have their own theories. The listing of the log grows at its end, what the graph keeps comes from the entries,
    the graph never drifts from the log, in any order of iteration, and a program reads its own writes.
  \<^item> \<^verbatim>\<open>Silk_Merge\<close>: what a merge lets in and what it cannot remove, how far a peer can push the clock, convergence
    after revalidation, exactness of selective sync. The locale \<open>log_relation\<close> carries a relation between
    logs through the merge loop; it is interpreted for what is kept, where entries come from and soundness.
  \<^item> \<^verbatim>\<open>Silk_Compaction\<close>: the checkpoint of a graph without quarantined entries replays to that graph, if its nodes and
    edges are acceptable to the ontology.
  \<^item> \<^verbatim>\<open>Silk_History\<close>: how a program's calls extend the log, and what follows: looking back is exact, what was written
    through Python can be read through Python, a snapshot bootstraps an equal store.
  \<^item> \<^verbatim>\<open>Silk_Buffer\<close> (\<^verbatim>\<open>buffer.rs\<close> and its class in \<^verbatim>\<open>python/mod.rs\<close>): operations on disk before there is a store; draining
    takes a prefix and leaves the rest.

  \<^bold>\<open>Parameters.\<close> The content hash (BLAKE3 of the MessagePack encoding), the signature scheme, the regular
  expressions of the constraints, the codecs, the database, the file system, Python objects, the wall clock and
  the results of \<^verbatim>\<open>f64::ln\<close> come from outside the repository or are left open by the platform; they are
  arguments (the records \<open>env\<close>, \<open>platform\<close>, \<open>redb\<close>, \<open>file_system\<close>, \<open>py_api\<close> and the codecs). What the code
  relies on is a named hypothesis (\<open>redb_laws\<close>, \<open>codec_laws\<close>, \<open>obs_codec_laws\<close>, \<open>reads_back\<close>, \<open>op_reads_back\<close>) with an instance that
  satisfies it. The hash is never assumed injective: where two logs meet, \<open>agree\<close> says that the entries
  at hand do not collide.

  \<^bold>\<open>Loops.\<close> Loops with a measure are total functions; the worklists are bounded by the finite set of hashes
  or by the nodes of the graph. The merge loops carry the pass counter of the code as fuel, and
  the merge theorem shows that it suffices. The loops with no bound in the code (the draw
  of sync targets, the walk back along the parents of a shortest path, the worklist that
  rebuilds the log from disk) are partial functions, and their theorems prove that they return.

  \<^bold>\<open>Limits found on the way\<close> are theorems too, next to the component: a removal and an addition that arrive
  in different orders, edges of removed nodes, repeated parents and dangling references, an extension
  that fails half way, a depth-limited dfs that misses nodes, partial chains at the limit of a
  pattern match, a store that cannot be reopened after a failed merge or a compaction with pending
  entries, observations of one millisecond, a tail that starves on concurrent branches, a value that
  can be merged but not read, a compaction that drops a node, ontology definitions and forged
  checkpoints that pass the guards of a merge, a buffer that loses its rest, replays that depend on the
  iteration order, a subtype of a type that declares none, a filter whose count overflows.

  \<^bold>\<open>Not modelled.\<close> The byte level of MessagePack and JSON, file permissions, the texts of errors, the
  conversion of ontology dicts to JSON text, the methods that only forward to a graph algorithm or a field,
  and the registration of Python classes (\<^verbatim>\<open>python/obslog.rs\<close>, \<^verbatim>\<open>lib.rs\<close>), which are glue to crates. Callbacks of
  subscribers are recorded as calls; the store is borrowed while they run, so they cannot change it.
\<close>

end
